(* ===== verification/Prelude.thy ===== *)
theory Prelude
  imports Main "HOL-Library.Word" "HOL-Library.Multiset"
begin

text \<open>
  What the components share: names for the C integer types, results of code that may fail,
  and generic lemmas on words, lists and function updates.

  All of C's 8, 16, 32 and 64 bit integers are words; a signed type and its unsigned
  counterpart are the same word type, read by \<^const>\<open>sint\<close> or \<^const>\<open>uint\<close> where the
  source compares, divides or shifts to the right. Arithmetic wraps around.
\<close>

unbundle bit_operations_syntax

section \<open>Types\<close>

type_synonym u8 = "8 word"
type_synonym u16 = "16 word"
type_synonym u32 = "32 word"
type_synonym u64 = "64 word"
type_synonym i32 = "32 word"
type_synonym bytes = "8 word list"

text \<open>The collections that the component proofs add to the simplifier.\<close>

named_theorems mem_simps \<open>reading a memory after a write\<close>
named_theorems field_defs \<open>definitions of instruction fields and immediates\<close>
named_theorems exec_defs \<open>definitions of the parts of one simulated instruction\<close>
named_theorems wire_simps \<open>the layout of protocol messages\<close>

section \<open>Results\<close>

text \<open>
  Code that may stop the program (an \<open>exit\<close>, a trap, a failed assertion, an access outside
  an object) returns \<open>Inl\<close> of the reason. \<open>rbind\<close> runs the next step only after a success.
\<close>

fun rbind :: "'e + 'a \<Rightarrow> ('a \<Rightarrow> 'e + 'b) \<Rightarrow> 'e + 'b" where
  "rbind (Inl e) f = Inl e"
| "rbind (Inr x) f = f x"

lemma rbind_eq_Inr: "rbind m f = Inr y \<longleftrightarrow> (\<exists>x. m = Inr x \<and> f x = Inr y)"
  by (cases m) auto

lemma rbind_eq_Inl: "rbind m f = Inl e \<longleftrightarrow> m = Inl e \<or> (\<exists>x. m = Inr x \<and> f x = Inl e)"
  by (cases m) auto

lemma rbind_assoc: "rbind (rbind m f) g = rbind m (\<lambda>x. rbind (f x) g)"
  by (cases m) auto

lemma rbind_cong [fundef_cong]:
  "m = m' \<Longrightarrow> (\<And>x. m' = Inr x \<Longrightarrow> f x = g x) \<Longrightarrow> rbind m f = rbind m' g"
  by (cases m) auto

definition is_ok :: "'e + 'a \<Rightarrow> bool" where
  "is_ok r = (case r of Inl _ \<Rightarrow> False | Inr _ \<Rightarrow> True)"

lemma is_ok_simps [simp]: "\<not> is_ok (Inl e)" "is_ok (Inr x)"
  by (simp_all add: is_ok_def)

lemma is_ok_iff: "is_ok r \<longleftrightarrow> (\<exists>x. r = Inr x)"
  by (cases r) auto

section \<open>Words\<close>

text \<open>Equality of short words, bit by bit: with numeral positions the simplifier decides each.\<close>

lemma all_less_4: "(\<forall>n < 4. P n) \<longleftrightarrow> P 0 \<and> P 1 \<and> P 2 \<and> P (3::nat)"
  by (simp add: numeral_eq_Suc All_less_Suc) blast

lemma all_less_8:
  "(\<forall>n < 8. P n) \<longleftrightarrow> P 0 \<and> P 1 \<and> P 2 \<and> P 3 \<and> P 4 \<and> P 5 \<and> P 6 \<and> P (7::nat)"
  by (simp add: numeral_eq_Suc All_less_Suc) blast

lemma all_less_16:
  "(\<forall>n < 16. P n) \<longleftrightarrow> (\<forall>n < 8. P n) \<and> (\<forall>n < 8. P (n + 8 :: nat))"
proof (intro iffI conjI; clarsimp)
  fix n :: nat
  assume a: "\<forall>n < 8. P n" "\<forall>n < 8. P (n + 8)" "n < 16"
  then show "P n"
  proof (cases "n < 8")
    case False
    with a(3) have "n - 8 < 8" by simp
    with a(2) have "P (n - 8 + 8)" by blast
    with False show ?thesis by simp
  qed (use a in auto)
qed

lemma all_less_32:
  "(\<forall>n < 32. P n) \<longleftrightarrow> (\<forall>n < 16. P n) \<and> (\<forall>n < 16. P (n + 16 :: nat))"
proof (intro iffI conjI; clarsimp)
  fix n :: nat
  assume a: "\<forall>n < 16. P n" "\<forall>n < 16. P (n + 16)" "n < 32"
  then show "P n"
  proof (cases "n < 16")
    case False
    with a(3) have "n - 16 < 16" by simp
    with a(2) have "P (n - 16 + 16)" by blast
    with False show ?thesis by simp
  qed (use a in auto)
qed

lemmas word_bits_less = all_less_32 all_less_16 all_less_8
  numeral_2_eq_2 [symmetric] numeral_3_eq_3 [symmetric]

lemma word8_eq_iff: "(x :: 8 word) = y \<longleftrightarrow> (\<forall>n < 8. bit x n = bit y n)"
  by (auto intro: bit_word_eqI)

lemma word16_eq_iff: "(x :: 16 word) = y \<longleftrightarrow> (\<forall>n < 16. bit x n = bit y n)"
  by (auto intro: bit_word_eqI)

lemma word32_eq_iff: "(x :: 32 word) = y \<longleftrightarrow> (\<forall>n < 32. bit x n = bit y n)"
  by (auto intro: bit_word_eqI)

text \<open>Positions past the end of a word hold no bit.\<close>

lemma bit_beyond_8 [simp]: "8 \<le> n \<Longrightarrow> \<not> bit (w :: 8 word) n"
  by (auto dest: bit_imp_le_length)

lemma bit_beyond_16 [simp]: "16 \<le> n \<Longrightarrow> \<not> bit (w :: 16 word) n"
  by (auto dest: bit_imp_le_length)

lemma bit_beyond_32 [simp]: "32 \<le> n \<Longrightarrow> \<not> bit (w :: 32 word) n"
  by (auto dest: bit_imp_le_length)

lemma ucast_8_32_8 [simp]: "ucast (ucast (b :: 8 word) :: 32 word) = b"
  by (simp add: word8_eq_iff bit_simps)

lemma bit_times_2: "bit ((w :: u32) * 2) n \<longleftrightarrow> 0 < n \<and> n < 32 \<and> bit w (n - 1)"
  using bit_double_iff [of w n] by (auto simp: mult.commute dest: bit_imp_le_length)

text \<open>The two low bits of an address, and the rest of it.\<close>

lemma and_3_cases:
  fixes a :: "32 word"
  obtains "a AND 3 = 0" | "a AND 3 = 1" | "a AND 3 = 2" | "a AND 3 = 3"
proof -
  have "a AND 3 = (if bit a 0 then 1 else 0) OR (if bit a 1 then 2 else 0)"
    by (simp add: word32_eq_iff word_bits_less bit_simps)
  then show ?thesis
    using that by (auto split: if_splits)
qed

lemma word_eq_split_2:
  fixes a b :: "32 word"
  shows "a = b \<longleftrightarrow> drop_bit 2 a = drop_bit 2 b \<and> a AND 3 = b AND 3"
proof -
  have "c = push_bit 2 (drop_bit 2 c) OR (c AND 3)" for c :: "32 word"
    by (simp add: word32_eq_iff word_bits_less bit_simps)
  then show ?thesis by metis
qed

text \<open>Four bytes as a word, the first the least significant.\<close>

definition join32 :: "u8 \<Rightarrow> u8 \<Rightarrow> u8 \<Rightarrow> u8 \<Rightarrow> u32" where
  "join32 b0 b1 b2 b3 =
     ucast b0 OR push_bit 8 (ucast b1) OR push_bit 16 (ucast b2) OR push_bit 24 (ucast b3)"

lemma join32_word_at:
  "join32 b0 b1 b2 b3 =
     word_of_int (uint b0 + 256 * uint b1 + 65536 * (uint b2 + 256 * uint b3))"
proof -
  let ?c = "ucast :: u8 \<Rightarrow> u32"
  have a: "push_bit 16 (?c b2) OR push_bit 24 (?c b3) = push_bit 16 (?c b2) + push_bit 24 (?c b3)"
    by (rule disjunctive_add_eq_or [symmetric]) (simp add: word32_eq_iff word_bits_less bit_simps)
  have b: "push_bit 8 (?c b1) OR (push_bit 16 (?c b2) OR push_bit 24 (?c b3)) =
     push_bit 8 (?c b1) + (push_bit 16 (?c b2) OR push_bit 24 (?c b3))"
    by (rule disjunctive_add_eq_or [symmetric]) (simp add: word32_eq_iff word_bits_less bit_simps)
  have c: "?c b0 OR (push_bit 8 (?c b1) OR (push_bit 16 (?c b2) OR push_bit 24 (?c b3))) =
     ?c b0 + (push_bit 8 (?c b1) OR (push_bit 16 (?c b2) OR push_bit 24 (?c b3)))"
    by (rule disjunctive_add_eq_or [symmetric]) (simp add: word32_eq_iff word_bits_less bit_simps)
  show ?thesis
    unfolding join32_def c unfolding b unfolding a
    by (simp add: push_bit_eq_mult algebra_simps)
qed

end
