(* ===== verification/C_Lib.thy ===== *)
theory C_Lib
  imports Prelude Complex_Main
begin

text \<open>
  The parts of the C library that the programs use on text: lines of a file, C strings, and the
  conversions of decimal numbers. Text is a list of characters; a C string ends before the first
  NUL character.

  Floating point numbers are modelled by rational numbers: \<open>double\<close> arithmetic is exact, so
  rounding, infinities and not-a-number are outside the model. The conversion of a string to a
  number covers decimal notation with an optional fraction and exponent.
\<close>

section \<open>Lines and C strings\<close>

definition newline :: char where "newline = CHR 0x0A"
definition tab :: char where "tab = CHR 0x09"
definition nul :: char where "nul = CHR 0x00"

text \<open>\<open>getline\<close> returns the next line with its newline, if the file has one; \<open>None\<close> is \<open>- 1\<close>.\<close>

definition getline :: "string \<Rightarrow> (string \<times> string) option" where
  "getline f =
     (if f = [] then None
      else case dropWhile (\<lambda>c. c \<noteq> newline) f of
             [] \<Rightarrow> Some (f, [])
           | _ # rest \<Rightarrow> Some (takeWhile (\<lambda>c. c \<noteq> newline) f @ [newline], rest))"

definition cstr :: "string \<Rightarrow> string" where
  "cstr s = takeWhile (\<lambda>c. c \<noteq> nul) s"

text \<open>Searching a C string for a character: the text before it and after it.\<close>

definition split_at :: "char \<Rightarrow> string \<Rightarrow> (string \<times> string) option" where
  "split_at c s =
     (case dropWhile (\<lambda>d. d \<noteq> c) s of
        [] \<Rightarrow> None
      | _ # rest \<Rightarrow> Some (takeWhile (\<lambda>d. d \<noteq> c) s, rest))"

lemma getline_shorter: "getline f = Some (l, rest) \<Longrightarrow> length rest < length f"
  by (auto simp: getline_def split: if_splits list.splits)
    (metis length_Cons length_dropWhile_le Suc_le_lessD)

lemma span_append:
  assumes "c \<notin> set s"
  shows "takeWhile (\<lambda>d. d \<noteq> c) (s @ c # rest) = s" "dropWhile (\<lambda>d. d \<noteq> c) (s @ c # rest) = c # rest"
    "dropWhile (\<lambda>d. d \<noteq> c) s = []"
  using assms by (induction s) auto

lemma getline_append: "newline \<notin> set l \<Longrightarrow> getline (l @ newline # rest) = Some (l @ [newline], rest)"
  by (simp add: getline_def span_append)

lemma split_at_append: "c \<notin> set s \<Longrightarrow> split_at c (s @ c # rest) = Some (s, rest)"
  by (simp add: split_at_def span_append)

lemma split_at_None: "c \<notin> set s \<Longrightarrow> split_at c s = None"
  by (simp add: split_at_def span_append(3) del: dropWhile_eq_Nil_conv)

text \<open>The lines of a text, as \<open>getline\<close> delivers them one after the other.\<close>

function input_lines :: "string \<Rightarrow> string list" where
  "input_lines inp = (case getline inp of None \<Rightarrow> [] | Some (line, rest) \<Rightarrow> line # input_lines rest)"
  by pat_completeness auto
termination
  by (relation "measure length") (auto dest: getline_shorter)

declare input_lines.simps [simp del]

lemma concat_input_lines: "concat (input_lines f) = f"
proof (induction f rule: input_lines.induct)
  case (1 f)
  show ?case
  proof (cases "getline f")
    case None
    then show ?thesis by (simp add: input_lines.simps [of f] getline_def split: if_splits list.splits)
  next
    case (Some p)
    obtain l rest where p: "p = (l, rest)" by (cases p)
    have "l @ rest = f"
      using Some p by (auto simp: getline_def dropWhile_eq_Cons_conv split: if_splits list.splits)
    with Some 1 [OF Some p [symmetric]] p show ?thesis by (simp add: input_lines.simps [of f])
  qed
qed

section \<open>Numbers\<close>

definition isspace :: "char \<Rightarrow> bool" where
  "isspace c = (let n = of_char c :: nat in 9 \<le> n \<and> n \<le> 13 \<or> n = 32)"

definition isdigit :: "char \<Rightarrow> bool" where
  "isdigit c = (let n = of_char c :: nat in 48 \<le> n \<and> n \<le> 57)"

definition digit :: "char \<Rightarrow> int" where
  "digit c = int (of_char c) - 48"

definition digits_value :: "string \<Rightarrow> int" where
  "digits_value s = foldl (\<lambda>v c. 10 * v + digit c) 0 s"

text \<open>An optional sign, as a factor, and what follows.\<close>

fun take_sign :: "string \<Rightarrow> int \<times> string" where
  "take_sign (c # s) = (if c = CHR ''-'' then (- 1, s) else if c = CHR ''+'' then (1, s) else (1, c # s))"
| "take_sign [] = (1, [])"

text \<open>\<open>strtol\<close> in base 10, which saturates at the limits of \<open>long\<close>; \<open>atol\<close> is the same.\<close>

definition atol :: "string \<Rightarrow> int" where
  "atol s =
     (let (sg, t) = take_sign (dropWhile isspace s)
      in max (- (2 ^ 63)) (min (2 ^ 63 - 1) (sg * digits_value (takeWhile isdigit t))))"

text \<open>\<open>atoi\<close> is \<open>atol\<close> cut to 32 bits.\<close>

definition atoi :: "string \<Rightarrow> int" where
  "atoi s = sint (word_of_int (atol s) :: i32)"

definition take_exponent :: "string \<Rightarrow> int" where
  "take_exponent s =
     (case s of
        [] \<Rightarrow> 0
      | c # t \<Rightarrow>
          if c = CHR ''e'' \<or> c = CHR ''E''
          then let (sg, u) = take_sign t in sg * digits_value (takeWhile isdigit u) else 0)"

definition pow10 :: "int \<Rightarrow> rat" where
  "pow10 e = (if 0 \<le> e then 10 ^ nat e else inverse (10 ^ nat (- e)))"

definition atof :: "string \<Rightarrow> rat" where
  "atof s =
     (let (sg, t) = take_sign (dropWhile isspace s);
          whole = takeWhile isdigit t;
          t = dropWhile isdigit t;
          (fraction, t) = (case t of
             [] \<Rightarrow> ([], [])
           | c # u \<Rightarrow> if c = CHR ''.'' then (takeWhile isdigit u, dropWhile isdigit u) else ([], t))
      in if whole @ fraction = [] then 0
         else of_int (sg * digits_value (whole @ fraction)) *
              pow10 (take_exponent t - int (length fraction)))"

text \<open>Printing an integer, as \<open>%ld\<close> does.\<close>

fun digits_of :: "nat \<Rightarrow> string" where
  "digits_of n = (if n < 10 then [char_of (n + 48)] else digits_of (n div 10) @ [char_of (n mod 10 + 48)])"

declare digits_of.simps [simp del]

definition print_int :: "int \<Rightarrow> string" where
  "print_int i = (if i < 0 then CHR ''-'' # digits_of (nat (- i)) else digits_of (nat i))"

lemma digit_char: "n < 10 \<Longrightarrow> isdigit (char_of (n + 48 :: nat)) \<and> digit (char_of (n + 48)) = int n"
  by (simp add: isdigit_def digit_def of_char_of)

lemma digits_of_digits: "list_all isdigit (digits_of n)"
proof (induction n rule: digits_of.induct)
  case (1 n)
  then show ?case
    by (cases "n < 10") (simp_all add: digits_of.simps [of n] digit_char)
qed

lemma digits_of_value: "digits_value (digits_of n) = int n"
proof (induction n rule: digits_of.induct)
  case (1 n)
  then show ?case
    by (cases "n < 10")
      (simp_all add: digits_of.simps [of n] digit_char digits_value_def zdiv_int zmod_int)
qed

lemma digits_of_nonempty: "digits_of n \<noteq> []"
  by (simp add: digits_of.simps [of n])

lemma isdigit_not_special: "isdigit c \<Longrightarrow> \<not> isspace c \<and> c \<noteq> CHR ''-'' \<and> c \<noteq> CHR ''+''"
  by (auto simp: isdigit_def isspace_def Let_def)

text \<open>What \<open>%ld\<close> prints, \<open>atol\<close> reads back.\<close>

lemma atol_print_int:
  assumes "- (2 ^ 63) \<le> i" "i < 2 ^ 63" "rest = [] \<or> \<not> isdigit (hd rest)"
  shows "atol (print_int i @ rest) = i"
proof -
  have tw: "takeWhile isdigit (digits_of n @ rest) = digits_of n" for n
    using digits_of_digits [of n] assms(3)
    by (cases rest) (auto simp: takeWhile_append list_all_iff)
  obtain d ds where d: "digits_of (nat i) = d # ds" by (cases "digits_of (nat i)") (auto simp: digits_of_nonempty)
  then have "isdigit d" using digits_of_digits [of "nat i"] by simp
  note nd = isdigit_not_special [OF this]
  show ?thesis
  proof (cases "i < 0")
    case True
    have "\<not> isspace CHR ''-''" by (simp add: isspace_def)
    with True assms show ?thesis
      by (simp add: atol_def print_int_def tw digits_of_value)
  next
    case False
    then have "take_sign (dropWhile isspace (print_int i @ rest)) = (1, digits_of (nat i) @ rest)"
      using nd by (simp add: print_int_def d)
    with False assms show ?thesis
      by (simp add: atol_def tw digits_of_value)
  qed
qed

section \<open>Arrays\<close>

text \<open>Reading and writing an array element: an index outside the array is an error.\<close>

datatype array_error = OutOfBounds

definition arr_get :: "'a list \<Rightarrow> int \<Rightarrow> array_error + 'a" where
  "arr_get xs i = (if 0 \<le> i \<and> i < int (length xs) then Inr (xs ! nat i) else Inl OutOfBounds)"

definition arr_set :: "'a list \<Rightarrow> int \<Rightarrow> 'a \<Rightarrow> array_error + 'a list" where
  "arr_set xs i x = (if 0 \<le> i \<and> i < int (length xs) then Inr (xs[nat i := x]) else Inl OutOfBounds)"

lemma arr_get_ok [simp]: "0 \<le> i \<Longrightarrow> i < int (length xs) \<Longrightarrow> arr_get xs i = Inr (xs ! nat i)"
  by (simp add: arr_get_def)

lemma arr_set_ok [simp]: "0 \<le> i \<Longrightarrow> i < int (length xs) \<Longrightarrow> arr_set xs i x = Inr (xs[nat i := x])"
  by (simp add: arr_set_def)

text \<open>A number as a byte.\<close>

definition u8_of :: "nat \<Rightarrow> u8" where
  "u8_of n = word_of_nat n"

lemma uint_u8_of: "n < 256 \<Longrightarrow> uint (u8_of n) = int n"
  by (simp add: u8_of_def unsigned_of_nat take_bit_nat_eq_self)

section \<open>Sorting\<close>

text \<open>
  \<open>qsort\<close> sorts with a comparison function; the order of elements that compare equal is
  unspecified. It is a parameter of the programs that call it, with this contract; the sort below
  meets it.
\<close>

definition consistent :: "('a \<Rightarrow> 'a \<Rightarrow> int) \<Rightarrow> bool" where
  "consistent cmp \<longleftrightarrow> (\<forall>a b. cmp a b \<le> 0 \<or> cmp b a \<le> 0) \<and> (\<forall>a b c. cmp a b \<le> 0 \<longrightarrow> cmp b c \<le> 0 \<longrightarrow> cmp a c \<le> 0)"

locale c_qsort =
  fixes qs :: "('a \<Rightarrow> 'a \<Rightarrow> int) \<Rightarrow> 'a list \<Rightarrow> 'a list"
  assumes qsort_perm: "consistent cmp \<Longrightarrow> mset (qs cmp xs) = mset xs"
    and qsort_sorted: "consistent cmp \<Longrightarrow> sorted_wrt (\<lambda>a b. cmp a b \<le> 0) (qs cmp xs)"
begin

lemma qsort_set: "consistent cmp \<Longrightarrow> set (qs cmp xs) = set xs"
  using qsort_perm [of cmp xs] by (metis set_mset_mset)

lemma qsort_length: "consistent cmp \<Longrightarrow> length (qs cmp xs) = length xs"
  using qsort_perm [of cmp xs] by (metis size_mset)

end

fun insert_by :: "('a \<Rightarrow> 'a \<Rightarrow> int) \<Rightarrow> 'a \<Rightarrow> 'a list \<Rightarrow> 'a list" where
  "insert_by cmp x [] = [x]"
| "insert_by cmp x (y # ys) = (if cmp x y \<le> 0 then x # y # ys else y # insert_by cmp x ys)"

definition sort_by :: "('a \<Rightarrow> 'a \<Rightarrow> int) \<Rightarrow> 'a list \<Rightarrow> 'a list" where
  "sort_by cmp xs = foldr (insert_by cmp) xs []"

lemma insert_by_mset: "mset (insert_by cmp x ys) = {#x#} + mset ys"
  by (induction ys) auto

lemma insert_by_sorted:
  assumes "consistent cmp" "sorted_wrt (\<lambda>a b. cmp a b \<le> 0) ys"
  shows "sorted_wrt (\<lambda>a b. cmp a b \<le> 0) (insert_by cmp x ys)"
  using assms(2)
proof (induction ys)
  case (Cons y ys)
  have "set (insert_by cmp x ys) = insert x (set ys)"
    using insert_by_mset [of cmp x ys] by (metis set_mset_mset set_mset_add_mset_insert add_mset_add_single add.commute)
  with Cons assms(1) show ?case
    unfolding consistent_def by auto
qed simp

interpretation insertion_sort: c_qsort sort_by
proof
  fix cmp :: "'a \<Rightarrow> 'a \<Rightarrow> int" and xs
  show "mset (sort_by cmp xs) = mset xs"
    by (induction xs) (simp_all add: sort_by_def insert_by_mset)
  assume "consistent cmp"
  then show "sorted_wrt (\<lambda>a b. cmp a b \<le> 0) (sort_by cmp xs)"
    by (induction xs) (simp_all add: sort_by_def insert_by_sorted)
qed

end
