(* ===== verification/File_Type.thy ===== *)
theory File_Type
  imports C_Lib
begin

text \<open>
  The file classifier (\<open>Opgave1/src/file.c\<close>): it reads at most 1024 bytes of a file and prints
  whether they are ASCII text, ISO-8859 text, UTF-8 text or data.

  The buffer is the list of the bytes that \<open>fread\<close> delivered, so a read outside it is a read of
  an uninitialised byte or of one past the array. What \<open>fopen\<close> answers for a path is a
  parameter: an error number, or the bytes that reading the stream delivers. \<open>strerror\<close> is a
  parameter too.
\<close>

section \<open>The classes of bytes\<close>

definition checkforempty :: "nat \<Rightarrow> bool" where
  "checkforempty bytesRead = (if bytesRead < 1 then False else True)"

definition is_ascii_allowed :: "u8 \<Rightarrow> bool" where
  "is_ascii_allowed b =
     (if 0x20 \<le> b \<and> b \<le> 0x7E then True
      else if b = 0x1B then True
      else if 0x07 \<le> b \<and> b \<le> 0x0D then True
      else False)"

function is_ascii_from :: "bytes \<Rightarrow> nat \<Rightarrow> nat \<Rightarrow> array_error + bool" where
  "is_ascii_from buf len k =
     (if k < len then
        rbind (arr_get buf (int k)) (\<lambda>b.
          if is_ascii_allowed b then is_ascii_from buf len (k + 1) else Inr False)
      else Inr True)"
  by pat_completeness auto
termination
  by (relation "measure (\<lambda>(buf, len, k). len - k)") auto

definition is_ascii :: "bytes \<Rightarrow> nat \<Rightarrow> array_error + bool" where
  "is_ascii buf len = is_ascii_from buf len 0"

function is_iso8859_from :: "bytes \<Rightarrow> nat \<Rightarrow> nat \<Rightarrow> array_error + bool" where
  "is_iso8859_from buf len i =
     (if i < len then
        rbind (arr_get buf (int i)) (\<lambda>b.
          if is_ascii_allowed b then is_iso8859_from buf len (i + 1)
          else if 0xA0 \<le> b then is_iso8859_from buf len (i + 1)
          else Inr False)
      else Inr True)"
  by pat_completeness auto
termination
  by (relation "measure (\<lambda>(buf, len, i). len - i)") auto

definition is_iso8859 :: "bytes \<Rightarrow> nat \<Rightarrow> array_error + bool" where
  "is_iso8859 buf len = is_iso8859_from buf len 0"

section \<open>UTF-8 sequences\<close>

definition utf8_seq_len :: "u8 \<Rightarrow> int" where
  "utf8_seq_len b0 =
     (if b0 AND 0x80 = 0x00 then 1
      else if b0 AND 0xE0 = 0xC0 then 2
      else if b0 AND 0xF0 = 0xE0 then 3
      else if b0 AND 0xF8 = 0xF0 then 4
      else - 1)"

definition is_continuation :: "u8 \<Rightarrow> bool" where
  "is_continuation c = (c AND 0xC0 = 0x80)"

text \<open>The pointer \<open>seq\<close> is a position in the buffer; a conjunction stops at its first false part.\<close>

fun continuations :: "bytes \<Rightarrow> nat list \<Rightarrow> array_error + bool" where
  "continuations buf [] = Inr True"
| "continuations buf (p # ps) =
     rbind (arr_get buf (int p)) (\<lambda>c. if is_continuation c then continuations buf ps else Inr False)"

definition is_valid_UTF8 :: "bytes \<Rightarrow> nat \<Rightarrow> int \<Rightarrow> array_error + bool" where
  "is_valid_UTF8 buf seq len =
     (if len < 1 then Inr False
      else rbind (arr_get buf (int seq)) (\<lambda>b0.
        if b0 = 0x00 \<or> b0 = 0x7F then Inr False
        else if b0 AND 0x80 = 0x00 then Inr (len = 1)
        else if b0 AND 0xE0 = 0xC0 then
          (if len \<noteq> 2 then Inr False else continuations buf [seq + 1])
        else if b0 AND 0xF0 = 0xE0 then
          (if len \<noteq> 3 then Inr False else continuations buf [seq + 1, seq + 2])
        else if b0 AND 0xF8 = 0xF0 \<and> b0 \<le> 0xF4 then
          (if len \<noteq> 4 then Inr False else continuations buf [seq + 1, seq + 2, seq + 3])
        else Inr False))"

text \<open>The loop over the sequences in \<open>main\<close>.\<close>

function utf8_loop :: "bytes \<Rightarrow> nat \<Rightarrow> nat \<Rightarrow> array_error + bool" where
  "utf8_loop buf bytesRead i =
     (if i < bytesRead then
        rbind (arr_get buf (int i)) (\<lambda>b0.
          let len = utf8_seq_len b0 in
          if len < 1 \<or> int i + len > int bytesRead then Inr False
          else rbind (is_valid_UTF8 buf i len) (\<lambda>valid.
            if valid then utf8_loop buf bytesRead (i + nat len) else Inr False))
      else Inr True)"
  by pat_completeness auto
termination
  by (relation "measure (\<lambda>(buf, bytesRead, i). bytesRead - i)") auto

declare is_ascii_from.simps [simp del] is_iso8859_from.simps [simp del] utf8_loop.simps [simp del]
  continuations.simps [simp del]

section \<open>The program\<close>

datatype file_kind = EmptyFile | AsciiText | IsoText | Utf8Text | DataFile

definition classify :: "bytes \<Rightarrow> nat \<Rightarrow> array_error + file_kind" where
  "classify buf bytesRead =
     (if \<not> checkforempty bytesRead then Inr EmptyFile
      else rbind (is_ascii buf bytesRead) (\<lambda>a.
        if a then Inr AsciiText
        else rbind (is_iso8859 buf bytesRead) (\<lambda>l.
          if l then Inr IsoText
          else rbind (utf8_loop buf bytesRead 0) (\<lambda>u.
            if u then Inr Utf8Text else Inr DataFile))))"

fun kind_text :: "file_kind \<Rightarrow> string" where
  "kind_text EmptyFile = ''empty''"
| "kind_text AsciiText = ''ASCII text''"
| "kind_text IsoText = ''ISO-8859 text''"
| "kind_text Utf8Text = ''Unicode text, UTF-8 text''"
| "kind_text DataFile = ''data''"

record file_run =
  fr_out :: string
  fr_err :: string
  fr_status :: nat

definition print_error :: "(int \<Rightarrow> string) \<Rightarrow> string \<Rightarrow> int \<Rightarrow> string" where
  "print_error strerror path errnum = path @ '': cannot determine ('' @ strerror errnum @ '')'' @ [newline]"

text \<open>The letter A with a ring, capital and small, is two bytes of the source.\<close>

definition open_info :: "string \<Rightarrow> string" where
  "open_info path = ''INFO: KUNNE IKKE '' @ [CHR 0xC3, CHR 0x85] @ ''BNE FIL'' @ [CHR 0x27] @ path @
     [CHR 0x27] @ ''. Detteer forventet i denne test.'' @ [newline]"

definition perror_text :: "(int \<Rightarrow> string) \<Rightarrow> int \<Rightarrow> string" where
  "perror_text strerror errnum = ''Kunne ikke '' @ [CHR 0xC3, CHR 0xA5] @ ''bne fil: '' @ strerror errnum @ [newline]"

definition file_main ::
    "(int \<Rightarrow> string) \<Rightarrow> (string \<Rightarrow> int + bytes) \<Rightarrow> string list \<Rightarrow> array_error + file_run" where
  "file_main strerror fopen argv =
     (if length argv \<noteq> 2 then
        Inr \<lparr>fr_out = [], fr_err = ''Usage: file path'' @ [newline], fr_status = 1\<rparr>
      else let path = argv ! 1 in
        case fopen path of
          Inl errnum \<Rightarrow>
            Inr \<lparr>fr_out = open_info path @ print_error strerror path errnum,
              fr_err = perror_text strerror errnum, fr_status = 0\<rparr>
        | Inr contents \<Rightarrow>
            let buf = take 1024 contents; bytesRead = length buf in
            rbind (classify buf bytesRead) (\<lambda>kind.
              Inr \<lparr>fr_out = path @ '': '' @ kind_text kind @ [newline], fr_err = [], fr_status = 0\<rparr>))"

section \<open>The reference classification\<close>

definition text_byte :: "u8 \<Rightarrow> bool" where
  "text_byte b \<longleftrightarrow> uint b \<in> {0x07..0x0D} \<union> {0x1B} \<union> {0x20..0x7E}"

definition latin_byte :: "u8 \<Rightarrow> bool" where
  "latin_byte b \<longleftrightarrow> text_byte b \<or> uint b \<in> {0xA0..0xFF}"

definition trail_byte :: "u8 \<Rightarrow> bool" where
  "trail_byte b \<longleftrightarrow> uint b \<in> {0x80..0xBF}"

text \<open>The shapes of one character that the program accepts as UTF-8.\<close>

fun utf8_shape :: "bytes \<Rightarrow> bool" where
  "utf8_shape [a] \<longleftrightarrow> uint a \<in> {0x01..0x7E}"
| "utf8_shape [a, b] \<longleftrightarrow> uint a \<in> {0xC0..0xDF} \<and> trail_byte b"
| "utf8_shape [a, b, c] \<longleftrightarrow> uint a \<in> {0xE0..0xEF} \<and> trail_byte b \<and> trail_byte c"
| "utf8_shape [a, b, c, d] \<longleftrightarrow>
     uint a \<in> {0xF0..0xF4} \<and> trail_byte b \<and> trail_byte c \<and> trail_byte d"
| "utf8_shape _ \<longleftrightarrow> False"

definition kind_of :: "bytes \<Rightarrow> file_kind" where
  "kind_of bs =
     (if bs = [] then EmptyFile
      else if list_all text_byte bs then AsciiText
      else if list_all latin_byte bs then IsoText
      else if \<exists>cs. list_all utf8_shape cs \<and> concat cs = bs then Utf8Text
      else DataFile)"

text \<open>The masks select the high bits of a byte, that is an interval of its value.\<close>

lemma uint_byte_less: "uint (b :: u8) < 256" "0 \<le> uint b"
  using uint_lt2p [of b] by simp_all

lemma mask_high:
  "b AND 0x80 = push_bit 7 (drop_bit 7 b)" "b AND 0xC0 = push_bit 6 (drop_bit 6 b)"
  "b AND 0xE0 = push_bit 5 (drop_bit 5 b)" "b AND 0xF0 = push_bit 4 (drop_bit 4 b)"
  "b AND 0xF8 = push_bit 3 (drop_bit 3 b)" for b :: u8
  by (simp_all add: word8_eq_iff all_less_8 bit_simps)

lemma uint_mask: "uint (push_bit n (drop_bit n b)) = uint b div 2 ^ n * 2 ^ n" for b :: u8
proof -
  have "uint b div 2 ^ n * 2 ^ n \<le> uint b" "0 \<le> uint b div 2 ^ n * 2 ^ n"
    by (simp_all add: minus_mod_eq_div_mult [symmetric] zmod_le_nonneg_dividend)
  moreover have "uint (push_bit n (drop_bit n b)) = take_bit 8 (uint b div 2 ^ n * 2 ^ n)"
    unfolding unsigned_push_bit_eq unsigned_drop_bit_eq by (simp add: push_bit_eq_mult drop_bit_eq_div take_bit_int_eq_self uint_byte_less)
  ultimately show ?thesis
    using uint_byte_less [of b] by (simp add: take_bit_eq_mod)
qed

lemma lead_iff:
  "b AND 0x80 = 0x00 \<longleftrightarrow> uint b < 0x80"
  "b AND 0xC0 = 0x80 \<longleftrightarrow> uint b \<in> {0x80..0xBF}"
  "b AND 0xE0 = 0xC0 \<longleftrightarrow> uint b \<in> {0xC0..0xDF}"
  "b AND 0xF0 = 0xE0 \<longleftrightarrow> uint b \<in> {0xE0..0xEF}"
  "b AND 0xF8 = 0xF0 \<longleftrightarrow> uint b \<in> {0xF0..0xF7}" for b :: u8
  using uint_byte_less [of b] unfolding mask_high word_uint_eq_iff uint_mask by auto

lemma byte_eq_iff: "b = 0x00 \<longleftrightarrow> uint b = 0" "b = 0x7F \<longleftrightarrow> uint b = 0x7F" for b :: u8
  by (simp_all add: word_uint_eq_iff)

lemma byte_pos: "1 \<le> uint b \<longleftrightarrow> uint b \<noteq> 0" for b :: u8
  using uint_byte_less(2) [of b] by linarith

lemma ascii_allowed_iff: "is_ascii_allowed b \<longleftrightarrow> text_byte b"
  by (auto simp: is_ascii_allowed_def text_byte_def word_le_def word_uint_eq_iff)

lemma high_or_ascii_iff: "is_ascii_allowed b \<or> 0xA0 \<le> b \<longleftrightarrow> latin_byte b"
  using uint_byte_less [of b]
  by (auto simp: ascii_allowed_iff latin_byte_def word_le_def)

lemma continuation_iff: "is_continuation b \<longleftrightarrow> trail_byte b"
  by (simp add: is_continuation_def trail_byte_def lead_iff)

section \<open>The loops compute the reference\<close>

lemma is_ascii_from_eq: "is_ascii_from buf (length buf) k = Inr (list_all text_byte (drop k buf))"
proof (induction buf "length buf" k rule: is_ascii_from.induct)
  case (1 buf k)
  then show ?case
    by (cases "k < length buf")
      (auto simp: is_ascii_from.simps [of _ _ k] ascii_allowed_iff Cons_nth_drop_Suc [symmetric])
qed

lemma is_iso8859_from_eq: "is_iso8859_from buf (length buf) i = Inr (list_all latin_byte (drop i buf))"
proof (induction buf "length buf" i rule: is_iso8859_from.induct)
  case (1 buf i)
  then show ?case
    by (cases "i < length buf")
      (auto simp: is_iso8859_from.simps [of _ _ i] high_or_ascii_iff [symmetric] Cons_nth_drop_Suc [symmetric])
qed

lemma continuations_eq:
  "\<forall>p \<in> set ps. p < length buf \<Longrightarrow> continuations buf ps = Inr (\<forall>p \<in> set ps. trail_byte (buf ! p))"
  by (induction ps) (auto simp: continuations.simps continuation_iff)

text \<open>The length that the first byte announces is the only one its character can have.\<close>

lemma utf8_shape_length: "utf8_shape (a # cs) \<Longrightarrow> utf8_seq_len a = int (length (a # cs))"
  by (cases "a # cs" rule: utf8_shape.cases) (auto simp: utf8_seq_len_def lead_iff)

lemma take_drop_upt: "i + n \<le> length xs \<Longrightarrow> take n (drop i xs) = map (\<lambda>k. xs ! (i + k)) [0..<n]"
  by (auto intro: nth_equalityI)

lemma is_valid_UTF8_eq:
  assumes "utf8_seq_len (buf ! i) = int n" "i + n \<le> length buf" "0 < n"
  shows "is_valid_UTF8 buf i (int n) = Inr (utf8_shape (take n (drop i buf)))"
proof -
  have i: "arr_get buf (int i) = Inr (buf ! i)"
    using assms by simp
  have "n = 1 \<or> n = 2 \<or> n = 3 \<or> n = 4"
    using assms(1) by (auto simp: utf8_seq_len_def split: if_splits)
  then consider "n = 1" "uint (buf ! i) < 0x80" | "n = 2" "uint (buf ! i) \<in> {0xC0..0xDF}"
    | "n = 3" "uint (buf ! i) \<in> {0xE0..0xEF}" | "n = 4" "uint (buf ! i) \<in> {0xF0..0xF7}"
    using assms(1) by (auto simp: utf8_seq_len_def lead_iff split: if_splits)
  then show ?thesis
  proof cases
    case 1
    then show ?thesis
      using assms(2) by (auto simp: byte_pos is_valid_UTF8_def i lead_iff byte_eq_iff [of "buf ! i"] take_drop_upt upt_rec)
  next
    case 2
    then show ?thesis
      using assms(2) by (auto simp: is_valid_UTF8_def i lead_iff byte_eq_iff [of "buf ! i"] take_drop_upt upt_rec continuations_eq)
  next
    case 3
    then show ?thesis
      using assms(2) by (auto simp: is_valid_UTF8_def i lead_iff byte_eq_iff [of "buf ! i"] take_drop_upt upt_rec continuations_eq)
  next
    case 4
    then show ?thesis
      using assms(2) by (auto simp: is_valid_UTF8_def i lead_iff byte_eq_iff [of "buf ! i"] word_le_def take_drop_upt upt_rec numeral_3_eq_3
          continuations_eq)
  qed
qed

lemma utf8_split_first:
  "(\<exists>cs. list_all utf8_shape cs \<and> concat cs = a # bs) \<longleftrightarrow>
     (let n = nat (utf8_seq_len a) in 0 < n \<and> n \<le> length (a # bs) \<and> utf8_shape (take n (a # bs)) \<and>
       (\<exists>cs. list_all utf8_shape cs \<and> concat cs = drop n (a # bs)))" (is "?l \<longleftrightarrow> ?r")
proof
  assume ?l
  then obtain c cs where cs: "utf8_shape c" "list_all utf8_shape cs" "c @ concat cs = a # bs"
    by (metis (no_types, lifting) concat.simps list.discI list.exhaust list.pred_inject(2))
  then obtain c' where c: "c = a # c'"
    by (cases c) auto
  with cs have "nat (utf8_seq_len a) = length c" "take (length c) (a # bs) = c" "drop (length c) (a # bs) = concat cs"
    using utf8_shape_length [of a c'] by (auto simp flip: cs(3))
  with cs c show ?r
    by (auto simp: Let_def)
next
  assume ?r
  then obtain cs where "list_all utf8_shape (take (nat (utf8_seq_len a)) (a # bs) # cs)"
      "concat cs = drop (nat (utf8_seq_len a)) (a # bs)"
    by (auto simp: Let_def)
  then show ?l
    by (intro exI [of _ "take (nat (utf8_seq_len a)) (a # bs) # cs"]) (simp del: take_Cons' drop_Cons')
qed

lemma utf8_loop_eq:
  "utf8_loop buf (length buf) i = Inr (\<exists>cs. list_all utf8_shape cs \<and> concat cs = drop i buf)"
proof (induction buf "length buf" i rule: utf8_loop.induct)
  case (1 buf i)
  show ?case
  proof (cases "i < length buf")
    case False
    then show ?thesis
      by (auto simp: utf8_loop.simps intro: exI [of _ "[]"])
  next
    case True
    define n where "n = nat (utf8_seq_len (buf ! i))"
    have d: "drop i buf = buf ! i # drop (Suc i) buf"
      using True by (simp add: Cons_nth_drop_Suc)
    have len: "utf8_seq_len (buf ! i) < 1 \<longleftrightarrow> n = 0" "0 < n \<Longrightarrow> utf8_seq_len (buf ! i) = int n"
      by (auto simp: n_def)
    show ?thesis
    proof (cases "0 < n \<and> i + n \<le> length buf")
      case ok: True
      then have v: "is_valid_UTF8 buf i (int n) = Inr (utf8_shape (take n (drop i buf)))"
        by (intro is_valid_UTF8_eq) (simp_all add: len)
      have ih: "utf8_shape (take n (drop i buf)) \<Longrightarrow> utf8_loop buf (length buf) (i + n) =
          Inr (\<exists>cs. list_all utf8_shape cs \<and> concat cs = drop (i + n) buf)"
        using 1 [OF True _ refl, of "buf ! i" True] True ok v by (simp add: len)
      have dn: "drop n (buf ! i # drop (Suc i) buf) = drop (i + n) buf"
        by (simp add: d [symmetric] add.commute)
      have "n \<le> length (buf ! i # drop (Suc i) buf)"
        using ok by (simp add: d [symmetric] le_diff_conv2)
      then show ?thesis
        using True ok v ih by (auto simp: utf8_loop.simps [of _ _ i] len d utf8_split_first Let_def
            n_def [symmetric] dn)
    next
      case False
      with True show ?thesis
        using utf8_split_first [of "buf ! i" "drop (Suc i) buf"] len
        by (auto simp: utf8_loop.simps [of _ _ i] d Let_def n_def [symmetric])
    qed
  qed
qed

lemma classify_eq: "classify bs (length bs) = Inr (kind_of bs)"
  by (auto simp: classify_def kind_of_def checkforempty_def is_ascii_def is_iso8859_def is_ascii_from_eq
      is_iso8859_from_eq utf8_loop_eq)



section \<open>Unicode text\<close>

text \<open>The encoding of a code point, as the Unicode standard defines UTF-8.\<close>

definition utf8_encode :: "nat \<Rightarrow> bytes" where
  "utf8_encode c =
     (if c < 0x80 then [u8_of c]
      else if c < 0x800 then [u8_of (0xC0 + c div 64), u8_of (0x80 + c mod 64)]
      else if c < 0x10000 then
        [u8_of (0xE0 + c div 4096), u8_of (0x80 + c div 64 mod 64), u8_of (0x80 + c mod 64)]
      else [u8_of (0xF0 + c div 262144), u8_of (0x80 + c div 4096 mod 64),
        u8_of (0x80 + c div 64 mod 64), u8_of (0x80 + c mod 64)])"

text \<open>The characters of a text: scalar values, without NUL and DEL.\<close>

definition text_char :: "nat \<Rightarrow> bool" where
  "text_char c \<longleftrightarrow> 0 < c \<and> c \<noteq> 0x7F \<and> c < 0x110000 \<and> \<not> (0xD800 \<le> c \<and> c \<le> 0xDFFF)"

lemma trail_u8_of: "n < 64 \<Longrightarrow> trail_byte (u8_of (0x80 + n))"
  by (simp add: trail_byte_def uint_u8_of)

lemma utf8_encode_shape:
  assumes "text_char c"
  shows "utf8_shape (utf8_encode c)"
proof -
  have "c < 0x800 \<Longrightarrow> c div 64 < 32" "c < 0x10000 \<Longrightarrow> c div 4096 < 16" "c < 0x110000 \<Longrightarrow> c div 262144 < 5"
    by (simp_all add: less_mult_imp_div_less)
  with assms show ?thesis
    by (auto simp: text_char_def utf8_encode_def trail_u8_of uint_u8_of)
qed

lemma utf8_encode_not_Nil: "utf8_encode c \<noteq> []"
  by (simp add: utf8_encode_def)

lemma unicode_text_kind:
  assumes "list_all text_char cs" "cs \<noteq> []"
  shows "kind_of (concat (map utf8_encode cs)) =
    (if list_all text_byte (concat (map utf8_encode cs)) then AsciiText
     else if list_all latin_byte (concat (map utf8_encode cs)) then IsoText else Utf8Text)"
proof -
  have "list_all utf8_shape (map utf8_encode cs)"
    using assms(1) by (auto simp: list_all_iff utf8_encode_shape)
  then show ?thesis
    using assms(2) by (auto simp: kind_of_def utf8_encode_not_Nil)
qed

text \<open>
  A file that holds Unicode text in UTF-8, of at most 1024 bytes and without the characters
  NUL and DEL, is never called data: it is called ASCII or ISO-8859 text when all its bytes are
  allowed there, and UTF-8 text otherwise.
\<close>

theorem unicode_text_recognised:
  assumes "list_all text_char cs" "cs \<noteq> []" "length (concat (map utf8_encode cs)) \<le> 1024"
    and "fopen path = Inr (concat (map utf8_encode cs))"
  shows "file_main strerror fopen [prog, path] =
    Inr \<lparr>fr_out = path @ '': '' @
           (if list_all text_byte (concat (map utf8_encode cs)) then ''ASCII text''
            else if list_all latin_byte (concat (map utf8_encode cs)) then ''ISO-8859 text''
            else ''Unicode text, UTF-8 text'') @ [newline],
         fr_err = [], fr_status = 0\<rparr>"
  using assms by (simp add: file_main_def classify_eq unicode_text_kind Let_def)

text \<open>The text of the witness: a Greek word, with bytes below 0xA0.\<close>

theorem unicode_text_recognised_witness:
  "file_main (\<lambda>_. []) (\<lambda>_. Inr (concat (map utf8_encode [0x3B1, 0x3C0, 0x3CC, 0x0A]))) [''file'', ''f''] =
    Inr \<lparr>fr_out = ''f'' @ '': '' @ ''Unicode text, UTF-8 text'' @ [newline], fr_err = [], fr_status = 0\<rparr>"
proof -
  have "list_all text_char [0x3B1, 0x3C0, 0x3CC, 0x0A]"
    "length (concat (map utf8_encode [0x3B1, 0x3C0, 0x3CC, 0x0A])) \<le> 1024"
    "\<not> list_all text_byte (concat (map utf8_encode [0x3B1, 0x3C0, 0x3CC, 0x0A]))"
    "\<not> list_all latin_byte (concat (map utf8_encode [0x3B1, 0x3C0, 0x3CC, 0x0A]))"
    by (simp_all add: utf8_encode_def text_char_def text_byte_def latin_byte_def uint_u8_of)
  with unicode_text_recognised [of "[0x3B1, 0x3C0, 0x3CC, 0x0A]" "\<lambda>_. Inr (concat (map utf8_encode [0x3B1, 0x3C0, 0x3CC, 0x0A]))"
    "''f''" "\<lambda>_. []" "''file''"]
  show ?thesis
    by simp
qed

text \<open>
  Three ways in which the answer differs from what the tests of the program ask for or a reader
  expects: Danish letters in UTF-8 have only bytes from 0xA0 and are called ISO-8859; the
  overlong form E0 80 AF of a slash is called UTF-8; a character that the end of the buffer
  cuts makes the whole text data.
\<close>

lemma danish_is_iso: "classify (concat (map utf8_encode [0xE6, 0xF8, 0xE5])) 6 = Inr IsoText"
  by code_simp

lemma overlong_is_utf8: "classify [0xE0, 0x80, 0xAF, 0x0A] 4 = Inr Utf8Text"
  by code_simp

lemma utf8_shape_last: "utf8_shape c \<Longrightarrow> c \<noteq> [] \<and> uint (last c) < 0xC0"
  by (cases c rule: utf8_shape.cases) (auto simp: trail_byte_def)

lemma utf8_text_last:
  assumes "list_all utf8_shape cs" "concat cs = bs @ [b]"
  shows "uint b < 0xC0"
proof (cases cs rule: rev_cases)
  case (snoc ds c)
  with assms have "utf8_shape c" "last c = b"
    by (auto dest: utf8_shape_last) (metis last_append last_snoc utf8_shape_last)
  then show ?thesis
    using utf8_shape_last by blast
qed (use assms in simp)

lemma cut_text_is_data:
  "classify (take 1024 (concat (map utf8_encode ([0x3C0] @ replicate 1021 0x61 @ [0x3C0])))) 1024 = Inr DataFile"
proof -
  let ?bs = "[0xCF, 0x80] @ replicate 1021 0x61 @ [0xCF] :: bytes"
  have "take 1024 (concat (map utf8_encode ([0x3C0] @ replicate 1021 0x61 @ [0x3C0]))) = ?bs"
    by (simp add: utf8_encode_def u8_of_def concat_replicate_trivial map_replicate)
  moreover have "kind_of ?bs = DataFile"
    using utf8_text_last [of _ "[0xCF, 0x80] @ replicate 1021 0x61" "0xCF"]
    by (auto simp: kind_of_def text_byte_def latin_byte_def)
  ultimately show ?thesis
    using classify_eq [of ?bs] by simp
qed

end
