(* ===== verification/Bench_Heap.thy ===== *)
theory Bench_Heap
  imports Prelude "HOL-Library.Signed_Division"
begin

text \<open>
  The allocator of small blocks of \<open>Opgave5/predictor-benchmarks/lib.c\<close>: \<open>init_heap\<close>,
  \<open>allocate\<close> and \<open>release\<close>.

  The memory of the simulated machine is a map from the addresses of aligned words to their
  values; addresses and \<open>int\<close> values are integers, cut to 32 bits where an operation can leave
  that range. A block starts with one word that is the link to the next free block while the
  block is free and its size while it is in use; the pointer handed out is the address after it.
\<close>

section \<open>The allocator\<close>

definition SMALL_BLOCK_LIMIT :: int where "SMALL_BLOCK_LIMIT = 4096"
definition MIN_ALLOCATION :: int where "MIN_ALLOCATION = 100"
definition BLOCK_SIZE_STEP :: int where "BLOCK_SIZE_STEP = 8"
definition NUM_SIZES :: int where "NUM_SIZES = SMALL_BLOCK_LIMIT div BLOCK_SIZE_STEP"

lemmas block_constants = SMALL_BLOCK_LIMIT_def MIN_ALLOCATION_def BLOCK_SIZE_STEP_def NUM_SIZES_def

record heap_state =
  mem_words :: "int \<Rightarrow> int"
  small_block_headers :: "int list"
  free_space :: int
  initialized :: int

datatype heap_error = BadHeader

text \<open>A value cut to a signed or to an unsigned word.\<close>

definition s32 :: "int \<Rightarrow> int" where
  "s32 x = (x + 2 ^ 31) mod 2 ^ 32 - 2 ^ 31"

definition a32 :: "int \<Rightarrow> int" where
  "a32 x = x mod 2 ^ 32"

definition init_heap :: "int \<Rightarrow> heap_state \<Rightarrow> heap_state" where
  "init_heap heap_start s = s\<lparr>initialized := 0, free_space := heap_start\<rparr>"

text \<open>
  Cutting a chunk into blocks, from the last to the first, each linked in front of the list. The
  loop runs for sizes that are positive.
\<close>

function carve :: "int \<Rightarrow> int \<Rightarrow> int \<Rightarrow> (int \<Rightarrow> int) \<Rightarrow> int \<Rightarrow> (int \<Rightarrow> int) \<times> int" where
  "carve chunk sz end_chunk w h =
     (if end_chunk \<ge> chunk \<and> 0 < sz then carve chunk sz (end_chunk - sz) (w(end_chunk := h)) end_chunk else (w, h))"
  by pat_completeness auto
termination
  by (relation "measure (\<lambda>(chunk, sz, end_chunk, w, h). nat (end_chunk + 1 - chunk))") auto

declare carve.simps [simp del]

definition allocation_size :: "int \<Rightarrow> int" where
  "allocation_size sz =
     (let allocation = sz * 10 in
      if allocation < MIN_ALLOCATION then (MIN_ALLOCATION div sz) * sz else allocation)"

definition cut_chunk :: "nat \<Rightarrow> int \<Rightarrow> heap_state \<Rightarrow> heap_state" where
  "cut_chunk num_size sz s =
     (let chunk = free_space s; end_chunk = a32 (chunk + allocation_size sz);
          (w, h) = carve chunk sz (end_chunk - sz) (mem_words s) (small_block_headers s ! num_size) in
      s\<lparr>mem_words := w, small_block_headers := (small_block_headers s)[num_size := h], free_space := end_chunk\<rparr>)"

definition unlink_block :: "nat \<Rightarrow> int \<Rightarrow> heap_state \<Rightarrow> int \<times> heap_state" where
  "unlink_block num_size sz s =
     (let block = small_block_headers s ! num_size in
      (a32 (block + 4), s\<lparr>small_block_headers := (small_block_headers s)[num_size := mem_words s block],
         mem_words := (mem_words s)(block := sz)\<rparr>))"

definition align_size :: "int \<Rightarrow> int" where
  "align_size n =
     (let sz = s32 (n + 4); offset = sz AND (BLOCK_SIZE_STEP - 1) in
      if offset \<noteq> 0 then s32 ((sz AND NOT offset) + BLOCK_SIZE_STEP) else sz)"

definition allocate :: "int \<Rightarrow> heap_state \<Rightarrow> heap_error + int \<times> heap_state" where
  "allocate n s =
     (let s = (if initialized s = 0
               then s\<lparr>initialized := 1, small_block_headers := replicate (nat NUM_SIZES) 0\<rparr> else s) in
      if n < 1 then Inr (0, s)
      else
        let sz = align_size n; num_size = sz sdiv BLOCK_SIZE_STEP in
        if num_size \<ge> NUM_SIZES then Inr (0, s)
        else if num_size < 0 then Inl BadHeader
        else
          let s = (if small_block_headers s ! nat num_size = 0 then cut_chunk (nat num_size) sz s else s) in
          Inr (unlink_block (nat num_size) sz s))"

definition release :: "int \<Rightarrow> heap_state \<Rightarrow> heap_error + heap_state" where
  "release memory s =
     (let chunk = a32 (memory - 4); sz = mem_words s chunk; num_size = sz sdiv BLOCK_SIZE_STEP in
      if num_size < 0 \<or> num_size \<ge> NUM_SIZES then Inl BadHeader
      else Inr (s\<lparr>mem_words := (mem_words s)(chunk := small_block_headers s ! nat num_size),
        small_block_headers := (small_block_headers s)[nat num_size := chunk]\<rparr>))"

section \<open>Lists of free blocks\<close>

primrec chain :: "(int \<Rightarrow> int) \<Rightarrow> int \<Rightarrow> int list \<Rightarrow> bool" where
  "chain w p [] \<longleftrightarrow> p = 0"
| "chain w p (a # as) \<longleftrightarrow> p = a \<and> a \<noteq> 0 \<and> chain w (w a) as"

lemma chain_upd [simp]: "u \<notin> set as \<Longrightarrow> chain (w(u := v)) p as = chain w p as"
  by (induction as arbitrary: p) auto

lemma chain_same: "(\<And>a. a \<in> set as \<Longrightarrow> w' a = w a) \<Longrightarrow> chain w' p as = chain w p as"
  by (induction as arbitrary: p) auto

lemma chain_null: "chain w p as \<Longrightarrow> p = 0 \<longleftrightarrow> as = []"
  by (cases as) auto

lemma chain_unique: "chain w p as \<Longrightarrow> chain w p bs \<Longrightarrow> as = bs"
proof (induction as arbitrary: p bs)
  case (Cons a as)
  then show ?case
    by (cases bs) auto
qed (simp add: chain_null)

lemma chain_suffix: "chain w p (xs @ a # ys) \<Longrightarrow> chain w a (a # ys)"
  by (induction xs arbitrary: p) auto

lemma chain_distinct: "chain w p as \<Longrightarrow> distinct as"
proof (induction as arbitrary: p)
  case (Cons a as)
  have "a \<notin> set as"
  proof
    assume "a \<in> set as"
    then obtain xs ys where "as = xs @ a # ys"
      by (auto simp: in_set_conv_decomp)
    with Cons.prems have "chain w a (a # ys)" "chain w a (a # as)"
      using chain_suffix [of w p "a # xs" a ys] by auto
    then have "ys = as"
      using chain_unique by blast
    with \<open>as = xs @ a # ys\<close> show False
      by simp
  qed
  with Cons show ?case
    by auto
qed simp

text \<open>The blocks of a chunk.\<close>

definition chunk_blocks :: "int \<Rightarrow> int \<Rightarrow> nat \<Rightarrow> int list" where
  "chunk_blocks chunk sz m = map (\<lambda>i. chunk + int i * sz) [0..<m]"

lemma carve_chain:
  assumes "0 < sz" "0 < chunk" "chain w h as" "\<And>a. a \<in> set as \<Longrightarrow> a < chunk \<or> chunk + int m * sz \<le> a"
    and "carve chunk sz (chunk + int m * sz - sz) w h = (w', h')"
  shows "chain w' h' (chunk_blocks chunk sz m @ as) \<and>
    (\<forall>x. x < chunk \<longrightarrow> w' x = w x)"
  using assms
proof (induction m arbitrary: w h as)
  case 0
  then show ?case
    by (simp add: carve.simps [of chunk] chunk_blocks_def)
next
  case (Suc m)
  let ?a = "chunk + int m * sz"
  have ge: "chunk \<le> ?a"
    using Suc.prems(1) by simp
  have e: "chunk + int (Suc m) * sz - sz = ?a"
    by (simp add: algebra_simps)
  have next_call: "carve chunk sz (?a - sz) (w(?a := h)) ?a = (w', h')"
    using Suc.prems(1,5) ge unfolding e by (subst (asm) carve.simps) simp
  have na: "?a \<notin> set as"
  proof
    assume "?a \<in> set as"
    then have "?a < chunk \<or> chunk + int (Suc m) * sz \<le> ?a"
      by (rule Suc.prems(4))
    moreover have "chunk + int (Suc m) * sz = ?a + sz"
      by (simp add: algebra_simps)
    ultimately show False
      using ge Suc.prems(1) by linarith
  qed
  have c1: "chain (w(?a := h)) ?a (?a # as)"
    using Suc.prems(2,3) ge na by simp
  have c2: "b < chunk \<or> chunk + int m * sz \<le> b" if "b \<in> set (?a # as)" for b
    using Suc.prems(1) Suc.prems(4) [of b] that by (auto simp: distrib_right)
  from Suc.IH [OF Suc.prems(1,2) c1 c2 next_call] ge show ?case
    by (auto simp: chunk_blocks_def)
qed

section \<open>The invariant of the heap\<close>

text \<open>
  A block is its address with its size. \<open>live\<close> are the blocks in use and \<open>F k\<close> the list of the free
  blocks of size \<open>8 * k\<close>; together they are the blocks cut so far.
\<close>

type_synonym block = "int \<times> int"

definition free_blocks :: "(nat \<Rightarrow> int list) \<Rightarrow> block set" where
  "free_blocks F = {(a, 8 * int k) |a k. a \<in> set (F k)}"

definition apart :: "block set \<Rightarrow> bool" where
  "apart B \<longleftrightarrow> (\<forall>(a, y) \<in> B. \<forall>(b, z) \<in> B. (a, y) \<noteq> (b, z) \<longrightarrow> a + y \<le> b \<or> b + z \<le> a)"

definition well_sized :: "block set \<Rightarrow> bool" where
  "well_sized B \<longleftrightarrow> (\<forall>(a, z) \<in> B. \<exists>k. z = 8 * int k \<and> 0 < k \<and> k < 512)"

definition between :: "int \<Rightarrow> int \<Rightarrow> block set \<Rightarrow> bool" where
  "between lo hi B \<longleftrightarrow> (\<forall>(a, z) \<in> B. lo \<le> a \<and> a + z \<le> hi)"

definition lists_ok :: "int \<Rightarrow> heap_state \<Rightarrow> block set \<Rightarrow> (nat \<Rightarrow> int list) \<Rightarrow> bool" where
  "lists_ok base s live F \<longleftrightarrow>
     length (small_block_headers s) = 512 \<and>
     (\<forall>k < 512. chain (mem_words s) (small_block_headers s ! k) (F k)) \<and>
     apart (live \<union> free_blocks F) \<and> well_sized (live \<union> free_blocks F) \<and>
     between base (free_space s) (live \<union> free_blocks F) \<and> live \<inter> free_blocks F = {} \<and>
     (\<forall>(a, z) \<in> live. mem_words s a = z)"

definition heap_ok :: "int \<Rightarrow> heap_state \<Rightarrow> block set \<Rightarrow> bool" where
  "heap_ok base s live \<longleftrightarrow> 0 < base \<and> base \<le> free_space s \<and> free_space s < 2 ^ 32 \<and>
     (if initialized s = 0 then live = {} else \<exists>F. lists_ok base s live F)"

lemma apartD: "apart B \<Longrightarrow> (a, y) \<in> B \<Longrightarrow> (b, z) \<in> B \<Longrightarrow> (a, y) = (b, z) \<or> a + y \<le> b \<or> b + z \<le> a"
  by (fastforce simp: apart_def)

lemma apartI:
  "(\<And>a y b z. (a, y) \<in> B \<Longrightarrow> (b, z) \<in> B \<Longrightarrow> (a, y) = (b, z) \<or> a + y \<le> b \<or> b + z \<le> a) \<Longrightarrow> apart B"
  by (fastforce simp: apart_def)

lemma betweenD: "between lo hi B \<Longrightarrow> (a, z) \<in> B \<Longrightarrow> lo \<le> a \<and> a + z \<le> hi"
  by (auto simp: between_def)

lemma well_sizedD: "well_sized B \<Longrightarrow> (a, z) \<in> B \<Longrightarrow> \<exists>k. z = 8 * int k \<and> 0 < k \<and> k < 512"
  by (auto simp: well_sized_def)

lemma same_address:
  assumes "apart B" "well_sized B" "(a, y) \<in> B" "(a, z) \<in> B"
  shows "y = z"
  using apartD [OF assms(1,3,4)] well_sizedD [OF assms(2,3)] well_sizedD [OF assms(2,4)] by auto

lemma free_blocks_mem: "(a, z) \<in> free_blocks F \<longleftrightarrow> (\<exists>k. z = 8 * int k \<and> a \<in> set (F k))"
  by (auto simp: free_blocks_def)

lemma free_blocks_iff: "(a, 8 * int k) \<in> free_blocks F \<longleftrightarrow> a \<in> set (F k)"
  by (auto simp: free_blocks_def)

text \<open>Putting blocks in front of a list.\<close>

lemma free_blocks_put: "free_blocks (F(k := as @ F k)) = (\<lambda>a. (a, 8 * int k)) ` set as \<union> free_blocks F"
  by (auto simp: free_blocks_mem split: if_splits)

lemma free_blocks_take:
  assumes "F k = a # as"
  shows "free_blocks F = insert (a, 8 * int k) (free_blocks (F(k := as)))"
  using free_blocks_put [of "F(k := as)" k "[a]"] assms by (simp add: fun_upd_idem)

lemma lists_okD:
  assumes "lists_ok base s live F"
  shows "length (small_block_headers s) = 512"
    "k < 512 \<Longrightarrow> chain (mem_words s) (small_block_headers s ! k) (F k)"
    "apart (live \<union> free_blocks F)" "well_sized (live \<union> free_blocks F)"
    "between base (free_space s) (live \<union> free_blocks F)" "live \<inter> free_blocks F = {}"
    "(a, z) \<in> live \<Longrightarrow> mem_words s a = z"
  using assms by (auto simp: lists_ok_def)

lemma blocks_bounds:
  assumes "lists_ok base s live F" "(a, z) \<in> live \<union> free_blocks F"
  shows "base \<le> a" "a + z \<le> free_space s" "8 \<le> z" "z < 4096"
  using well_sizedD [OF lists_okD(4) [OF assms(1)] assms(2)] lists_okD(5) [OF assms(1)] assms(2)
  by (auto simp: between_def)

text \<open>A free block is in one list only, and not in use.\<close>

lemma free_once:
  assumes "lists_ok base s live F" "a \<in> set (F k)"
  shows "(a, z) \<notin> live" "j \<noteq> k \<Longrightarrow> a \<notin> set (F j)"
proof -
  note same = same_address [OF lists_okD(3,4) [OF assms(1)]]
  show "(a, z) \<notin> live"
    using same [of a z "8 * int k"] lists_okD(6) [OF assms(1)] assms(2) by (auto simp: free_blocks_iff)
  show "a \<notin> set (F j)" if "j \<noteq> k"
    using same [of a "8 * int j" "8 * int k"] assms(2) that by (auto simp: free_blocks_iff)
qed

lemma unlink_ok:
  assumes ok: "lists_ok base s live F" and k: "k < 512" and F: "F k = a # as"
    and u: "unlink_block k (8 * int k) s = (p, s')" and sp: "free_space s < 2 ^ 32" "0 < base"
  shows "p = a + 4 \<and> lists_ok base s' (insert (a, 8 * int k) live) (F(k := as)) \<and>
    free_space s' = free_space s \<and> initialized s' = initialized s \<and>
    mem_words s' = (mem_words s)(a := 8 * int k)"
proof -
  have ch: "chain (mem_words s) (small_block_headers s ! k) (a # as)"
    using lists_okD(2) [OF ok k] F by simp
  then have h: "small_block_headers s ! k = a" "a \<notin> set as"
    using chain_distinct [OF ch] by auto
  have free: "a \<in> set (F k)"
    using F by simp
  then have "base \<le> a" "a + 8 * int k \<le> free_space s" "8 \<le> 8 * int k"
    using blocks_bounds [OF ok, of a "8 * int k"] by (simp_all add: free_blocks_iff)
  then have p: "p = a + 4"
    using u sp h by (auto simp: unlink_block_def a32_def)
  have s': "mem_words s' = (mem_words s)(a := 8 * int k)" "free_space s' = free_space s" "initialized s' = initialized s"
    "small_block_headers s' = (small_block_headers s)[k := mem_words s a]"
    using u h by (auto simp: unlink_block_def)
  have "chain (mem_words s') (small_block_headers s' ! j) ((F(k := as)) j)" if "j < 512" for j
    using lists_okD(1) [OF ok] lists_okD(2) [OF ok that] ch h s' that k free_once(2) [OF ok free, of j]
    by (auto simp: nth_list_update)
  moreover have "insert (a, 8 * int k) live \<union> free_blocks (F(k := as)) = live \<union> free_blocks F"
    using free_blocks_take [of F, OF F] by auto
  moreover have "insert (a, 8 * int k) live \<inter> free_blocks (F(k := as)) = {}"
    using lists_okD(6) [OF ok] free_blocks_take [of F, OF F] h(2) by (auto simp: free_blocks_iff)
  moreover have "\<forall>(b, z) \<in> insert (a, 8 * int k) live. mem_words s' b = z"
    using lists_okD(7) [OF ok] free_once(1) [OF ok free] s' by auto
  ultimately have "lists_ok base s' (insert (a, 8 * int k) live) (F(k := as))"
    using ok s' unfolding lists_ok_def by simp
  with p s' show ?thesis
    by simp
qed

lemma release_ok:
  assumes ok: "lists_ok base s live F" and live: "(a, z) \<in> live" and sp: "free_space s < 2 ^ 32" "0 < base"
  shows "\<exists>s'. release (a + 4) s = Inr s' \<and>
    lists_ok base s' (live - {(a, z)}) (F(nat (z div 8) := a # F (nat (z div 8)))) \<and>
    free_space s' = free_space s \<and> initialized s' = initialized s \<and>
    mem_words s' = (mem_words s)(a := small_block_headers s ! nat (z div 8)) \<and>
    small_block_headers s' = (small_block_headers s)[nat (z div 8) := a]"
proof -
  obtain k where k: "z = 8 * int k" "0 < k" "k < 512"
    using well_sizedD [OF lists_okD(4) [OF ok], of a z] live by auto
  define s' where "s' = s\<lparr>mem_words := (mem_words s)(a := small_block_headers s ! k),
    small_block_headers := (small_block_headers s)[k := a]\<rparr>"
  have b: "base \<le> a" "a + z \<le> free_space s"
    using blocks_bounds [OF ok] live by blast+
  have "a32 a = a"
    using b sp k by (simp add: a32_def)
  moreover have "z sdiv 8 = int k"
    using k by (simp add: signed_divide_int_def)
  ultimately have rel: "release (a + 4) s = Inr s'"
    using lists_okD(7) [OF ok live] k by (simp add: release_def Let_def block_constants s'_def)
  have nf: "a \<notin> set (F j)" for j
    using free_once(1) [OF ok] live by blast
  have "chain (mem_words s') (small_block_headers s' ! j) ((F(k := a # F k)) j)" if "j < 512" for j
    using lists_okD(1) [OF ok] lists_okD(2) [OF ok that] nf b sp that k
    by (auto simp: s'_def nth_list_update)
  moreover have fb: "free_blocks (F(k := a # F k)) = insert (a, z) (free_blocks F)"
    using free_blocks_put [of F k "[a]"] k by simp
  moreover have "live - {(a, z)} \<union> free_blocks (F(k := a # F k)) = live \<union> free_blocks F"
    using live fb by auto
  moreover have "(live - {(a, z)}) \<inter> free_blocks (F(k := a # F k)) = {}"
    using lists_okD(6) [OF ok] fb by auto
  moreover have "mem_words s' b = y" if "(b, y) \<in> live" "(b, y) \<noteq> (a, z)" for b y
  proof -
    have "b \<noteq> a"
      using same_address [OF lists_okD(3,4) [OF ok], of a z y] live that by auto
    then show ?thesis
      using lists_okD(7) [OF ok that(1)] by (simp add: s'_def)
  qed
  then have "\<forall>(b, y) \<in> live - {(a, z)}. mem_words s' b = y"
    by auto
  ultimately have "lists_ok base s' (live - {(a, z)}) (F(k := a # F k))"
    using ok unfolding lists_ok_def s'_def by simp
  with rel k show ?thesis
    by (auto simp: s'_def)
qed

section \<open>Cutting a new chunk\<close>

lemma allocation_size_blocks:
  assumes "8 \<le> sz" "sz < 4096"
  obtains m where "allocation_size sz = int m * sz" "0 < m" "int m * sz < 40960"
proof (cases "sz * 10 < 100")
  case True
  then have "sz = 8 \<or> sz = 9"
    using assms by linarith
  then show ?thesis
    using that [of "nat (100 div sz)"] by (auto simp: allocation_size_def block_constants)
next
  case False
  then show ?thesis
    using that [of 10] assms by (simp add: allocation_size_def block_constants)
qed

lemma chunk_blocks_apart:
  assumes "0 < sz"
  shows "apart ((\<lambda>a. (a, sz)) ` set (chunk_blocks chunk sz m))"
proof -
  have "chunk + int i * sz + sz \<le> chunk + int j * sz" if "i < j" for i j
  proof -
    have "(int i + 1) * sz \<le> int j * sz"
      using that assms by (intro mult_right_mono) auto
    then show ?thesis
      by (simp add: algebra_simps)
  qed
  then have "i = j \<or> chunk + int i * sz + sz \<le> chunk + int j * sz \<or> chunk + int j * sz + sz \<le> chunk + int i * sz" for i j
    using linorder_neq_iff [of i j] by blast
  then show ?thesis
    unfolding chunk_blocks_def by (intro apartI) (auto, metis)
qed

lemma chunk_blocks_between:
  assumes "0 < sz"
  shows "between chunk (chunk + int m * sz) ((\<lambda>a. (a, sz)) ` set (chunk_blocks chunk sz m))"
proof -
  have "int i * sz + sz \<le> int m * sz" if "i < m" for i
  proof -
    have "(int i + 1) * sz \<le> int m * sz"
      using that assms by (intro mult_right_mono) auto
    then show ?thesis
      by (simp add: algebra_simps)
  qed
  then show ?thesis
    using assms by (auto simp: between_def chunk_blocks_def)
qed

lemma apart_union:
  assumes "apart A" "apart B" "between lo mid A" "between mid hi B"
  shows "apart (A \<union> B)"
proof (rule apartI)
  fix a y b z
  assume "(a, y) \<in> A \<union> B" "(b, z) \<in> A \<union> B"
  then show "(a, y) = (b, z) \<or> a + y \<le> b \<or> b + z \<le> a"
    using apartD [OF assms(1), of a y b z] apartD [OF assms(2), of a y b z]
      betweenD [OF assms(3), of a y] betweenD [OF assms(3), of b z]
      betweenD [OF assms(4), of a y] betweenD [OF assms(4), of b z]
    by (elim UnE) linarith+
qed

lemma between_Un:
  "between lo mid A \<Longrightarrow> between mid hi B \<Longrightarrow> lo \<le> mid \<Longrightarrow> mid \<le> hi \<Longrightarrow> between lo hi (A \<union> B)"
  by (fastforce simp: between_def)

lemma well_sized_Un: "well_sized (A \<union> B) \<longleftrightarrow> well_sized A \<and> well_sized B"
  unfolding well_sized_def by blast

lemma cut_chunk_ok:
  assumes ok: "lists_ok base s live F" and k: "0 < k" "k < 512" and F: "F k = []"
    and sp: "free_space s + 40960 < 2 ^ 32" "0 < base" "base \<le> free_space s"
  shows "\<exists>as. as \<noteq> [] \<and> lists_ok base (cut_chunk k (8 * int k) s) live (F(k := as)) \<and>
    free_space s \<le> free_space (cut_chunk k (8 * int k) s) \<and>
    free_space (cut_chunk k (8 * int k) s) \<le> free_space s + 40960 \<and>
    initialized (cut_chunk k (8 * int k) s) = initialized s \<and>
    (\<forall>x < free_space s. mem_words (cut_chunk k (8 * int k) s) x = mem_words s x) \<and>
    (\<forall>a \<in> set as. free_space s \<le> a)"
proof -
  let ?c = "free_space s" and ?z = "8 * int k" and ?s = "cut_chunk k (8 * int k) s"
  obtain m where m: "allocation_size ?z = int m * ?z" "0 < m" "int m * ?z < 40960"
    using k by (rule_tac allocation_size_blocks [of ?z]) auto
  obtain w h where c: "carve ?c ?z (?c + int m * ?z - ?z) (mem_words s) (small_block_headers s ! k) = (w, h)"
    by fastforce
  have e: "a32 (?c + allocation_size ?z) = ?c + int m * ?z"
    using m sp mult_nonneg_nonneg [of "int m" ?z] unfolding a32_def by (subst mod_pos_pos_trivial) linarith+
  have s': "mem_words ?s = w" "small_block_headers ?s = (small_block_headers s)[k := h]"
    "free_space ?s = ?c + int m * ?z" "initialized ?s = initialized s"
    using c e by (simp_all add: cut_chunk_def Let_def)
  let ?as = "chunk_blocks ?c ?z m"
  let ?N = "(\<lambda>a. (a, ?z)) ` set ?as"
  have "chain (mem_words s) (small_block_headers s ! k) []"
    using lists_okD(2) [OF ok k(2)] F by simp
  then have ch: "chain w h ?as" and w: "\<forall>x. x < ?c \<longrightarrow> w x = mem_words s x"
    using carve_chain [of ?z ?c "mem_words s" "small_block_headers s ! k" "[]" m w h] c k sp by auto
  have old: "a < ?c" if "(a, z) \<in> live \<union> free_blocks F" for a z
    using blocks_bounds [OF ok that] by linarith
  have "chain w (small_block_headers ?s ! j) ((F(k := ?as)) j)" if "j < 512" for j
  proof (cases "j = k")
    case True
    then show ?thesis
      using ch s' lists_okD(1) [OF ok] k by simp
  next
    case False
    have "chain w (small_block_headers s ! j) (F j) = chain (mem_words s) (small_block_headers s ! j) (F j)"
      using w old by (intro chain_same) (metis UnCI free_blocks_iff)
    then show ?thesis
      using False s' lists_okD(2) [OF ok that] by simp
  qed
  moreover have fb: "free_blocks (F(k := ?as)) = ?N \<union> free_blocks F"
    using free_blocks_put [of F k ?as] F by simp
  moreover have all: "live \<union> (?N \<union> free_blocks F) = (live \<union> free_blocks F) \<union> ?N"
    by auto
  moreover have "apart ((live \<union> free_blocks F) \<union> ?N)"
    using k by (intro apart_union [OF lists_okD(3) [OF ok] chunk_blocks_apart lists_okD(5) [OF ok] chunk_blocks_between]) auto
  moreover have "well_sized ((live \<union> free_blocks F) \<union> ?N)"
    using lists_okD(4) [OF ok] k by (simp add: well_sized_Un) (auto simp: well_sized_def)
  moreover have new: "between ?c (?c + int m * ?z) ?N"
    using k by (intro chunk_blocks_between) simp
  moreover have "between base (?c + int m * ?z) ((live \<union> free_blocks F) \<union> ?N)"
    using between_Un [OF lists_okD(5) [OF ok] new] sp k by simp
  moreover have "live \<inter> (?N \<union> free_blocks F) = {}"
    using lists_okD(6) [OF ok] old betweenD [OF new] by fastforce
  moreover have "mem_words ?s a = z" if "(a, z) \<in> live" for a z
    using lists_okD(7) [OF ok that] old [of a z] w s' that by simp
  then have "\<forall>(a, z) \<in> live. mem_words ?s a = z"
    by auto
  ultimately have "lists_ok base ?s live (F(k := ?as))"
    using lists_okD(1) [OF ok] s' unfolding lists_ok_def by simp
  moreover have "?as \<noteq> []"
    using m by (simp add: chunk_blocks_def)
  moreover have "\<forall>a \<in> set ?as. ?c \<le> a"
    by (auto simp: chunk_blocks_def)
  ultimately show ?thesis
    using s' w m by (intro exI [of _ ?as]) auto
qed

section \<open>The size of a block\<close>

lemma and_not_low: "x AND NOT (x AND 7) = x - x mod 8" for x :: int
proof -
  have low: "x AND 7 = x mod 8"
    using take_bit_eq_mask [of 3 x] by (simp add: take_bit_eq_mod mask_eq_exp_minus_1)
  have "(x AND NOT (x AND 7)) + (x AND 7) = (x AND NOT (x AND 7)) OR (x AND 7)"
    by (intro disjunctive_add_eq_or) (auto simp: bit_eq_iff bit_simps)
  also have "\<dots> = x"
    by (auto simp: bit_eq_iff bit_simps)
  finally show ?thesis
    using low by simp
qed

lemma align_size_eq:
  "align_size n = (let sz = s32 (n + 4) in if sz mod 8 \<noteq> 0 then s32 (sz - sz mod 8 + 8) else sz)"
proof -
  have "x AND 7 = x mod 8" for x :: int
    using take_bit_eq_mask [of 3 x] by (simp add: take_bit_eq_mod mask_eq_exp_minus_1)
  then show ?thesis
    using and_not_low [of "s32 (n + 4)"] by (simp add: align_size_def block_constants Let_def)
qed

lemma s32_same: "- (2 ^ 31) \<le> x \<Longrightarrow> x < 2 ^ 31 \<Longrightarrow> s32 x = x"
  by (simp add: s32_def)

lemma s32_above: "2 ^ 31 \<le> x \<Longrightarrow> x < 2 ^ 32 \<Longrightarrow> s32 x = x - 2 ^ 32"
  using mod_add_self2 [of "x - 2 ^ 31" "2 ^ 32 :: int"] by (simp add: s32_def add.commute)

lemma round_up: "(if m mod 8 \<noteq> 0 then m - m mod 8 + 8 else m) = 8 * ((m + 7) div 8)" for m :: int
proof -
  define q r where "q = m div 8" and "r = m mod 8"
  have m: "m = r + 8 * q" and r: "0 \<le> r" "r < 8"
    by (simp_all add: q_def r_def)
  have "(m + 7) div 8 = ((r - 1) + 8 * (q + 1)) div 8"
    by (simp add: m algebra_simps)
  then have "(m + 7) div 8 = (q + 1) + (r - 1) div 8"
    by (simp only: div_mult_self2)
  moreover have "(r - 1) div 8 = (if r = 0 then - 1 else 0)"
    using r by simp
  ultimately show ?thesis
    by (simp add: r_def [symmetric]) (simp add: m)
qed

lemma round_up_bounds: "m \<le> 8 * ((m + 7) div 8)" "8 * ((m + 7) div 8) \<le> m + 7" for m :: int
  by presburger+

lemma align_small:
  assumes "1 \<le> n" "n \<le> 2 ^ 31 - 12"
  shows "align_size n = 8 * ((n + 11) div 8)"
proof -
  have sz: "s32 (n + 4) = n + 4"
    using assms by (intro s32_same) auto
  have "8 * ((n + 11) div 8) < 2 ^ 31" "- (2 ^ 31) \<le> 8 * ((n + 11) div 8)"
    using assms by simp_all
  then have "s32 (8 * ((n + 11) div 8)) = 8 * ((n + 11) div 8)"
    by (intro s32_same)
  then show ?thesis
    using round_up [of "n + 4"] by (auto simp: align_size_eq Let_def sz add.commute split: if_splits)
qed

lemma align_huge:
  assumes "2 ^ 31 - 11 \<le> n" "n < 2 ^ 31"
  shows "align_size n \<le> - 8"
proof (cases "n + 4 < 2 ^ 31")
  case True
  then have sz: "s32 (n + 4) = n + 4"
    using assms by (intro s32_same) auto
  have "8 * ((n + 11) div 8) = 2 ^ 31"
    using assms True by simp
  moreover have "(n + 4) mod 8 \<noteq> 0"
    using assms True by simp presburger
  ultimately show ?thesis
    using s32_above [of "2 ^ 31"] round_up [of "n + 4"] by (simp add: align_size_eq Let_def sz add.commute)
next
  case False
  then have sz: "s32 (n + 4) = n + 4 - 2 ^ 32"
    using assms by (intro s32_above) auto
  define m x where "m = n + 4 - 2 ^ 32" and "x = 8 * ((m + 7) div 8)"
  have "- (2 ^ 31) \<le> m" "m \<le> - (2 ^ 31) + 3"
    using assms False by (simp_all add: m_def)
  then have x: "- (2 ^ 31) \<le> x" "x \<le> - 8"
    using round_up_bounds [of m] unfolding x_def [symmetric] by simp_all
  then have "s32 x = x"
    by (intro s32_same) auto
  then show ?thesis
    using round_up [of m] x sz [folded m_def] by (auto simp: align_size_eq Let_def x_def [symmetric] split: if_splits)
qed

section \<open>The contract\<close>

lemma first_use_ok:
  assumes "heap_ok base s live"
  defines "s1 \<equiv> (if initialized s = 0 then s\<lparr>initialized := 1, small_block_headers := replicate (nat NUM_SIZES) 0\<rparr> else s)"
  shows "\<exists>F. lists_ok base s1 live F" "mem_words s1 = mem_words s" "free_space s1 = free_space s" "initialized s1 \<noteq> 0"
proof -
  show "\<exists>F. lists_ok base s1 live F"
  proof (cases "initialized s = 0")
    case True
    then have "lists_ok base s1 live (\<lambda>_. [])"
      using assms by (simp add: heap_ok_def lists_ok_def block_constants apart_def well_sized_def between_def free_blocks_def)
    then show ?thesis
      by (rule exI [of _ "\<lambda>_. []"])
  qed (use assms in \<open>auto simp: heap_ok_def\<close>)
qed (simp_all add: s1_def)

lemma allocate_small:
  assumes ok: "heap_ok base s live" and sp: "free_space s + 40960 < 2 ^ 32" and n: "1 \<le> n" "n \<le> 4084"
  defines "z \<equiv> 8 * ((n + 11) div 8)"
  shows "\<exists>a s'. allocate n s = Inr (a + 4, s') \<and> (a, z) \<notin> live \<and> heap_ok base s' (insert (a, z) live) \<and>
    initialized s' \<noteq> 0 \<and> free_space s' \<le> free_space s + 40960 \<and>
    (\<forall>(b, y) \<in> live. \<forall>x. b \<le> x \<and> x < b + y \<longrightarrow> mem_words s' x = mem_words s x)"
proof -
  define s1 where "s1 = (if initialized s = 0
    then s\<lparr>initialized := 1, small_block_headers := replicate (nat NUM_SIZES) 0\<rparr> else s)"
  obtain F where F: "lists_ok base s1 live F" and s1: "mem_words s1 = mem_words s" "free_space s1 = free_space s"
      "initialized s1 \<noteq> 0"
    using first_use_ok [OF ok] unfolding s1_def by blast
  have base: "0 < base" "base \<le> free_space s1"
    using ok s1 by (auto simp: heap_ok_def)
  define k where "k = nat ((n + 11) div 8)"
  have k: "z = 8 * int k" "0 < k" "k < 512" "align_size n sdiv 8 = int k" "align_size n = 8 * int k"
    using n by (auto simp: z_def k_def align_small signed_divide_int_def)
  define s2 where "s2 = (if small_block_headers s1 ! k = 0 then cut_chunk k (8 * int k) s1 else s1)"
  have "\<exists>F a as. F k = a # as \<and> lists_ok base s2 live F \<and> free_space s1 \<le> free_space s2 \<and>
      free_space s2 \<le> free_space s1 + 40960 \<and> initialized s2 = initialized s1 \<and>
      (\<forall>x < free_space s1. mem_words s2 x = mem_words s1 x)"
  proof (cases "F k")
    case Nil
    then have "s2 = cut_chunk k (8 * int k) s1"
      using lists_okD(2) [OF F k(3)] by (simp add: s2_def)
    then show ?thesis
      using cut_chunk_ok [OF F k(2,3) Nil] sp s1 base by (metis fun_upd_same list.exhaust)
  next
    case (Cons a as)
    then have "s2 = s1"
      using lists_okD(2) [OF F k(3)] by (simp add: s2_def)
    then show ?thesis
      using F Cons by auto
  qed
  then obtain F2 a as where F2: "F2 k = a # as" "lists_ok base s2 live F2" and s2: "free_space s1 \<le> free_space s2"
      "free_space s2 \<le> free_space s1 + 40960" "initialized s2 = initialized s1"
      "\<And>x. x < free_space s1 \<Longrightarrow> mem_words s2 x = mem_words s1 x"
    by blast
  obtain p s' where u: "unlink_block k (8 * int k) s2 = (p, s')"
    by fastforce
  have s': "p = a + 4" "lists_ok base s' (insert (a, 8 * int k) live) (F2(k := as))" "free_space s' = free_space s2"
      "initialized s' = initialized s2" "mem_words s' = (mem_words s2)(a := 8 * int k)"
    using unlink_ok [OF F2(2) k(3) F2(1) u] sp s1 s2 base by auto
  have alloc: "allocate n s = Inr (a + 4, s')"
    using n k u s'(1) unfolding allocate_def s1_def [symmetric] s2_def
    by (auto simp: Let_def block_constants split: if_splits)
  have afree: "a \<in> set (F2 k)"
    using F2 by simp
  have "mem_words s' x = mem_words s x" if "(b, y) \<in> live" "b \<le> x" "x < b + y" for b y x
  proof -
    have "x < free_space s1"
      using blocks_bounds(2) [OF F, of b y] that by auto
    moreover have "x \<noteq> a"
      using apartD [OF lists_okD(3) [OF F2(2)], of b y a "8 * int k"] that free_once(1) [OF F2(2) afree] afree k(2)
      by (auto simp: free_blocks_iff)
    ultimately show ?thesis
      using s' s2 s1 by simp
  qed
  moreover have "heap_ok base s' (insert (a, z) live)"
    using s' s2 s1 base sp k by (auto simp: heap_ok_def)
  moreover have "(a, z) \<notin> live"
    using free_once(1) [OF F2(2) afree] .
  ultimately show ?thesis
    using alloc s'(3,4) s2(2,3) s1(2,3) by (intro exI [of _ a] exI [of _ s']) auto
qed

lemma allocate_null:
  assumes "heap_ok base s live" "n < 1 \<or> 4085 \<le> n \<and> n \<le> 2 ^ 31 - 12"
  shows "\<exists>s'. allocate n s = Inr (0, s') \<and> heap_ok base s' live \<and> mem_words s' = mem_words s"
proof -
  define s1 where "s1 = (if initialized s = 0
    then s\<lparr>initialized := 1, small_block_headers := replicate (nat NUM_SIZES) 0\<rparr> else s)"
  have s1: "\<exists>F. lists_ok base s1 live F" "mem_words s1 = mem_words s" "free_space s1 = free_space s" "initialized s1 \<noteq> 0"
    using first_use_ok [OF assms(1)] unfolding s1_def by blast+
  then have "heap_ok base s1 live"
    using assms(1) by (simp add: heap_ok_def)
  moreover have "1 \<le> n \<Longrightarrow> align_size n sdiv 8 = (n + 11) div 8"
    using assms(2) by (auto simp: align_small signed_divide_int_def)
  then have "allocate n s = Inr (0, s1)"
    using assms(2) unfolding allocate_def s1_def [symmetric] by (auto simp: Let_def block_constants)
  ultimately show ?thesis
    using s1 by blast
qed

lemma allocate_huge:
  "2 ^ 31 - 11 \<le> n \<Longrightarrow> n < 2 ^ 31 \<Longrightarrow> allocate n s = Inl BadHeader"
  using align_huge [of n] by (simp add: allocate_def Let_def block_constants signed_divide_int_def)

lemma heap_release:
  assumes ok: "heap_ok base s live" and live: "(a, z) \<in> live"
  shows "\<exists>s'. release (a + 4) s = Inr s' \<and> heap_ok base s' (live - {(a, z)}) \<and>
    small_block_headers s' ! nat (z div 8) = a \<and> free_space s' = free_space s \<and>
    (\<forall>(b, y) \<in> live - {(a, z)}. \<forall>x. b \<le> x \<and> x < b + y \<longrightarrow> mem_words s' x = mem_words s x)"
proof -
  obtain F where F: "lists_ok base s live F" and base: "0 < base" "base \<le> free_space s" "free_space s < 2 ^ 32"
      "initialized s \<noteq> 0"
    using ok live by (auto simp: heap_ok_def split: if_splits)
  obtain k where k: "z = 8 * int k" "0 < k" "k < 512"
    using well_sizedD [OF lists_okD(4) [OF F], of a z] live by auto
  obtain s' where s': "release (a + 4) s = Inr s'" "lists_ok base s' (live - {(a, z)}) (F(k := a # F k))"
      "free_space s' = free_space s" "initialized s' = initialized s"
      "mem_words s' = (mem_words s)(a := small_block_headers s ! k)"
      "small_block_headers s' = (small_block_headers s)[k := a]"
    using release_ok [OF F live base(3,1)] k by auto
  have "mem_words s' x = mem_words s x" if "(b, y) \<in> live - {(a, z)}" "b \<le> x" "x < b + y" for b y x
    using apartD [OF lists_okD(3) [OF F], of b y a z] that live k s'(5) by auto
  moreover have "heap_ok base s' (live - {(a, z)})"
    using s' base by (auto simp: heap_ok_def)
  moreover have "small_block_headers s' ! k = a"
    using s'(6) lists_okD(1) [OF F] k by simp
  ultimately show ?thesis
    using s'(1,3) k by (intro exI [of _ s']) auto
qed

text \<open>
  C22: In every state of the heap with the blocks \<open>live\<close> in use and room for one more chunk, a
  request of 1 to 4084 bytes returns the payload of a block of at least that many bytes; the new
  block is none of those in use, the invariant of the heap (blocks in use and free blocks are
  apart, inside the heap and linked in the list of their size) holds again, and no word of a
  block in use changes. A request of more bytes or of less than one gives NULL and changes
  nothing, except that a request of at least \<open>2 ^ 31 - 11\<close> bytes wraps around and reads outside
  the array of lists.
\<close>

theorem allocate_correct:
  assumes "heap_ok base s live" "free_space s + 40960 < 2 ^ 32"
  shows "(1 \<le> n \<and> n \<le> 4084 \<longrightarrow>
      (\<exists>a z s'. allocate n s = Inr (a + 4, s') \<and> n + 4 \<le> z \<and> z \<le> n + 11 \<and> (a, z) \<notin> live \<and>
        heap_ok base s' (insert (a, z) live) \<and>
        (\<forall>(b, y) \<in> live. \<forall>x. b \<le> x \<and> x < b + y \<longrightarrow> mem_words s' x = mem_words s x))) \<and>
    (n < 1 \<or> 4085 \<le> n \<and> n \<le> 2 ^ 31 - 12 \<longrightarrow>
      (\<exists>s'. allocate n s = Inr (0, s') \<and> heap_ok base s' live \<and> mem_words s' = mem_words s)) \<and>
    (2 ^ 31 - 11 \<le> n \<and> n < 2 ^ 31 \<longrightarrow> allocate n s = Inl BadHeader)"
proof (intro conjI impI)
  assume n: "1 \<le> n \<and> n \<le> 4084"
  show "\<exists>a z s'. allocate n s = Inr (a + 4, s') \<and> n + 4 \<le> z \<and> z \<le> n + 11 \<and> (a, z) \<notin> live \<and>
      heap_ok base s' (insert (a, z) live) \<and>
      (\<forall>(b, y) \<in> live. \<forall>x. b \<le> x \<and> x < b + y \<longrightarrow> mem_words s' x = mem_words s x)"
    using allocate_small [OF assms, of n] n round_up_bounds [of "n + 4"] by (auto simp: add.commute)
qed (use allocate_null [OF assms(1)] allocate_huge in auto)

definition start_heap :: heap_state where
  "start_heap = init_heap 0x2000000 \<lparr>mem_words = (\<lambda>_. 0), small_block_headers = [], free_space = 0, initialized = 7\<rparr>"

lemma start_heap_ok: "heap_ok 0x2000000 start_heap {}" "free_space start_heap = 0x2000000"
  by (simp_all add: start_heap_def init_heap_def heap_ok_def)

theorem allocate_correct_witness:
  "\<exists>a z s'. allocate 16 start_heap = Inr (a + 4, s') \<and> 20 \<le> z \<and> heap_ok 0x2000000 s' {(a, z)}"
  using allocate_correct [OF start_heap_ok(1), of 16] start_heap_ok(2) by auto

section \<open>Runs of a client\<close>

text \<open>
  A client that starts from the initialised heap, asks for blocks, releases blocks it got and
  writes to the words of the payload of its blocks. The blocks in use are kept beside the heap.
\<close>

inductive heap_reach :: "int \<Rightarrow> heap_state \<Rightarrow> block set \<Rightarrow> bool" for base where
  start: "heap_reach base (init_heap base s) {}"
| alloc: "heap_reach base s live \<Longrightarrow> free_space s + 40960 < 2 ^ 32 \<Longrightarrow> n < 2 ^ 31 \<Longrightarrow>
    allocate n s = Inr (p, s') \<Longrightarrow> p \<noteq> 0 \<Longrightarrow> heap_reach base s' (insert (p - 4, mem_words s' (p - 4)) live)"
| refused: "heap_reach base s live \<Longrightarrow> free_space s + 40960 < 2 ^ 32 \<Longrightarrow> n < 2 ^ 31 \<Longrightarrow>
    allocate n s = Inr (0, s') \<Longrightarrow> heap_reach base s' live"
| free: "heap_reach base s live \<Longrightarrow> (a, z) \<in> live \<Longrightarrow> release (a + 4) s = Inr s' \<Longrightarrow>
    heap_reach base s' (live - {(a, z)})"
| put: "heap_reach base s live \<Longrightarrow> (a, z) \<in> live \<Longrightarrow> a < x \<Longrightarrow> x < a + z \<Longrightarrow>
    heap_reach base (s\<lparr>mem_words := (mem_words s)(x := v)\<rparr>) live"

lemma heap_put:
  assumes ok: "heap_ok base s live" and live: "(a, z) \<in> live" "a < x" "x < a + z"
  shows "heap_ok base (s\<lparr>mem_words := (mem_words s)(x := v)\<rparr>) live"
proof -
  obtain F where F: "lists_ok base s live F" and init: "initialized s \<noteq> 0"
    using ok live by (auto simp: heap_ok_def split: if_splits)
  have "b \<noteq> x" if "(b, y) \<in> live \<union> free_blocks F" for b y
    using apartD [OF lists_okD(3) [OF F], of a z b y] blocks_bounds(3) [OF F that] that live by auto
  then have "x \<notin> set (F k)" "(x, y) \<notin> live" for k y
    by (auto simp: free_blocks_iff [symmetric])
  then have "lists_ok base (s\<lparr>mem_words := (mem_words s)(x := v)\<rparr>) live F"
    using F by (auto simp: lists_ok_def)
  then show ?thesis
    using ok init by (auto simp: heap_ok_def)
qed

lemma heap_allocated:
  assumes ok: "heap_ok base s live" and sp: "free_space s + 40960 < 2 ^ 32" and n: "n < 2 ^ 31"
    and al: "allocate n s = Inr (p, s')"
  shows "if p = 0 then heap_ok base s' live else heap_ok base s' (insert (p - 4, mem_words s' (p - 4)) live)"
proof (cases "1 \<le> n \<and> n \<le> 4084")
  case True
  then obtain a z where a: "p = a + 4" "heap_ok base s' (insert (a, z) live)" "initialized s' \<noteq> 0"
    using allocate_small [OF ok sp, of n] al by auto
  then obtain F where F: "lists_ok base s' (insert (a, z) live) F"
    by (auto simp: heap_ok_def)
  then have "mem_words s' a = z" "0 < a"
    using lists_okD(7) [OF F] blocks_bounds(1) [OF F, of a z] a by (auto simp: heap_ok_def)
  with a show ?thesis
    by simp
next
  case False
  then consider "n < 1 \<or> 4085 \<le> n \<and> n \<le> 2 ^ 31 - 12" | "2 ^ 31 - 11 \<le> n"
    by linarith
  then show ?thesis
    using allocate_null [OF ok, of n] allocate_huge [of n s] n al by cases auto
qed

lemma heap_reach_ok: "heap_reach base s live \<Longrightarrow> 0 < base \<Longrightarrow> base < 2 ^ 32 \<Longrightarrow> heap_ok base s live"
proof (induction rule: heap_reach.induct)
  case (start s)
  then show ?case
    by (simp add: init_heap_def heap_ok_def)
next
  case (alloc s live n p s')
  then show ?case
    using heap_allocated by fastforce
next
  case (refused s live n s')
  then show ?case
    using heap_allocated by fastforce
next
  case (free s live a z s')
  then show ?case
    using heap_release by fastforce
next
  case (put s live a z x v)
  then show ?case
    by (auto intro: heap_put)
qed

text \<open>The block released last is the first one handed out again for its size.\<close>

lemma allocate_reuses:
  assumes ok: "heap_ok base s live" "initialized s \<noteq> 0" and n: "1 \<le> n" "n \<le> 4084"
    and h: "small_block_headers s ! nat ((n + 11) div 8) = a" "0 < a" "a + 4 < 2 ^ 32"
  shows "\<exists>s'. allocate n s = Inr (a + 4, s')"
proof -
  have "align_size n sdiv 8 = (n + 11) div 8" "0 \<le> (n + 11) div 8" "(n + 11) div 8 < 512"
    using n by (auto simp: align_small signed_divide_int_def)
  then show ?thesis
    using ok(2) n h by (auto simp: allocate_def Let_def block_constants unlink_block_def a32_def)
qed

lemma heap_reuse:
  assumes ok: "heap_ok base s live" and live: "(a, z) \<in> live" and r: "release (a + 4) s = Inr s'"
    and n: "1 \<le> n" "(n + 11) div 8 = z div 8"
  shows "\<exists>s''. allocate n s' = Inr (a + 4, s'')"
proof -
  obtain F where F: "lists_ok base s live F" and base: "0 < base" "free_space s < 2 ^ 32" "initialized s \<noteq> 0"
    using ok live by (auto simp: heap_ok_def split: if_splits)
  obtain k where k: "z = 8 * int k" "0 < k" "k < 512"
    using well_sizedD [OF lists_okD(4) [OF F], of a z] live by auto
  have b: "base \<le> a" "a + z \<le> free_space s"
    using blocks_bounds [OF F, of a z] live by auto
  have s': "heap_ok base s' (live - {(a, z)})" "small_block_headers s' ! k = a"
    using heap_release [OF ok live] r k by auto
  have "initialized s' = initialized s"
    using release_ok [OF F live base(2,1)] r by auto
  moreover have "n \<le> 4084"
    using n k by simp
  ultimately show ?thesis
    using s' n k b base by (intro allocate_reuses [OF s'(1)]) auto
qed

text \<open>
  C21: After every run of a client that releases only blocks it has and writes only inside their
  payloads, the blocks in use lie apart from each other and inside the heap and still hold their
  sizes; each of them can be released, and the next request of its size gets it back.
\<close>

theorem heap_runs_safe:
  assumes "heap_reach base s live" "0 < base" "base < 2 ^ 32" "(a, z) \<in> live"
  shows "base \<le> a \<and> a + z \<le> free_space s \<and> mem_words s a = z \<and>
    (\<forall>(b, y) \<in> live. (b, y) \<noteq> (a, z) \<longrightarrow> a + z \<le> b \<or> b + y \<le> a) \<and>
    (\<exists>s'. release (a + 4) s = Inr s' \<and> heap_reach base s' (live - {(a, z)}) \<and>
      (\<forall>n. 1 \<le> n \<and> (n + 11) div 8 = z div 8 \<longrightarrow> (\<exists>s''. allocate n s' = Inr (a + 4, s''))))"
proof -
  have ok: "heap_ok base s live"
    using assms by (blast intro: heap_reach_ok)
  then obtain F where F: "lists_ok base s live F"
    using assms(4) by (auto simp: heap_ok_def split: if_splits)
  obtain s' where s': "release (a + 4) s = Inr s'"
    using heap_release [OF ok assms(4)] by blast
  have "\<forall>(b, y) \<in> live. (b, y) \<noteq> (a, z) \<longrightarrow> a + z \<le> b \<or> b + y \<le> a"
    using apartD [OF lists_okD(3) [OF F], of a z] assms(4) by auto
  moreover have "base \<le> a" "a + z \<le> free_space s"
    using blocks_bounds [OF F, of a z] assms(4) by auto
  moreover have "heap_reach base s' (live - {(a, z)})"
    using assms(1,4) s' by (rule heap_reach.free)
  moreover have "\<forall>n. 1 \<le> n \<and> (n + 11) div 8 = z div 8 \<longrightarrow> (\<exists>s''. allocate n s' = Inr (a + 4, s''))"
    using heap_reuse [OF ok assms(4) s'] by blast
  ultimately show ?thesis
    using lists_okD(7) [OF F assms(4)] s' by blast
qed

lemma start_heap_reach: "heap_reach 0x2000000 start_heap {}"
  unfolding start_heap_def by (rule heap_reach.start)

theorem heap_runs_safe_witness:
  "\<exists>a z s. heap_reach 0x2000000 s {(a, z)} \<and> allocate 16 start_heap = Inr (a + 4, s) \<and>
    (\<exists>s'. release (a + 4) s = Inr s' \<and> heap_reach 0x2000000 s' {})"
proof -
  obtain a z s where a: "allocate 16 start_heap = Inr (a + 4, s)" "heap_ok 0x2000000 s {(a, z)}" "initialized s \<noteq> 0"
    using allocate_small [OF start_heap_ok(1), of 16] start_heap_ok(2) by auto
  then obtain F where F: "lists_ok 0x2000000 s {(a, z)} F"
    by (auto simp: heap_ok_def)
  have "0 < a" "mem_words s a = z"
    using blocks_bounds(1) [OF F, of a z] lists_okD(7) [OF F, of a z] by auto
  then have r: "heap_reach 0x2000000 s {(a, z)}"
    using heap_reach.alloc [OF start_heap_reach _ _ a(1)] start_heap_ok(2) by simp
  show ?thesis
    using heap_runs_safe [OF r, of a z] r a(1) by auto
qed

end
