(* ===== verification/Bench_Lib.thy ===== *)
theory Bench_Lib
  imports C_Lib
begin

text \<open>
  The text functions of the library that the simulated programs are linked with
  (\<open>Opgave5/predictor-benchmarks/lib.c\<close>).

  A \<open>char\<close> of the simulated machine is an unsigned byte, and a pointer into an array is a
  position in the list of its elements; an access outside the array is an error. The input is the
  list of the bytes still to come, after which \<open>getchar\<close> answers - 1 for ever; the output is the
  list of the bytes printed.
\<close>

section \<open>Characters\<close>

text \<open>\<open>inp\<close> cuts the answer of the system call to a byte, so the end of the input reads as 0xFF.\<close>

fun inp :: "bytes \<Rightarrow> u8 \<times> bytes" where
  "inp [] = (0xFF, [])"
| "inp (c # stdin) = (c, stdin)"

definition outp :: "u8 \<Rightarrow> bytes \<Rightarrow> bytes" where
  "outp c out = out @ [c]"

function print_string :: "bytes \<Rightarrow> nat \<Rightarrow> bytes \<Rightarrow> array_error + bytes" where
  "print_string s p out =
     rbind (arr_get s (int p)) (\<lambda>c. if c \<noteq> 0 then print_string s (p + 1) (outp c out) else Inr out)"
  by pat_completeness auto
termination
  by (relation "measure (\<lambda>(s, p, out). length s - p)") (auto simp: arr_get_def split: if_splits)

text \<open>The loop of \<open>read_string\<close>, from the position \<open>p\<close> of the buffer on, with the character \<open>c\<close> read last.\<close>

function read_chars :: "bytes \<Rightarrow> nat \<Rightarrow> int \<Rightarrow> u8 \<Rightarrow> bytes \<Rightarrow> array_error + bytes \<times> bytes" where
  "read_chars buffer p max_chars c stdin =
     (if c \<noteq> 0x0A \<and> c \<noteq> 0x0D \<and> max_chars > 1 then
        rbind (arr_set buffer (int p) c) (\<lambda>buffer.
          let (c', stdin') = inp stdin in read_chars buffer (p + 1) (max_chars - 1) c' stdin')
      else rbind (arr_set buffer (int p) 0) (\<lambda>buffer. Inr (buffer, stdin)))"
  by pat_completeness auto
termination
  by (relation "measure (\<lambda>(buffer, p, max_chars, c, stdin). nat max_chars)") auto

definition read_string :: "bytes \<Rightarrow> int \<Rightarrow> bytes \<Rightarrow> array_error + bytes \<times> bytes" where
  "read_string buffer max_chars stdin =
     (let (c, stdin') = inp stdin in read_chars buffer 0 max_chars c stdin')"

section \<open>Numbers\<close>

function str_to_uns_from :: "bytes \<Rightarrow> nat \<Rightarrow> u32 \<Rightarrow> array_error + u32" where
  "str_to_uns_from s p val =
     rbind (arr_get s (int p)) (\<lambda>c.
       if c \<noteq> 0 then str_to_uns_from s (p + 1) (val * 10 + ucast c - 48) else Inr val)"
  by pat_completeness auto
termination
  by (relation "measure (\<lambda>(s, p, val). length s - p)") (auto simp: arr_get_def split: if_splits)

definition str_to_uns :: "bytes \<Rightarrow> array_error + u32" where
  "str_to_uns s = rbind (arr_get s 0) (\<lambda>c. str_to_uns_from s 1 (ucast c - 48))"

text \<open>The digits in reverse order, and the reversal.\<close>

function put_digits :: "bytes \<Rightarrow> nat \<Rightarrow> u32 \<Rightarrow> array_error + bytes \<times> nat" where
  "put_digits buffer p val =
     (if val \<noteq> 0 then
        rbind (arr_set buffer (int p) (ucast (val mod 10) + 48)) (\<lambda>buffer.
          put_digits buffer (p + 1) (val div 10))
      else Inr (buffer, p))"
  by pat_completeness auto
termination
  by (relation "measure (\<lambda>(buffer, p, val). unat val)")
    (auto simp: unat_div word_neq_0_conv unat_gt_0 intro!: div_less_dividend)

function swap_ends :: "bytes \<Rightarrow> nat \<Rightarrow> nat \<Rightarrow> array_error + bytes" where
  "swap_ends a buffer p =
     (if p > buffer then
        rbind (arr_get a (int p)) (\<lambda>tmp.
        rbind (arr_get a (int buffer)) (\<lambda>c.
        rbind (arr_set a (int p) c) (\<lambda>a.
        rbind (arr_set a (int buffer) tmp) (\<lambda>a.
          swap_ends a (buffer + 1) (p - 1)))))
      else Inr a)"
  by pat_completeness auto
termination
  by (relation "measure (\<lambda>(a, buffer, p). p)") auto

definition uns_to_str :: "bytes \<Rightarrow> u32 \<Rightarrow> array_error + bytes \<times> int" where
  "uns_to_str buffer val =
     (if val = 0 then
        rbind (arr_set buffer 0 48) (\<lambda>buffer.
        rbind (arr_set buffer 1 0) (\<lambda>buffer. Inr (buffer, 1)))
      else
        rbind (put_digits buffer 0 val) (\<lambda>(buffer, p).
        rbind (arr_set buffer (int p) 0) (\<lambda>buffer.
          let p = p - 1; retval = int p in
          rbind (swap_ends buffer 0 p) (\<lambda>buffer. Inr (buffer, retval)))))"

declare print_string.simps [simp del] read_chars.simps [simp del] str_to_uns_from.simps [simp del]
  put_digits.simps [simp del] swap_ends.simps [simp del]

section \<open>What the text functions do\<close>

lemma arr_get_append: "i = int (length xs) \<Longrightarrow> arr_get (xs @ y # ys) i = Inr y"
  by simp

lemma arr_set_append: "i = int (length xs) \<Longrightarrow> arr_set (xs @ y # ys) i z = Inr (xs @ z # ys)"
  by simp

lemma print_string_from:
  "0 \<notin> set s \<Longrightarrow> print_string (pre @ s @ 0 # rest) (length pre) out = Inr (out @ s)"
proof (induction s arbitrary: pre out)
  case Nil
  then show ?case
    by (simp add: print_string.simps)
next
  case (Cons c s)
  then have "print_string ((pre @ [c]) @ s @ 0 # rest) (length (pre @ [c])) (out @ [c]) = Inr (out @ c # s)"
    by (subst Cons.IH) auto
  then show ?case
    using Cons.prems by (subst print_string.simps) (auto simp: arr_get_append outp_def)
qed

lemma print_string_eq: "0 \<notin> set s \<Longrightarrow> print_string (s @ 0 # rest) 0 out = Inr (out @ s)"
  using print_string_from [of s "[]"] by simp

lemma print_string_overrun: "0 \<notin> set s \<Longrightarrow> print_string s p out = Inl OutOfBounds"
proof (induction s p out rule: print_string.induct)
  case (1 s p out)
  then show ?case
    by (cases "p < length s") (auto simp: print_string.simps [of s p] arr_get_def dest: nth_mem)
qed

text \<open>The value of a decimal text in bytes, modulo the size of a word.\<close>

definition dec_value :: "bytes \<Rightarrow> int" where
  "dec_value s = foldl (\<lambda>v c. 10 * v + (uint c - 48)) 0 s"

lemma str_to_uns_from_eq:
  "0 \<notin> set s \<Longrightarrow> str_to_uns_from (pre @ s @ 0 # rest) (length pre) (word_of_int v) =
     Inr (word_of_int (foldl (\<lambda>v c. 10 * v + (uint c - 48)) v s))"
proof (induction s arbitrary: pre v)
  case Nil
  then show ?case
    by (simp add: str_to_uns_from.simps)
next
  case (Cons c s)
  have v: "word_of_int v * 10 + ucast c - 48 = (word_of_int (10 * v + (uint c - 48)) :: u32)"
    by (simp add: algebra_simps)
  have "str_to_uns_from ((pre @ [c]) @ s @ 0 # rest) (length (pre @ [c])) (word_of_int (10 * v + (uint c - 48))) =
      Inr (word_of_int (foldl (\<lambda>v c. 10 * v + (uint c - 48)) v (c # s)))"
    using Cons.prems by (subst Cons.IH) auto
  then show ?case
    using Cons.prems by (subst str_to_uns_from.simps) (simp add: arr_get_append v)
qed

lemma str_to_uns_eq:
  assumes "0 \<notin> set s" "s \<noteq> []"
  shows "str_to_uns (s @ 0 # rest) = Inr (word_of_int (dec_value s))"
proof -
  obtain c s' where s: "s = c # s'"
    using assms(2) by (cases s) auto
  have "ucast c - 48 = (word_of_int (uint c - 48) :: u32)"
    by simp
  then show ?thesis
    using str_to_uns_from_eq [of s' "[c]" rest "uint c - 48"] assms(1)
    by (simp add: str_to_uns_def s dec_value_def)
qed

text \<open>The decimal text of a number, in bytes.\<close>

definition text_bytes :: "string \<Rightarrow> bytes" where
  "text_bytes s = map (\<lambda>c. u8_of (of_char c)) s"

definition dec_bytes :: "nat \<Rightarrow> bytes" where
  "dec_bytes n = text_bytes (digits_of n)"

lemma dec_bytes_rec:
  "dec_bytes n = (if n < 10 then [] else dec_bytes (n div 10)) @ [u8_of (n mod 10 + 48)]"
proof -
  have "(of_char (char_of (k + 48) :: char) :: nat) = k + 48" if "k < 10" for k :: nat
    using that by (simp add: of_char_of)
  from this [of "n mod 10"] show ?thesis
    by (simp add: dec_bytes_def text_bytes_def digits_of.simps [of n])
qed

lemma uint_digit_byte: "uint (u8_of (n mod 10 + 48)) = int (n mod 10) + 48"
proof -
  have "n mod 10 < 10"
    by simp
  then show ?thesis
    by (subst uint_u8_of) linarith+
qed

lemma dec_bytes_range: "b \<in> set (dec_bytes n) \<Longrightarrow> 48 \<le> uint b \<and> uint b \<le> 57"
proof (induction n rule: digits_of.induct)
  case (1 n)
  have "n mod 10 < 10"
    by simp
  with 1 show ?case
    by (subst (asm) (2) dec_bytes_rec) (auto simp: uint_digit_byte uint_u8_of split: if_splits)
qed

lemma dec_bytes_no_nul: "0 \<notin> set (dec_bytes n)"
  using dec_bytes_range [of 0 n] by auto

lemma dec_bytes_not_Nil: "dec_bytes n \<noteq> []"
  by (subst dec_bytes_rec) simp

lemma dec_bytes_value: "dec_value (dec_bytes n) = int n"
proof (induction n rule: digits_of.induct)
  case (1 n)
  then show ?case
    by (subst dec_bytes_rec) (auto simp: dec_value_def uint_digit_byte zdiv_int zmod_int)
qed

lemma dec_bytes_length: "n < 10 ^ k \<Longrightarrow> 0 < k \<Longrightarrow> length (dec_bytes n) \<le> k"
proof (induction n arbitrary: k rule: digits_of.induct)
  case (1 n)
  show ?case
  proof (cases "n < 10")
    case True
    with 1 show ?thesis
      by (subst dec_bytes_rec) simp
  next
    case False
    with 1(2,3) obtain j where j: "k = Suc j" "0 < j"
      by (cases k; cases "k - 1") auto
    with 1(2) have "n div 10 < 10 ^ j"
      by (simp add: less_mult_imp_div_less mult.commute)
    with 1(1) [OF False this j(2)] show ?thesis
      using False j by (subst dec_bytes_rec) simp
  qed
qed

lemma word_length_10: "length (dec_bytes (unat (v :: u32))) \<le> 10"
  using unsigned_less [of v, where 'a = nat] by (intro dec_bytes_length) simp_all

section \<open>Printing a number\<close>

lemma digit_byte: "ucast (v mod 10) + 48 = (u8_of (unat v mod 10 + 48))" for v :: u32
proof -
  have "(ucast (v mod 10) :: u8) = word_of_nat (unat (v mod 10))"
    by simp
  then show ?thesis
    by (simp add: u8_of_def unat_mod)
qed

lemma put_digits_eq:
  "v \<noteq> 0 \<Longrightarrow> length (dec_bytes (unat v)) \<le> length gap \<Longrightarrow>
   put_digits (pre @ gap) (length pre) v =
     Inr (pre @ rev (dec_bytes (unat v)) @ drop (length (dec_bytes (unat v))) gap,
       length pre + length (dec_bytes (unat v)))"
proof (induction "unat v" arbitrary: v pre gap rule: less_induct)
  case less
  let ?b = "u8_of (unat v mod 10 + 48)"
  obtain g gap' where gap: "gap = g # gap'"
    using less.prems dec_bytes_not_Nil by (cases gap) auto
  have step: "put_digits (pre @ gap) (length pre) v = put_digits ((pre @ [?b]) @ gap') (length (pre @ [?b])) (v div 10)"
    using less.prems(1) by (subst put_digits.simps) (simp add: gap digit_byte arr_set_append)
  have u: "unat (v div 10) = unat v div 10"
    by (simp add: unat_div)
  show ?case
  proof (cases "unat v < 10")
    case True
    then have "v div 10 = 0"
      using u by (metis div_less unat_eq_zero)
    then show ?thesis
      using True unfolding step by (subst (1 2 3) dec_bytes_rec) (simp add: put_digits.simps gap)
  next
    case False
    then have nz: "v div 10 \<noteq> 0" and lt: "unat (v div 10) < unat v"
      using u by (auto simp: unat_eq_zero [symmetric])
    have d: "dec_bytes (unat v) = dec_bytes (unat (v div 10)) @ [?b]"
      using False by (subst dec_bytes_rec) (simp add: u)
    have "length (dec_bytes (unat (v div 10))) \<le> length gap'"
      using less.prems(2) by (simp add: d gap)
    from less.hyps [OF lt nz this, of "pre @ [?b]"] show ?thesis
      unfolding step by (simp add: d gap)
  qed
qed

lemma swap_ends_eq:
  "swap_ends (pre @ xs @ rest) (length pre) (length pre + length xs - 1) = Inr (pre @ rev xs @ rest)"
proof (induction "length xs" arbitrary: pre xs rest rule: less_induct)
  case less
  show ?case
  proof (cases "length xs < 2")
    case True
    then have "rev xs = xs"
      by (cases xs; cases "tl xs") auto
    with True show ?thesis
      by (subst swap_ends.simps) auto
  next
    case False
    then obtain x ys where "xs = x # ys" "ys \<noteq> []"
      by (cases xs) auto
    then obtain zs y where xs: "xs = x # zs @ [y]"
      by (metis rev_exhaust)
    have "swap_ends ((pre @ [y]) @ zs @ x # rest) (length (pre @ [y])) (length (pre @ [y]) + length zs - 1) =
        Inr ((pre @ [y]) @ rev zs @ x # rest)"
      by (rule less.hyps) (simp add: xs)
    moreover have "arr_get (pre @ x # zs @ y # rest) (int (Suc (length pre + length zs))) = Inr y"
      using arr_get_append [of _ "pre @ x # zs" y rest] by simp
    moreover have "arr_set (pre @ x # zs @ y # rest) (int (Suc (length pre + length zs))) x = Inr (pre @ x # zs @ x # rest)"
      using arr_set_append [of _ "pre @ x # zs" y rest x] by simp
    ultimately show ?thesis
      by (subst swap_ends.simps) (simp add: xs arr_get_append arr_set_append)
  qed
qed

lemma uns_to_str_result:
  assumes "11 \<le> length buffer"
  shows "uns_to_str buffer v =
    Inr (dec_bytes (unat v) @ 0 # drop (length (dec_bytes (unat v)) + 1) buffer,
      if v = 0 then 1 else int (length (dec_bytes (unat v))) - 1)"
proof (cases "v = 0")
  case True
  obtain b0 b1 bs where "buffer = b0 # b1 # bs"
    using assms by (cases buffer; cases "tl buffer") auto
  moreover have "dec_bytes 0 = [48]"
    by (subst dec_bytes_rec) (simp add: u8_of_def)
  ultimately show ?thesis
    using True by (simp add: uns_to_str_def)
next
  case False
  let ?ds = "dec_bytes (unat v)"
  let ?k = "length ?ds"
  have k: "?k \<le> 10" "?k \<noteq> 0"
    using word_length_10 [of v] dec_bytes_not_Nil by auto
  then obtain g rest where d: "drop ?k buffer = g # rest"
    using assms by (cases "drop ?k buffer") auto
  then have r: "rest = drop (?k + 1) buffer"
    by (metis add.commute drop_drop drop_Suc_Cons drop0 plus_1_eq_Suc)
  have p: "put_digits buffer 0 v = Inr (rev ?ds @ g # rest, ?k)"
    using put_digits_eq [of v buffer "[]"] False k assms d by simp
  have s: "swap_ends (rev ?ds @ 0 # rest) 0 (?k - 1) = Inr (?ds @ 0 # rest)"
    using swap_ends_eq [of "[]" "rev ?ds" "0 # rest"] by simp
  show ?thesis
    using False k s r by (simp add: uns_to_str_def p list_update_append of_nat_diff Let_def Suc_leI)
qed


text \<open>
  C26: Printing an unsigned number into a buffer of at least 11 bytes stays inside the buffer and
  leaves the decimal text of the number with its terminator there; reading the text back gives
  the number. The value returned is 1 for zero and one less than the number of digits otherwise.
\<close>

theorem uns_to_str_roundtrip:
  assumes "11 \<le> length buffer"
  shows "\<exists>rest. uns_to_str buffer v =
      Inr (dec_bytes (unat v) @ 0 # rest, if v = 0 then 1 else int (length (dec_bytes (unat v))) - 1) \<and>
    length (dec_bytes (unat v) @ 0 # rest) = length buffer \<and>
    str_to_uns (dec_bytes (unat v) @ 0 # rest) = Inr v \<and>
    print_string (dec_bytes (unat v) @ 0 # rest) 0 out = Inr (out @ dec_bytes (unat v))"
proof -
  have "length (dec_bytes (unat v)) + 1 \<le> length buffer"
    using assms word_length_10 [of v] by simp
  moreover have "str_to_uns (dec_bytes (unat v) @ 0 # rest) = Inr v" for rest
    by (simp add: str_to_uns_eq dec_bytes_no_nul dec_bytes_not_Nil dec_bytes_value)
  ultimately show ?thesis
    using uns_to_str_result [OF assms, of v]
    by (intro exI [of _ "drop (length (dec_bytes (unat v)) + 1) buffer"])
      (simp add: print_string_eq dec_bytes_no_nul)
qed

theorem uns_to_str_roundtrip_witness:
  "\<exists>rest. uns_to_str (replicate 20 0xAA) 4294967295 =
      Inr (dec_bytes 4294967295 @ 0 # rest, int (length (dec_bytes 4294967295)) - 1) \<and>
    str_to_uns (dec_bytes 4294967295 @ 0 # rest) = Inr 4294967295"
  using uns_to_str_roundtrip [of "replicate 20 0xAA" 4294967295 "[]"] by fastforce

section \<open>Reading a line\<close>

text \<open>The next \<open>k\<close> characters that \<open>inp\<close> delivers: after the end of the input every one is 0xFF.\<close>

definition delivered :: "nat \<Rightarrow> bytes \<Rightarrow> bytes" where
  "delivered k stdin = take k stdin @ replicate (k - length stdin) 0xFF"

definition line_end :: "u8 \<Rightarrow> bool" where
  "line_end c \<longleftrightarrow> c = 0x0A \<or> c = 0x0D"

lemma delivered_Suc: "delivered (Suc k) stdin = fst (inp stdin) # delivered k (snd (inp stdin))"
  by (cases stdin) (auto simp: delivered_def)

lemma inp_drop: "drop k (snd (inp stdin)) = drop (Suc k) stdin"
  by (cases stdin) simp_all

lemma read_chars_eq:
  assumes "t = takeWhile (\<lambda>c. \<not> line_end c) (take k (c # delivered k stdin))" "k < length gap"
  shows "read_chars (pre @ gap) (length pre) (int k + 1) c stdin =
    Inr (pre @ t @ 0 # drop (length t + 1) gap, drop (length t) stdin)"
  using assms
proof (induction k arbitrary: c stdin t pre gap)
  case 0
  then show ?case
    by (cases gap) (simp_all add: read_chars.simps)
next
  case (Suc k)
  obtain g gap' where g: "gap = g # gap'"
    using Suc.prems(2) by (cases gap) auto
  show ?case
  proof (cases "line_end c")
    case True
    then show ?thesis
      using Suc.prems g by (subst read_chars.simps) (auto simp: line_end_def)
  next
    case False
    let ?c = "fst (inp stdin)" and ?s = "snd (inp stdin)"
    let ?t = "takeWhile (\<lambda>c. \<not> line_end c) (take k (?c # delivered k ?s))"
    have t: "t = c # ?t"
      using Suc.prems(1) False by (simp add: delivered_Suc)
    have ih: "read_chars ((pre @ [c]) @ gap') (length (pre @ [c])) (int k + 1) ?c ?s =
        Inr ((pre @ [c]) @ ?t @ 0 # drop (length ?t + 1) gap', drop (length ?t) ?s)"
      using Suc.prems(2) g by (intro Suc.IH) simp_all
    have "read_chars (pre @ gap) (length pre) (int (Suc k) + 1) c stdin =
        read_chars ((pre @ [c]) @ gap') (length (pre @ [c])) (int k + 1) ?c ?s"
      using False g by (subst read_chars.simps) (auto simp: line_end_def arr_set_append case_prod_unfold Let_def add.commute)
    then show ?thesis
      unfolding ih t by (simp add: g inp_drop)
  qed
qed

lemma read_string_eq:
  assumes "k < length buffer"
  shows "read_string buffer (int k + 1) stdin =
    (let line = takeWhile (\<lambda>c. \<not> line_end c) (delivered k stdin) in
     Inr (line @ 0 # drop (length line + 1) buffer, drop (length line + 1) stdin))"
proof -
  have "take k (fst (inp stdin) # delivered k (snd (inp stdin))) = delivered k stdin"
    by (simp add: delivered_Suc [symmetric]) (simp add: delivered_def min_def)
  then show ?thesis
    using read_chars_eq [OF refl, of k buffer "[]" "fst (inp stdin)" "snd (inp stdin)"] assms
    by (simp add: read_string_def inp_drop Let_def case_prod_unfold)
qed

text \<open>
  Reading a line into a buffer of at least \<open>max_chars\<close> bytes stores the characters up to the
  end of the line, at most \<open>max_chars - 1\<close> of them, and a terminator, and writes nothing else; it
  always returns, also at the end of the input, where the missing characters are read as 0xFF. The
  character after the stored ones is taken from the input too, also when it is not the end of the line.
\<close>

theorem read_string_delivers_line:
  assumes "0 < max_chars" "max_chars \<le> int (length buffer)"
  shows "\<exists>line rest. read_string buffer max_chars stdin = Inr (line @ 0 # rest, drop (length line + 1) stdin) \<and>
    line = takeWhile (\<lambda>c. c \<noteq> 0x0A \<and> c \<noteq> 0x0D)
      (take (nat max_chars - 1) stdin @ replicate (nat max_chars - 1 - length stdin) 0xFF) \<and>
    rest = drop (length line + 1) buffer"
proof -
  have "max_chars = int (nat max_chars - 1) + 1" "nat max_chars - 1 < length buffer"
    using assms by linarith+
  then show ?thesis
    using read_string_eq [of "nat max_chars - 1" buffer stdin] by (simp add: delivered_def line_end_def Let_def)
qed

theorem read_string_delivers_line_witness:
  "\<exists>line rest. read_string (replicate 4 0) 4 [0x61, 0x62, 0x63, 0x64, 0x0A] = Inr (line @ 0 # rest, [0x0A]) \<and>
    line = [0x61, 0x62, 0x63]"
  using read_string_delivers_line [of 4 "replicate 4 0" "[0x61, 0x62, 0x63, 0x64, 0x0A]"] by simp

end
