(* ===== verification/Radix.thy ===== *)
theory Radix
  imports Bench_Lib
begin

text \<open>
  The radix tree program (\<open>Opgave5/predictor-benchmarks/radix.c\<close>): a set of numbers with
  repetitions as a tree that branches on the bits of the numbers, the operations that add a number
  and take out the smallest ones, and the program that applies them to a file of commands.

  A node with \<open>bit_pos = 1\<close> holds counters and any other node two subtrees, so the union of the
  source is a datatype with a constructor for each; the pointer \<open>parent\<close> to the place of a
  subtree is the subtree itself, which the operations return updated. Using the wrong member of
  the union and the search for a bit that is not there, which would never end, are errors.
\<close>

section \<open>The tree\<close>

datatype node =
  Null
| Leaf (number: u32) (count_zero: u32) (count_one: u32)
| Interior (bit_pos: u32) (number: u32) (zero: node) (one: node)

datatype radix_error = WrongMember | NoBit | NeverWritten

definition MAX_BITS :: u32 where "MAX_BITS = push_bit 30 1"

definition higher_bits :: "u32 \<Rightarrow> u32" where "higher_bits bp = 0 - bp - bp"
definition not_higher_bits :: "u32 \<Rightarrow> u32" where "not_higher_bits bp = NOT (higher_bits bp)"
definition bit_range :: "u32 \<Rightarrow> u32 \<Rightarrow> u32" where
  "bit_range high low = higher_bits low AND not_higher_bits high"

function seek_bit :: "u32 \<Rightarrow> u32 \<Rightarrow> radix_error + u32" where
  "seek_bit bp diff =
     (if bp = 0 then Inl NoBit else if bp AND diff = 0 then seek_bit (drop_bit 1 bp) diff else Inr bp)"
  by pat_completeness auto
termination
  by (relation "measure (\<lambda>(bp, diff). unat bp)")
    (auto simp: drop_bit_eq_div unat_div word_gt_0 unat_gt_0 intro!: div_less_dividend)

text \<open>The loop of \<open>add_number\<close> at the subtree \<open>t\<close>; every position it visits is a positive \<open>int\<close>.\<close>

definition node_pos :: "node \<Rightarrow> u32" where
  "node_pos t = (case t of Interior bp _ _ _ \<Rightarrow> bp | _ \<Rightarrow> 1)"

definition new_leaf :: "u32 \<Rightarrow> node" where
  "new_leaf num = Leaf num (if num AND 1 = 0 then 1 else 0) (if num AND 1 = 1 then 1 else 0)"

fun count_at_leaf :: "u32 \<Rightarrow> node \<Rightarrow> radix_error + node" where
  "count_at_leaf num (Leaf n c0 c1) = Inr (if num AND 1 \<noteq> 0 then Leaf n c0 (c1 + 1) else Leaf n (c0 + 1) c1)"
| "count_at_leaf num _ = Inl WrongMember"

function add_loop :: "u32 \<Rightarrow> u32 \<Rightarrow> node \<Rightarrow> radix_error + node" where
  "add_loop num bp t =
     (if 1 \<le>s bp then
        if t = Null then Inr (new_leaf num)
        else
          let diff = (if node_pos t <s bp then bit_range bp (node_pos t) AND (num XOR number t) else 0) in
          if diff \<noteq> 0 then
            rbind (seek_bit bp diff) (\<lambda>bp.
              if num AND bp = 0
              then rbind (add_loop num (drop_bit 1 bp) Null) (\<lambda>t'. Inr (Interior bp num t' t))
              else rbind (add_loop num (drop_bit 1 bp) Null) (\<lambda>t'. Inr (Interior bp num t t')))
          else
            let bp = (if node_pos t <s bp then node_pos t else bp) in
            if 1 <s bp then
              (case t of Interior b n z ne \<Rightarrow>
                 if bp AND num \<noteq> 0
                 then rbind (add_loop num (drop_bit 1 bp) ne) (\<lambda>ne'. Inr (Interior b n z ne'))
                 else rbind (add_loop num (drop_bit 1 bp) z) (\<lambda>z'. Inr (Interior b n z' ne))
               | _ \<Rightarrow> Inl WrongMember)
            else count_at_leaf num t
      else Inr t)"
  by pat_completeness auto
termination
  by (relation "measure (\<lambda>(num, bp, t). if t = Null then 0 else size t + 1)")
    (auto split: node.splits simp del: seek_bit.simps)

declare seek_bit.simps [simp del] add_loop.simps [simp del]

definition add_number :: "u32 \<Rightarrow> node \<Rightarrow> radix_error + node" where
  "add_number num tree = add_loop num MAX_BITS tree"

text \<open>
  Taking numbers: the room left in the buffer is \<open>end - buffer\<close>, the numbers written to it are the
  list returned.
\<close>

fun take_copies :: "u32 \<Rightarrow> u32 \<Rightarrow> nat \<Rightarrow> u32 list \<times> u32" where
  "take_copies v c 0 = ([], c)"
| "take_copies v c (Suc room) =
     (if c \<noteq> 0 then let (xs, c') = take_copies v (c - 1) room in (v # xs, c') else ([], c))"

primrec take_numbers_2 :: "node \<Rightarrow> nat \<Rightarrow> u32 list \<times> node" where
  "take_numbers_2 Null room = ([], Null)"
| "take_numbers_2 (Leaf n c0 c1) room =
     (if room = 0 then ([], Leaf n c0 c1)
      else
        let (xs, c0') = take_copies (n AND NOT 1) c0 room;
            (ys, c1') = take_copies (n OR 1) c1 (room - length xs) in
        (xs @ ys, if c0' = 0 \<and> c1' = 0 then Null else Leaf n c0' c1'))"
| "take_numbers_2 (Interior b n z ne) room =
     (if room = 0 then ([], Interior b n z ne)
      else
        let (xs, z') = take_numbers_2 z room;
            (ys, ne') = take_numbers_2 ne (room - length xs) in
        (xs @ ys, if z' = Null \<and> ne' = Null then Null else Interior b n z' ne'))"

definition take_numbers :: "nat \<Rightarrow> node \<Rightarrow> u32 list \<times> node" where
  "take_numbers max_nums tree = take_numbers_2 tree max_nums"

text \<open>The nodes that are released when the tree is, in the order of the calls of \<open>release\<close>.\<close>

primrec release_tree :: "node \<Rightarrow> node list" where
  "release_tree Null = []"
| "release_tree (Leaf n c0 c1) = [Leaf n c0 c1]"
| "release_tree (Interior b n z ne) = release_tree z @ release_tree ne @ [Interior b n z ne]"

text \<open>
  The loop that writes the numbers taken. How many numbers a call writes is a parameter, as a
  function of the number asked for; a call that writes nothing is repeated for ever.
\<close>

function write_all :: "(nat \<Rightarrow> nat) \<Rightarrow> u32 list \<Rightarrow> nat \<Rightarrow> u32 list \<Rightarrow> radix_error + u32 list" where
  "write_all wr out_numbers to_write out =
     (if to_write > 0 then
        let written = wr to_write in
        if written = 0 then Inl NeverWritten
        else write_all wr out_numbers (to_write - written) (out @ take written out_numbers)
      else Inr out)"
  by pat_completeness auto
termination
  by (relation "measure (\<lambda>(wr, out_numbers, to_write, out). to_write)") auto

text \<open>The commands of the file, on a store of numbers given by its operations.\<close>

function take_out :: "(nat \<Rightarrow> 't \<Rightarrow> u32 list \<times> 't) \<Rightarrow> (nat \<Rightarrow> nat) \<Rightarrow> int \<Rightarrow> 't \<Rightarrow> u32 list \<Rightarrow>
    radix_error + 't \<times> u32 list" where
  "take_out tk wr limit t out =
     (if limit > 0 then
        let take_max = (if limit < 1000 then limit else 1000);
            (out_numbers, t') = tk (nat take_max) t; taken = length out_numbers in
        rbind (write_all wr out_numbers taken out) (\<lambda>out.
          if taken = 0 then Inr (t', out) else take_out tk wr (limit - int taken) t' out)
      else Inr (t, out))"
  by pat_completeness auto
termination
  by (relation "measure (\<lambda>(tk, wr, limit, t, out). nat limit)") auto

declare write_all.simps [simp del] take_out.simps [simp del]

fun process_numbers :: "(u32 \<Rightarrow> 't \<Rightarrow> radix_error + 't) \<Rightarrow> (nat \<Rightarrow> 't \<Rightarrow> u32 list \<times> 't) \<Rightarrow> (nat \<Rightarrow> nat) \<Rightarrow>
    u32 list \<Rightarrow> 't \<Rightarrow> u32 list \<Rightarrow> radix_error + 't \<times> u32 list" where
  "process_numbers add tk wr [] t out = Inr (t, out)"
| "process_numbers add tk wr (n # ns) t out =
     (if n <s 0 then
        rbind (take_out tk wr (sint (- n)) t out) (\<lambda>(t, out). process_numbers add tk wr ns t out)
      else rbind (add n t) (\<lambda>t. process_numbers add tk wr ns t out))"

text \<open>The main loop: what each call of \<open>read_int_buffer\<close> delivers, until one delivers nothing.\<close>

fun read_batches :: "(nat \<Rightarrow> nat) \<Rightarrow> u32 list list \<Rightarrow> node \<Rightarrow> u32 list \<Rightarrow> radix_error + node \<times> u32 list" where
  "read_batches wr [] t out = Inr (t, out)"
| "read_batches wr (numbers # more) t out =
     (if numbers = [] then Inr (t, out)
      else rbind (process_numbers add_number take_numbers wr numbers t out) (\<lambda>(t, out). read_batches wr more t out))"

record radix_run =
  rr_text :: bytes
  rr_written :: "u32 list"
  rr_released :: "node list"

definition radix_main :: "int \<Rightarrow> int \<Rightarrow> int \<Rightarrow> (nat \<Rightarrow> nat) \<Rightarrow> u32 list list \<Rightarrow> radix_error + radix_run" where
  "radix_main argc in_file out_file wr batches =
     (if argc \<noteq> 3 then
        Inr \<lparr>rr_text = text_bytes (''Use: radix input-file output-file'' @ [newline]), rr_written = [], rr_released = []\<rparr>
      else
        let in_text = (if in_file < 0 then text_bytes (''Could not open input file'' @ [newline]) else []);
            out_text = (if out_file < 0 then text_bytes (''Could not open output file'' @ [newline]) else []) in
        rbind (read_batches wr batches Null []) (\<lambda>(tree, out).
          Inr \<lparr>rr_text = in_text @ out_text, rr_written = out, rr_released = release_tree tree\<rparr>))"

section \<open>Positions as bits\<close>

lemma pos_signed:
  assumes "i \<le> 30"
  shows "sint (2 ^ i :: u32) = 2 ^ i"
proof -
  have "i \<in> set [0..<31]"
    using assms by simp
  moreover have "\<forall>i \<in> set [0..<31]. sint (2 ^ i :: u32) = 2 ^ i"
    by (simp add: upt_rec)
  ultimately show ?thesis
    by blast
qed

lemma pos_less: "i \<le> 30 \<Longrightarrow> j \<le> 30 \<Longrightarrow> (2 ^ i :: u32) <s 2 ^ j \<longleftrightarrow> i < j"
  by (simp add: word_sless_alt pos_signed)

lemma pos_ge_1: "i \<le> 30 \<Longrightarrow> 1 \<le>s (2 ^ i :: u32)"
  by (simp add: word_sle_eq pos_signed)

lemma pos_gt_1: "i \<le> 30 \<Longrightarrow> 1 <s (2 ^ i :: u32) \<longleftrightarrow> 0 < i"
  using pos_less [of 0 i] by simp

lemma bit_pos_iff: "bit (2 ^ i :: u32) j \<longleftrightarrow> j = i \<and> i < 32"
  by (auto simp: bit_exp_iff)

lemma pos_half: "0 < i \<Longrightarrow> i < 32 \<Longrightarrow> drop_bit 1 (2 ^ i :: u32) = 2 ^ (i - 1)"
  by (auto simp: word32_eq_iff bit_drop_bit_eq bit_pos_iff)

lemma pos_nonzero: "i < 32 \<Longrightarrow> (2 ^ i :: u32) \<noteq> 0"
  by (metis bit_0_eq bit_pos_iff bot_apply bot_bool_def)

lemma and_pos: "i < 32 \<Longrightarrow> (2 ^ i :: u32) AND x = 0 \<longleftrightarrow> \<not> bit x i" "i < 32 \<Longrightarrow> x AND (2 ^ i :: u32) = 0 \<longleftrightarrow> \<not> bit x i"
  by (auto simp: word32_eq_iff bit_and_iff bit_pos_iff)

lemma bit_higher_bits: "i \<le> 30 \<Longrightarrow> bit (higher_bits (2 ^ i)) j \<longleftrightarrow> i < j \<and> j < 32"
proof -
  have "higher_bits (2 ^ i) = - (2 ^ (i + 1))"
    by (simp add: higher_bits_def)
  moreover have "bit (- (2 ^ (i + 1)) :: u32) j \<longleftrightarrow> j < 32 \<and> i + 1 \<le> j"
    by (simp only: bit_minus_exp_iff) (auto simp: possible_bit_word)
  ultimately show ?thesis
    by auto
qed

lemma bit_range_iff: "h \<le> 30 \<Longrightarrow> i \<le> 30 \<Longrightarrow> bit (bit_range (2 ^ h) (2 ^ i)) j \<longleftrightarrow> i < j \<and> j \<le> h"
  by (auto simp: bit_range_def not_higher_bits_def bit_and_iff bit_not_iff bit_higher_bits)

text \<open>The search for the most significant bit of a difference.\<close>

lemma seek_bit_finds:
  assumes "h \<le> 30" "\<exists>j \<le> h. bit d j"
  shows "\<exists>j \<le> h. seek_bit (2 ^ h) d = Inr (2 ^ j) \<and> bit d j \<and> (\<forall>l. j < l \<and> l \<le> h \<longrightarrow> \<not> bit d l)"
  using assms
proof (induction h)
  case 0
  then show ?case
    using and_pos(1) [of 0 d] by (auto simp: seek_bit.simps)
next
  case (Suc h)
  show ?case
  proof (cases "bit d (Suc h)")
    case True
    then show ?thesis
      using Suc.prems(1) and_pos(1) [of "Suc h" d] pos_nonzero [of "Suc h"] by (auto simp: seek_bit.simps simp del: power_Suc)
  next
    case False
    then have "\<exists>j \<le> h. bit d j"
      using Suc.prems(2) le_Suc_eq by auto
    then obtain j where "j \<le> h" "seek_bit (2 ^ h) d = Inr (2 ^ j)" "bit d j" "\<forall>l. j < l \<and> l \<le> h \<longrightarrow> \<not> bit d l"
      using Suc by auto
    moreover have "seek_bit (2 ^ Suc h) d = seek_bit (2 ^ h) d"
      using False Suc.prems(1) and_pos(1) [of "Suc h" d] pos_nonzero [of "Suc h"] pos_half [of "Suc h"]
      by (subst seek_bit.simps) (simp del: power_Suc)
    ultimately show ?thesis
      using False le_Suc_eq by auto
  qed
qed

section \<open>The invariant\<close>

text \<open>Two numbers agree above a position.\<close>

definition agree :: "nat \<Rightarrow> u32 \<Rightarrow> u32 \<Rightarrow> bool" where
  "agree h x y \<longleftrightarrow> (\<forall>j > h. bit x j = bit y j)"

text \<open>
  The subtree is reached at the position \<open>h\<close>, and the numbers in it agree with \<open>p\<close> above that
  position.
\<close>

primrec radix_ok :: "nat \<Rightarrow> u32 \<Rightarrow> node \<Rightarrow> bool" where
  "radix_ok h p Null \<longleftrightarrow> True"
| "radix_ok h p (Leaf n c0 c1) \<longleftrightarrow> agree h n p"
| "radix_ok h p (Interior b n z ne) \<longleftrightarrow> agree h n p \<and>
     (\<exists>i. 0 < i \<and> i \<le> h \<and> b = 2 ^ i \<and> radix_ok (i - 1) (unset_bit i n) z \<and> radix_ok (i - 1) (set_bit i n) ne)"

primrec contents :: "node \<Rightarrow> u32 multiset" where
  "contents Null = {#}"
| "contents (Leaf n c0 c1) = replicate_mset (unat c0) (n AND NOT 1) + replicate_mset (unat c1) (n OR 1)"
| "contents (Interior b n z ne) = contents z + contents ne"

lemma agree_refl [simp]: "agree h x x"
  by (simp add: agree_def)

lemma agree_sym: "agree h x y \<Longrightarrow> agree h y x"
  by (simp add: agree_def)

lemma agree_trans: "agree h x y \<Longrightarrow> agree h y z \<Longrightarrow> agree h x z"
  by (simp add: agree_def)

lemma agree_mono: "agree h x y \<Longrightarrow> h \<le> k \<Longrightarrow> agree k x y"
  by (simp add: agree_def)

lemma agree_branch:
  assumes "agree i x n" "0 < i" "i < 32"
  shows "agree (i - 1) x (if bit x i then set_bit i n else unset_bit i n)"
  using assms unfolding agree_def
  by (auto simp: bit_set_bit_iff bit_unset_bit_iff) (metis Suc_pred less_antisym not_less_eq)+

lemma and_1_bit: "x AND 1 = 0 \<longleftrightarrow> \<not> bit x 0" "x AND 1 = 1 \<longleftrightarrow> bit x 0" for x :: u32
  by (simp_all add: and_one_eq mod_2_eq_odd bit_0)

lemma minus_2: "- 2 = (NOT 1 :: u32)"
  by simp

lemma leaf_number:
  assumes "agree 0 x n"
  shows "\<not> bit x 0 \<Longrightarrow> n AND - 2 = x" "bit x 0 \<Longrightarrow> n OR 1 = x"
  using assms unfolding minus_2 by (auto simp: agree_def word32_eq_iff bit_and_iff bit_or_iff bit_not_iff bit_1_iff) (metis gr0I)+

section \<open>Adding a number\<close>

lemma add_loop_Null: "h \<le> 30 \<Longrightarrow> add_loop num (2 ^ h) Null = Inr (new_leaf num)"
  by (simp add: add_loop.simps pos_ge_1)

lemma new_leaf_ok: "agree h num p \<Longrightarrow> radix_ok h p (new_leaf num)" "contents (new_leaf num) = {#num#}"
  by (auto simp: new_leaf_def and_1_bit leaf_number)

lemma radix_node:
  assumes "radix_ok h p t" "t \<noteq> Null"
  obtains i where "i \<le> h" "node_pos t = 2 ^ i" "agree h (number t) p"
    "\<And>k q. i \<le> k \<Longrightarrow> agree k (number t) q \<Longrightarrow> radix_ok k q t"
proof (cases t)
  case (Leaf n c0 c1)
  then show ?thesis
    using assms that [of 0] by (simp add: node_pos_def)
next
  case (Interior b n z ne)
  then show ?thesis
    using assms that by (auto simp: node_pos_def)
qed (use assms in simp)

text \<open>A number that differs from those of the subtree gets a node above it.\<close>

lemma add_loop_inject:
  assumes ok: "radix_ok h p t" "t \<noteq> Null" "h \<le> 30" "agree h num p"
    and pos: "node_pos t = 2 ^ i" "i < h" and d: "bit_range (2 ^ h) (2 ^ i) AND (num XOR number t) \<noteq> 0"
  shows "\<exists>t'. add_loop num (2 ^ h) t = Inr t' \<and> radix_ok h p t' \<and> contents t' = add_mset num (contents t)"
proof -
  let ?d = "bit_range (2 ^ h) (2 ^ i) AND (num XOR number t)"
  have bd: "bit ?d j \<longleftrightarrow> i < j \<and> j \<le> h \<and> bit num j \<noteq> bit (number t) j" for j
    using ok(3) pos(2) by (auto simp: bit_and_iff bit_xor_iff bit_range_iff)
  have "\<exists>j \<le> h. bit ?d j"
    using d bd by (metis bit_0_eq bit_word_eqI bot_apply bot_bool_def)
  then obtain j where j: "j \<le> h" "seek_bit (2 ^ h) ?d = Inr (2 ^ j)" "bit ?d j"
      "\<forall>l. j < l \<and> l \<le> h \<longrightarrow> \<not> bit ?d l"
    using seek_bit_finds [OF ok(3)] by blast
  have ij: "i < j" "bit num j \<noteq> bit (number t) j"
    using j(3) bd by auto
  obtain k where k: "node_pos t = 2 ^ k" "k \<le> h" "agree h (number t) p"
      "\<And>m q. k \<le> m \<Longrightarrow> agree m (number t) q \<Longrightarrow> radix_ok m q t"
    using radix_node [OF ok(1,2)] by metis
  have ki: "k = i"
    using k(1,2) pos ok(3) bit_pos_iff [of i i] bit_pos_iff [of k i] by auto
  have num: "agree j (number t) num"
    unfolding agree_def
  proof (intro allI impI)
    fix l assume "j < l"
    then show "bit (number t) l = bit num l"
      using j(4) bd [of l] ij(1) k(3) ok(4) by (cases "l \<le> h") (auto simp: agree_def)
  qed
  have old: "radix_ok (j - 1) (if bit num j then unset_bit j num else set_bit j num) t"
    using agree_branch [OF num] ij j(1) ok(3) k(4) [of "j - 1"] ki by auto
  have new: "radix_ok (j - 1) (if bit num j then set_bit j num else unset_bit j num) (new_leaf num)"
    using agree_branch [of j num num] ij(1) j(1) ok(3) by (intro new_leaf_ok) auto
  let ?r = "if bit num j then Interior (2 ^ j) num t (new_leaf num) else Interior (2 ^ j) num (new_leaf num) t"
  have "add_loop num (2 ^ h) t = Inr ?r"
    using ok(2,3) pos ij(1) j(1,2) d
    by (subst add_loop.simps) (simp add: pos_ge_1 pos_less Let_def and_pos pos_half [unfolded One_nat_def] add_loop_Null)
  moreover have "radix_ok h p ?r"
    using old new ok(4) ij(1) j(1) by (cases "bit num j") (auto intro!: exI [of _ j])
  ultimately show ?thesis
    using new_leaf_ok(2) [of num] by auto
qed

lemma unat_plus_1: "unat c < 2 ^ 32 - 1 \<Longrightarrow> unat (c + 1) = unat c + 1" for c :: u32
  by (simp add: unat_word_ariths)

lemma add_loop_ok:
  assumes "radix_ok h p t" "h \<le> 30" "agree h num p" "size (contents t) < 2 ^ 32 - 1"
  shows "\<exists>t'. add_loop num (2 ^ h) t = Inr t' \<and> radix_ok h p t' \<and> contents t' = add_mset num (contents t)"
  using assms
proof (induction t arbitrary: h p)
  case Null
  then show ?case
    by (simp add: add_loop_Null new_leaf_ok)
next
  case (Leaf n c0 c1)
  let ?d = "bit_range (2 ^ h) 1 AND (num XOR n)"
  show ?case
  proof (cases "0 < h \<and> ?d \<noteq> 0")
    case True
    then show ?thesis
      using Leaf.prems by (intro add_loop_inject [of h p _ num 0]) (auto simp: node_pos_def)
  next
    case False
    have "agree 0 num n"
      unfolding agree_def
    proof (intro allI impI)
      fix j :: nat assume "0 < j"
      have "\<not> bit ?d j \<or> h = 0"
        using False by auto
      then show "bit num j = bit n j"
        using Leaf.prems(1-3) \<open>0 < j\<close> bit_range_iff [of h 0 j]
        by (cases "j \<le> h") (auto simp: agree_def bit_and_iff bit_xor_iff)
    qed
    note num = leaf_number [OF this]
    have e: "add_loop num (2 ^ h) (Leaf n c0 c1) = count_at_leaf num (Leaf n c0 c1)"
      using False Leaf.prems(2) pos_less [of 0 h] pos_gt_1 [of h]
      by (subst add_loop.simps) (auto simp: pos_ge_1 node_pos_def Let_def)
    have "unat c0 < 2 ^ 32 - 1" "unat c1 < 2 ^ 32 - 1"
      using Leaf.prems(4) by auto
    with num Leaf.prems(1) show ?thesis
      unfolding e by (auto simp: and_1_bit unat_plus_1)
  qed
next
  case (Interior b n z ne)
  obtain i where i: "0 < i" "i \<le> h" "b = 2 ^ i" "radix_ok (i - 1) (unset_bit i n) z" "radix_ok (i - 1) (set_bit i n) ne"
      "agree h n p"
    using Interior.prems(1) by auto
  let ?d = "bit_range (2 ^ h) (2 ^ i) AND (num XOR n)"
  show ?case
  proof (cases "i < h \<and> ?d \<noteq> 0")
    case True
    then show ?thesis
      using Interior.prems i by (intro add_loop_inject [of h p _ num i]) (auto simp: node_pos_def)
  next
    case False
    have num: "agree i num n"
      unfolding agree_def
    proof (intro allI impI)
      fix j :: nat assume "i < j"
      have "\<not> bit ?d j \<or> h = i"
        using False i by auto
      then show "bit num j = bit n j"
        using Interior.prems(2,3) i \<open>i < j\<close> bit_range_iff [of h i j]
        by (cases "j \<le> h") (auto simp: agree_def bit_and_iff bit_xor_iff)
    qed
    have i30: "i - 1 \<le> 30" "i \<le> 30"
      using i Interior.prems(2) by linarith+
    let ?t = "if bit num i then ne else z" and ?q = "if bit num i then set_bit i n else unset_bit i n"
    have "agree (i - 1) num ?q"
      using agree_branch [OF num] i Interior.prems(2) by simp
    then obtain t' where t': "add_loop num (2 ^ (i - 1)) ?t = Inr t'" "radix_ok (i - 1) ?q t'"
        "contents t' = add_mset num (contents ?t)"
      using Interior.IH [of "i - 1" ?q] i i30 Interior.prems(4) by (cases "bit num i") auto
    have "add_loop num (2 ^ h) (Interior b n z ne) =
        Inr (if bit num i then Interior b n z t' else Interior b n t' ne)"
      using False i i30 Interior.prems(2) t'(1) pos_less [of i h]
      by (subst add_loop.simps) (cases "i < h"; cases "bit num i";
        auto simp: pos_ge_1 pos_gt_1 node_pos_def Let_def and_pos pos_half [unfolded One_nat_def])
    with t' i show ?thesis
      by auto
  qed
qed

section \<open>Taking the smallest numbers\<close>

lemma leaf_agree: "agree 0 (n AND NOT 1) n" "agree 0 (n OR 1) n"
  unfolding agree_def by (simp_all only: bit_and_iff bit_or_iff bit_not_iff bit_1_iff) (auto dest: bit_imp_possible_bit)

lemma contents_agree: "radix_ok h p t \<Longrightarrow> x \<in># contents t \<Longrightarrow> agree h x p"
proof (induction t arbitrary: h p)
  case (Leaf n c0 c1)
  then have "x = n AND NOT 1 \<or> x = n OR 1"
    by (auto split: if_splits)
  then have "agree 0 x n"
    using leaf_agree by auto
  then show ?case
    using Leaf.prems(1) by (auto intro: agree_trans agree_mono)
next
  case (Interior b n z ne)
  then obtain i where i: "0 < i" "i \<le> h" "radix_ok (i - 1) (unset_bit i n) z" "radix_ok (i - 1) (set_bit i n) ne"
      "agree h n p"
    by auto
  then have "agree (i - 1) x (unset_bit i n) \<or> agree (i - 1) x (set_bit i n)"
    using Interior by auto
  then have "agree i x n"
    using i(1) by (auto simp: agree_def bit_set_bit_iff bit_unset_bit_iff)
  then show ?case
    using i by (auto intro: agree_trans agree_mono)
qed simp

lemma agree_less:
  assumes "agree i x y" "\<not> bit x i" "bit y i"
  shows "x < y"
proof -
  have i: "i < 32"
    using assms(3) by (auto dest: bit_imp_le_length)
  have "drop_bit (Suc i) (uint x) = drop_bit (Suc i) (uint y)"
  proof (rule bit_eqI)
    fix n
    have "bit x (Suc i + n) = bit y (Suc i + n)"
      using assms(1) by (simp add: agree_def)
    then show "bit (drop_bit (Suc i) (uint x)) n = bit (drop_bit (Suc i) (uint y)) n"
      by (simp only: bit_drop_bit_eq comp_def bit_uint_iff)
  qed
  moreover have "take_bit (Suc i) (uint x) < take_bit (Suc i) (uint y)"
  proof -
    have "take_bit i (uint x) < 2 ^ i + take_bit i (uint y)"
      using take_bit_int_less_exp [of i "uint x"] take_bit_nonnegative [of i "uint y"] by linarith
    then show ?thesis
      using assms(2,3) i by (simp add: take_bit_Suc_from_most bit_uint_iff)
  qed
  ultimately have "uint x < uint y"
    using bits_ident [of "Suc i" "uint x"] bits_ident [of "Suc i" "uint y"] by (metis add_strict_left_mono)
  then show ?thesis
    by (simp add: word_less_def)
qed

lemma subtrees_ordered:
  assumes "radix_ok h p (Interior b n z ne)" "h \<le> 30" "x \<in># contents z" "y \<in># contents ne"
  shows "x < y"
proof -
  obtain i where i: "0 < i" "i \<le> h" "radix_ok (i - 1) (unset_bit i n) z" "radix_ok (i - 1) (set_bit i n) ne"
    using assms(1) by auto
  have "agree (i - 1) x (unset_bit i n)" "agree (i - 1) y (set_bit i n)"
    using i assms(3,4) by (auto intro: contents_agree)
  then have "agree i x y" "\<not> bit x i" "bit y i"
    using i assms(2) by (auto simp: agree_def bit_set_bit_iff bit_unset_bit_iff)
  then show ?thesis
    by (rule agree_less)
qed

lemma take_copies_eq:
  "take_copies v c room = (xs, c') \<Longrightarrow>
   xs = replicate (min room (unat c)) v \<and> unat c' = unat c - min room (unat c)"
proof (induction v c room arbitrary: xs c' rule: take_copies.induct)
  case (2 v c room)
  show ?case
  proof (cases "c = 0")
    case False
    obtain ys d where r: "take_copies v (c - 1) room = (ys, d)"
      by fastforce
    have u: "unat c = Suc (unat (c - 1))"
      using False by (simp add: unat_minus_one unat_gt_0)
    show ?thesis
      using "2.IH" [OF False r] "2.prems" False r by (auto simp: u)
  qed (use "2.prems" in auto)
qed auto

text \<open>What it means that the list holds the smallest numbers of a multiset, in order.\<close>

definition smallest :: "nat \<Rightarrow> u32 multiset \<Rightarrow> u32 list \<Rightarrow> u32 multiset \<Rightarrow> bool" where
  "smallest m M xs N \<longleftrightarrow> M = mset xs + N \<and> sorted xs \<and> (\<forall>x \<in> set xs. \<forall>y \<in># N. x \<le> y) \<and>
     length xs = min m (size M)"

lemma smallestD:
  assumes "smallest m M xs N"
  shows "M = mset xs + N" "sorted xs" "x \<in> set xs \<Longrightarrow> y \<in># N \<Longrightarrow> x \<le> y" "length xs = min m (size M)"
    "size M = length xs + size N" "length xs < m \<Longrightarrow> N = {#}"
proof -
  show M: "M = mset xs + N" and l: "length xs = min m (size M)"
    using assms unfolding smallest_def by blast+
  from M show sz: "size M = length xs + size N"
    by simp
  then show "N = {#}" if "length xs < m"
    using l that by (simp add: min_def split: if_splits)
qed (use assms in \<open>unfold smallest_def, blast+\<close>)

lemma smallest_append:
  assumes A: "smallest m A xs A'" and B: "smallest (m - length xs) B ys B'"
    and less: "\<And>x y. x \<in># A \<Longrightarrow> y \<in># B \<Longrightarrow> x < y"
  shows "smallest m (A + B) (xs @ ys) (A' + B')"
proof -
  have mem: "x \<in># A" if "x \<in> set xs \<or> x \<in># A'" for x
    using that smallestD(1) [OF A] by simp
  have mem': "x \<in># B" if "x \<in> set ys \<or> x \<in># B'" for x
    using that smallestD(1) [OF B] by simp
  have full: "A' = {#}" if "y \<in> set ys" for y
  proof -
    have "0 < length ys"
      using that by (cases ys) auto
    then show ?thesis
      using smallestD(4) [OF B] smallestD(6) [OF A] by (simp add: min_def split: if_splits)
  qed
  have "sorted (xs @ ys)"
    using smallestD(2) [OF A] smallestD(2) [OF B] less mem mem' by (force simp: sorted_append)
  moreover have "x \<le> y" if "x \<in> set (xs @ ys)" "y \<in># A' + B'" for x y
    using that smallestD(3) [OF A, of x y] smallestD(3) [OF B, of x y] less [of x y] mem mem' full [of x] by force
  moreover have "length (xs @ ys) = min m (size (A + B))"
    using smallestD(4,5,6) [OF A] smallestD(4,5) [OF B] by (auto simp: min_def split: if_splits)
  moreover have "A + B = mset (xs @ ys) + (A' + B')"
    using smallestD(1) [OF A] smallestD(1) [OF B] by simp
  ultimately show ?thesis
    unfolding smallest_def by blast
qed

lemma smallest_copies:
  assumes "take_copies v c m = (xs, c')"
  shows "smallest m (replicate_mset (unat c) v) xs (replicate_mset (unat c') v)"
proof -
  have "xs = replicate (min m (unat c)) v" "unat c' = unat c - min m (unat c)"
    using take_copies_eq [OF assms] by auto
  then show ?thesis
    by (auto simp: smallest_def multiset_eq_iff)
qed

lemma take_numbers_2_ok:
  assumes "radix_ok h p t" "h \<le> 30" "take_numbers_2 t m = (xs, t')"
  shows "radix_ok h p t' \<and> smallest m (contents t) xs (contents t')"
  using assms
proof (induction t arbitrary: h p m xs t')
  case Null
  then show ?case
    by (simp add: smallest_def)
next
  case (Leaf n c0 c1)
  show ?case
  proof (cases "m = 0")
    case False
    obtain as d0 where a: "take_copies (n AND NOT 1) c0 m = (as, d0)"
      by fastforce
    obtain bs d1 where b: "take_copies (n OR 1) c1 (m - length as) = (bs, d1)"
      by fastforce
    have "agree 0 (n AND NOT 1) (n OR 1)"
      using leaf_agree agree_sym agree_trans by blast
    moreover have "\<not> bit (n AND NOT 1) 0" "bit (n OR 1) 0"
      by (simp_all only: bit_and_iff bit_or_iff bit_not_iff bit_1_iff) auto
    ultimately have "n AND NOT 1 < n OR 1"
      by (rule agree_less)
    then have s: "smallest m (contents (Leaf n c0 c1)) (as @ bs) (contents (Leaf n d0 d1))"
      unfolding contents.simps
      by (intro smallest_append [OF smallest_copies [OF a] smallest_copies [OF b]]) (auto split: if_splits)
    have "xs = as @ bs" "t' = (if d0 = 0 \<and> d1 = 0 then Null else Leaf n d0 d1)"
      using Leaf.prems(3) False a b by (auto simp: Let_def)
    with s Leaf.prems(1) show ?thesis
      by auto
  qed (use Leaf.prems in \<open>auto simp: smallest_def\<close>)
next
  case (Interior b n z ne)
  show ?case
  proof (cases "m = 0")
    case False
    obtain as z' where a: "take_numbers_2 z m = (as, z')"
      by fastforce
    obtain bs ne' where b: "take_numbers_2 ne (m - length as) = (bs, ne')"
      by fastforce
    obtain i where i: "0 < i" "i \<le> h" "b = 2 ^ i" "radix_ok (i - 1) (unset_bit i n) z" "radix_ok (i - 1) (set_bit i n) ne"
      using Interior.prems(1) by auto
    have r: "radix_ok (i - 1) (unset_bit i n) z'" "smallest m (contents z) as (contents z')"
      "radix_ok (i - 1) (set_bit i n) ne'" "smallest (m - length as) (contents ne) bs (contents ne')"
      using Interior.IH(1) [OF i(4) _ a] Interior.IH(2) [OF i(5) _ b] i(2) Interior.prems(2) by auto
    have s: "smallest m (contents (Interior b n z ne)) (as @ bs) (contents (Interior b n z' ne'))"
      using smallest_append [OF r(2,4)] subtrees_ordered [OF Interior.prems(1,2)] by simp
    have "xs = as @ bs" "t' = (if z' = Null \<and> ne' = Null then Null else Interior b n z' ne')"
      using Interior.prems(3) False a b by (auto simp: Let_def)
    with s r i Interior.prems(1) show ?thesis
      by auto
  qed (use Interior.prems in \<open>auto simp: smallest_def\<close>)
qed

lemma smallest_take:
  assumes "smallest m M xs N"
  shows "xs = take m (sorted_list_of_multiset M)" "N = M - mset xs"
proof -
  have "sorted (xs @ sorted_list_of_multiset N)" "mset (xs @ sorted_list_of_multiset N) = M"
    using smallestD(1-3) [OF assms] by (simp_all add: sorted_append)
  then have "sorted_list_of_multiset M = xs @ sorted_list_of_multiset N"
    by (metis sorted_list_of_multiset_mset sorted_sort_id)
  then show "xs = take m (sorted_list_of_multiset M)"
    using smallestD(4,6) [OF assms] by (cases "length xs < m") simp_all
  show "N = M - mset xs"
    using smallestD(1) [OF assms] by simp
qed


section \<open>A store that gives back its smallest numbers\<close>

text \<open>What the program relies on: the laws of the two operations, and what the commands then do.\<close>

locale min_store =
  fixes inv :: "'t \<Rightarrow> bool" and elems :: "'t \<Rightarrow> u32 multiset"
    and add :: "u32 \<Rightarrow> 't \<Rightarrow> radix_error + 't" and tk :: "nat \<Rightarrow> 't \<Rightarrow> u32 list \<times> 't"
  assumes add_law: "inv t \<Longrightarrow> 0 \<le> sint x \<Longrightarrow> size (elems t) < 2 ^ 32 - 1 \<Longrightarrow>
      \<exists>t'. add x t = Inr t' \<and> inv t' \<and> elems t' = add_mset x (elems t)"
    and take_law: "inv t \<Longrightarrow> tk m t = (xs, t') \<Longrightarrow>
      inv t' \<and> xs = take m (sorted_list_of_multiset (elems t)) \<and> elems t' = elems t - mset xs"

lemma sorted_list_rest:
  "sorted_list_of_multiset (M - mset (take k (sorted_list_of_multiset M))) = drop k (sorted_list_of_multiset M)"
  for M :: "'a :: linorder multiset"
proof -
  let ?S = "sorted_list_of_multiset M"
  have "mset (take k ?S) + mset (drop k ?S) = M"
    by (metis append_take_drop_id mset_append mset_sorted_list_of_multiset)
  then have "M - mset (take k ?S) = mset (drop k ?S)"
    by (metis add_diff_cancel_left')
  moreover have "sorted (drop k ?S)"
    by (simp add: sorted_wrt_drop)
  ultimately show ?thesis
    by (simp add: sorted_sort_id)
qed

lemma write_all_full:
  "write_all (\<lambda>k. k) xs (length xs) out = Inr (out @ xs)"
  by (cases "xs = []") (simp_all add: write_all.simps [of _ xs "length xs"] write_all.simps [of _ _ 0])

text \<open>The commands on the multiset of numbers itself.\<close>

fun command_answers :: "u32 list \<Rightarrow> u32 multiset \<Rightarrow> u32 list" where
  "command_answers [] M = []"
| "command_answers (n # ns) M =
     (if sint n < 0 then
        let xs = take (nat (- sint n)) (sorted_list_of_multiset M) in xs @ command_answers ns (M - mset xs)
      else command_answers ns (add_mset n M))"

lemma take_in_two: "k \<le> l \<Longrightarrow> take k S @ take (l - length (take k S)) (drop k S) = take l S"
  by (cases "k \<le> length S") (simp_all add: take_add [symmetric])

lemma sint_negate:
  fixes n :: u32
  assumes "sint n \<noteq> - (2 ^ 31)"
  shows "sint (- n) = - sint n"
proof -
  have "- (2 ^ 31) \<le> sint n" "sint n < 2 ^ 31"
    using sint_greater_eq [of n] sint_less [of n] by simp_all
  with assms have "signed_take_bit 31 (- sint n) = - sint n"
    by (intro signed_take_bit_int_eq_self) simp_all
  then show ?thesis
    by (simp add: sint_word_ariths)
qed

context min_store
begin

lemma take_out_smallest:
  assumes "inv t"
  shows "\<exists>t'. take_out tk (\<lambda>k. k) limit t out = Inr (t', out @ take (nat limit) (sorted_list_of_multiset (elems t))) \<and>
    inv t' \<and> elems t' = elems t - mset (take (nat limit) (sorted_list_of_multiset (elems t)))"
  using assms
proof (induction "nat limit" arbitrary: limit t out rule: less_induct)
  case less
  show ?case
  proof (cases "limit > 0")
    case False
    then show ?thesis
      using less.prems by (simp add: take_out.simps)
  next
    case True
    define k where "k = nat (if limit < 1000 then limit else 1000)"
    let ?S = "sorted_list_of_multiset (elems t)"
    obtain xs t1 where tk: "tk k t = (xs, t1)"
      by fastforce
    have t1: "inv t1" "xs = take k ?S" "elems t1 = elems t - mset xs"
      using take_law [OF less.prems tk] by auto
    have step: "take_out tk (\<lambda>k. k) limit t out =
        (if xs = [] then Inr (t1, out) else take_out tk (\<lambda>k. k) (limit - int (length xs)) t1 (out @ xs))"
      using True tk by (subst take_out.simps) (simp add: write_all_full k_def [symmetric] Let_def)
    show ?thesis
    proof (cases "xs = []")
      case empty: True
      then have "?S = []"
        using t1(2) True by (auto simp: k_def split: if_splits)
      then show ?thesis
        using empty t1 step by simp
    next
      case False
      then have "nat (limit - int (length xs)) < nat limit"
        using True by simp
      note ih = less.hyps [OF this t1(1), of "out @ xs"]
      have "nat (limit - int (length xs)) = nat limit - length xs"
        by simp
      moreover have "sorted_list_of_multiset (elems t1) = drop k ?S"
        using sorted_list_rest [of "elems t" k] t1 by simp
      ultimately obtain t' where
        t': "take_out tk (\<lambda>k. k) limit t out = Inr (t', out @ xs @ take (nat limit - length xs) (drop k ?S))" "inv t'"
          "elems t' = elems t1 - mset (take (nat limit - length xs) (drop k ?S))"
        using ih False unfolding step by auto
      have "xs @ take (nat limit - length xs) (drop k ?S) = take (nat limit) ?S"
        unfolding t1(2) using True by (intro take_in_two) (auto simp: k_def)
      then have "take_out tk (\<lambda>k. k) limit t out = Inr (t', out @ take (nat limit) ?S)"
          "elems t' = elems t - mset (take (nat limit) ?S)"
        using t' by (simp_all only: t1(3) diff_diff_add mset_append [symmetric])
      with t'(2) show ?thesis
        by blast
    qed
  qed
qed

lemma process_answers:
  assumes "inv t" "size (elems t) + length ns < 2 ^ 32" "- (2 ^ 31) \<notin> sint ` set ns"
  shows "\<exists>t'. process_numbers add tk (\<lambda>k. k) ns t out = Inr (t', out @ command_answers ns (elems t)) \<and> inv t'"
  using assms
proof (induction ns arbitrary: t out)
  case (Cons n ns)
  show ?case
  proof (cases "sint n < 0")
    case True
    let ?xs = "take (nat (- sint n)) (sorted_list_of_multiset (elems t))"
    have "sint (- n) = - sint n"
      using Cons.prems(3) by (intro sint_negate) auto
    then obtain t1 where t1: "take_out tk (\<lambda>k. k) (sint (- n)) t out = Inr (t1, out @ ?xs)" "inv t1"
        "elems t1 = elems t - mset ?xs"
      using take_out_smallest [OF Cons.prems(1), of "- sint n" out] by auto
    have "size (elems t1) \<le> size (elems t)"
      unfolding t1(3) by (rule size_mset_mono) simp
    then obtain t' where "process_numbers add tk (\<lambda>k. k) ns t1 (out @ ?xs) = Inr (t', (out @ ?xs) @ command_answers ns (elems t1))" "inv t'"
      using Cons.IH [OF t1(2), of "out @ ?xs"] Cons.prems(2,3) by auto
    then show ?thesis
      using True t1 by (simp add: word_sless_alt Let_def)
  next
    case False
    obtain t1 where t1: "add n t = Inr t1" "inv t1" "elems t1 = add_mset n (elems t)"
      using add_law [OF Cons.prems(1), of n] False Cons.prems(2) by auto
    then obtain t' where "process_numbers add tk (\<lambda>k. k) ns t1 out = Inr (t', out @ command_answers ns (elems t1))" "inv t'"
      using Cons.IH [OF t1(2), of out] Cons.prems(2,3) by auto
    then show ?thesis
      using False t1 by (simp add: word_sless_alt)
  qed
qed simp

end

text \<open>The radix tree is such a store.\<close>

lemma nonneg_agree: "agree 30 x 0 \<longleftrightarrow> 0 \<le> sint x" for x :: u32
proof -
  have "j = 31" if "30 < j" "bit x j" for j
    using that bit_imp_le_length [OF that(2)] by simp
  then have "agree 30 x 0 \<longleftrightarrow> \<not> bit x 31"
    by (auto simp: agree_def)
  then show ?thesis
    by (simp add: not_less [symmetric] bit_last_iff [symmetric])
qed

interpretation tree: min_store "radix_ok 30 0" contents add_number take_numbers
proof
  fix t :: node and x :: u32 assume t: "radix_ok 30 0 t" "0 \<le> sint x" "size (contents t) < 2 ^ 32 - 1"
  have "MAX_BITS = 2 ^ 30"
    by (simp add: MAX_BITS_def)
  then show "\<exists>t'. add_number x t = Inr t' \<and> radix_ok 30 0 t' \<and> contents t' = add_mset x (contents t)"
    using add_loop_ok [OF t(1) _ _ t(3), of x] t(2) by (simp add: add_number_def nonneg_agree)
next
  fix t m xs t' assume "radix_ok 30 0 t" "take_numbers m t = (xs, t')"
  then have "radix_ok 30 0 t'" "smallest m (contents t) xs (contents t')"
    using take_numbers_2_ok [of 30 0 t m xs t'] by (auto simp: take_numbers_def)
  then show "radix_ok 30 0 t' \<and> xs = take m (sorted_list_of_multiset (contents t)) \<and> contents t' = contents t - mset xs"
    using smallest_take by blast
qed

text \<open>
  C20: The radix tree is the multiset of the numbers in it. Adding a number that is not negative
  succeeds and adds it to the multiset, and taking numbers returns the smallest ones in increasing
  order, as many as asked for or all, and removes them; both keep the invariant of the tree. The
  operations never use the wrong member of a node and never search for a bit for ever.
\<close>

theorem radix_tree_refines_multiset:
  assumes "radix_ok 30 0 t" "size (contents t) < 2 ^ 32 - 1"
  shows "(0 \<le> sint x \<longrightarrow> (\<exists>t'. add_number x t = Inr t' \<and> radix_ok 30 0 t' \<and> contents t' = add_mset x (contents t))) \<and>
    (\<exists>t'. take_numbers m t = (take m (sorted_list_of_multiset (contents t)), t') \<and> radix_ok 30 0 t' \<and>
      contents t' = contents t - mset (take m (sorted_list_of_multiset (contents t))))"
proof
  show "0 \<le> sint x \<longrightarrow> (\<exists>t'. add_number x t = Inr t' \<and> radix_ok 30 0 t' \<and> contents t' = add_mset x (contents t))"
    using tree.add_law [OF assms(1) _ assms(2)] by blast
  obtain xs t' where "take_numbers m t = (xs, t')"
    by fastforce
  then show "\<exists>t'. take_numbers m t = (take m (sorted_list_of_multiset (contents t)), t') \<and> radix_ok 30 0 t' \<and>
      contents t' = contents t - mset (take m (sorted_list_of_multiset (contents t)))"
    using tree.take_law [OF assms(1)] by blast
qed

theorem radix_tree_refines_multiset_witness:
  "\<exists>t. add_number 5 Null = Inr t \<and> contents t = {#5#}"
  using radix_tree_refines_multiset [of Null 5 0] by auto

section \<open>The program\<close>

lemma process_append:
  "process_numbers add tk wr (ns @ ms) t out =
     rbind (process_numbers add tk wr ns t out) (\<lambda>(t, out). process_numbers add tk wr ms t out)"
  by (induction ns arbitrary: t out) (auto simp: rbind_assoc case_prod_unfold)

lemma read_batches_process:
  "read_batches wr batches t out =
     process_numbers add_number take_numbers wr (concat (takeWhile (\<lambda>b. b \<noteq> []) batches)) t out"
  by (induction batches arbitrary: t out) (auto simp: process_append case_prod_unfold)

text \<open>
  C23: On a file of fewer than \<open>2 ^ 32\<close> numbers, of which none is the smallest \<open>int\<close>, and when a
  write takes all the numbers it is given, the program ends and writes for every negative number
  \<open>- N\<close> of the file the \<open>N\<close> smallest of the numbers read and not yet written, in increasing order
  (all of them where there are fewer). It reads up to the first read that delivers nothing, and
  goes on also when a file could not be opened.
\<close>

theorem radix_main_answers:
  assumes "ns = concat (takeWhile (\<lambda>b. b \<noteq> []) batches)" "length ns < 2 ^ 32" "- (2 ^ 31) \<notin> sint ` set ns"
  shows "\<exists>tree. radix_main 3 in_file out_file (\<lambda>k. k) batches =
    Inr \<lparr>rr_text =
           (if in_file < 0 then text_bytes (''Could not open input file'' @ [newline]) else []) @
           (if out_file < 0 then text_bytes (''Could not open output file'' @ [newline]) else []),
         rr_written = command_answers ns {#}, rr_released = release_tree tree\<rparr> \<and>
    radix_ok 30 0 tree"
proof -
  obtain t' where "process_numbers add_number take_numbers (\<lambda>k. k) ns Null [] = Inr (t', command_answers ns {#})" "radix_ok 30 0 t'"
    using tree.process_answers [of Null ns "[]"] assms(2,3) by auto
  then show ?thesis
    by (auto simp: radix_main_def read_batches_process assms(1) [symmetric])
qed

theorem radix_main_answers_witness:
  "(\<exists>tree. radix_main 3 4 5 (\<lambda>k. k) [[9, 2, 7], [- 2, 2, - 5], [], [1]] =
    Inr \<lparr>rr_text = [], rr_written = command_answers [9, 2, 7, - 2, 2, - 5] {#}, rr_released = release_tree tree\<rparr>) \<and>
   command_answers [9, 2, 7, - 2, 2, - 5] {#} = [2, 7, 2, 9]"
proof
  show "\<exists>tree. radix_main 3 4 5 (\<lambda>k. k) [[9, 2, 7], [- 2, 2, - 5], [], [1]] =
      Inr \<lparr>rr_text = [], rr_written = command_answers [9, 2, 7, - 2, 2, - 5] {#}, rr_released = release_tree tree\<rparr>"
    using radix_main_answers [of "[9, 2, 7, - 2, 2, - 5]" "[[9, 2, 7], [- 2, 2, - 5], [], [1]]" 4 5] by auto
  show "command_answers [9, 2, 7, - 2, 2, - 5] {#} = [2, 7, 2, 9]"
    by code_simp
qed

text \<open>
  A write that takes only some of the numbers is repeated from the start of the buffer, so the
  first numbers are written again and the last ones never.
\<close>

lemma partial_write_repeats:
  "write_all (\<lambda>k. if k = 4 then 2 else k) [1, 2, 3, 4] 4 [] = Inr [1, 2, 1, 2]"
  by code_simp

end
