(* ===== verification/Memory.thy ===== *)
theory Memory
  imports Prelude
begin

text \<open>
  The simulated main memory, \<open>Opgave5/src/memory.c\<close>: a table of 65536 page pointers, each
  page 16384 words of 32 bits, allocated and zeroed on first use. Words and halfwords must be
  aligned; a violation prints a message and exits.

  \<open>flat\<close> reads the memory as what it stands for, one byte per 32-bit address in little-endian
  order, and every operation is shown to be the corresponding operation on that flat memory.
\<close>

section \<open>State\<close>

text \<open>
  A page is the array \<open>calloc(65536, 1)\<close> read as \<open>int\<close>s, indexed from 0 to 16383. The table
  maps a page number to \<open>None\<close> (the null pointer) or to the page. Allocation is taken to
  succeed.
\<close>

type_synonym page = "nat \<Rightarrow> i32"

record memory =
  pages :: "nat \<Rightarrow> page option"

datatype mem_error =
    UnalignedWordWrite i32
  | UnalignedHalfwordWrite i32
  | UnalignedWordRead i32
  | UnalignedHalfwordRead i32

definition zero_page :: page where
  "zero_page = (\<lambda>_. 0)"

definition memory_create :: memory where
  "memory_create = \<lparr>pages = (\<lambda>_. None)\<rparr>"

text \<open>\<open>page[i]\<close> and \<open>page[i] = v\<close> for the page with a given number.\<close>

definition page_read :: "memory \<Rightarrow> nat \<Rightarrow> nat \<Rightarrow> i32" where
  "page_read mem p i = (case pages mem p of None \<Rightarrow> 0 | Some pg \<Rightarrow> pg i)"

definition page_write :: "memory \<Rightarrow> nat \<Rightarrow> nat \<Rightarrow> i32 \<Rightarrow> memory" where
  "page_write mem p i v =
     mem\<lparr>pages := (pages mem)(p := Some ((case pages mem p of None \<Rightarrow> zero_page | Some pg \<Rightarrow> pg)(i := v)))\<rparr>"

definition page_number :: "i32 \<Rightarrow> nat" where
  "page_number addr = unat (signed_drop_bit 16 addr AND 0xffff)"

definition word_index :: "i32 \<Rightarrow> nat" where
  "word_index addr = unat (signed_drop_bit 2 addr AND 0x3fff)"

section \<open>Operations\<close>

text \<open>\<open>get_page\<close> allocates the page of an address if it is missing and returns it.\<close>

definition get_page :: "memory \<Rightarrow> i32 \<Rightarrow> memory \<times> nat" where
  "get_page mem addr =
     (let p = page_number addr in
      case pages mem p of
        None \<Rightarrow> (mem\<lparr>pages := (pages mem)(p := Some zero_page)\<rparr>, p)
      | Some _ \<Rightarrow> (mem, p))"

definition memory_wr_w :: "memory \<Rightarrow> i32 \<Rightarrow> i32 \<Rightarrow> mem_error + memory" where
  "memory_wr_w mem addr data =
     (if addr AND 3 \<noteq> 0 then Inl (UnalignedWordWrite addr)
      else let (mem, page) = get_page mem addr
           in Inr (page_write mem page (word_index addr) data))"

definition memory_wr_h :: "memory \<Rightarrow> i32 \<Rightarrow> i32 \<Rightarrow> mem_error + memory" where
  "memory_wr_h mem addr data =
     (if addr AND 1 \<noteq> 0 then Inl (UnalignedHalfwordWrite addr)
      else let (mem, page) = get_page mem addr;
               index = word_index addr;
               old = page_read mem page index
           in Inr (page_write mem page index
                (if addr AND 2 = 0 then (old AND 0xffff0000) OR (data AND 0x0000ffff)
                 else (old AND 0x0000ffff) OR push_bit 16 data)))"

definition memory_wr_b :: "memory \<Rightarrow> i32 \<Rightarrow> i32 \<Rightarrow> memory" where
  "memory_wr_b mem addr data =
     (let (mem, page) = get_page mem addr;
          index = word_index addr;
          old = page_read mem page index
      in page_write mem page index
           (if addr AND 3 = 0 then (old AND 0xffffff00) OR (data AND 0xff)
            else if addr AND 3 = 1 then (old AND 0xffff00ff) OR push_bit 8 (data AND 0xff)
            else if addr AND 3 = 2 then (old AND 0xff00ffff) OR push_bit 16 (data AND 0xff)
            else (old AND 0x00ffffff) OR push_bit 24 (data AND 0xff)))"

definition memory_rd_w :: "memory \<Rightarrow> i32 \<Rightarrow> mem_error + memory \<times> i32" where
  "memory_rd_w mem addr =
     (let (mem, page) = get_page mem addr in
      if addr AND 3 \<noteq> 0 then Inl (UnalignedWordRead addr)
      else Inr (mem, page_read mem page (word_index addr)))"

definition memory_rd_h :: "memory \<Rightarrow> i32 \<Rightarrow> mem_error + memory \<times> i32" where
  "memory_rd_h mem addr =
     (let (mem, page) = get_page mem addr;
          index = word_index addr in
      if addr AND 1 \<noteq> 0 then Inl (UnalignedHalfwordRead addr)
      else Inr (mem,
        if addr AND 2 = 0 then page_read mem page index AND 0xffff
        else signed_drop_bit 16 (page_read mem page index) AND 0xffff))"

definition memory_rd_b :: "memory \<Rightarrow> i32 \<Rightarrow> memory \<times> i32" where
  "memory_rd_b mem addr =
     (let (mem, page) = get_page mem addr;
          index = word_index addr;
          w = page_read mem page index in
      (mem,
        if addr AND 3 = 0 then w AND 0xff
        else if addr AND 3 = 1 then signed_drop_bit 8 w AND 0xff
        else if addr AND 3 = 2 then signed_drop_bit 16 w AND 0xff
        else signed_drop_bit 24 w AND 0xff))"

text \<open>
  \<open>memory_delete\<close> frees every page that is present and then the table: the model lists the
  page numbers passed to \<open>free\<close>.
\<close>

definition memory_delete :: "memory \<Rightarrow> nat list" where
  "memory_delete mem = filter (\<lambda>j. pages mem j \<noteq> None) [0..<0x10000]"

section \<open>The flat memory\<close>

definition cell :: "memory \<Rightarrow> i32 \<Rightarrow> i32" where
  "cell mem addr = page_read mem (page_number addr) (word_index addr)"

definition flat :: "memory \<Rightarrow> i32 \<Rightarrow> u8" where
  "flat mem addr = ucast (drop_bit (8 * unat (addr AND 3)) (cell mem addr))"

definition join16 :: "u8 \<Rightarrow> u8 \<Rightarrow> i32" where
  "join16 b0 b1 = ucast b0 OR push_bit 8 (ucast b1)"

definition byte_of :: "nat \<Rightarrow> i32 \<Rightarrow> u8" where
  "byte_of k w = ucast (drop_bit (8 * k) w)"

section \<open>Cells\<close>

lemma page_number_alt: "page_number a = unat (drop_bit 16 a)"
proof -
  have "signed_drop_bit 16 a AND 0xffff = drop_bit 16 a"
    by (simp add: word32_eq_iff word_bits_less bit_simps)
  then show ?thesis by (simp add: page_number_def)
qed

lemma word_index_alt: "word_index a = unat (drop_bit 2 a AND 0x3fff)"
proof -
  have "signed_drop_bit 2 a AND 0x3fff = drop_bit 2 a AND 0x3fff"
    by (simp add: word32_eq_iff word_bits_less bit_simps)
  then show ?thesis by (simp add: word_index_def)
qed

lemma unat_and_numeral_le: "unat (a AND numeral k :: 'a::len word) \<le> unat (numeral k :: 'a word)"
  by (rule word_and_le1 [THEN word_le_nat_alt [THEN iffD1]])

lemma page_number_less: "page_number a < 0x10000"
proof -
  have "unat (signed_drop_bit 16 a AND 0xffff) \<le> unat (0xffff :: i32)"
    by (rule unat_and_numeral_le)
  then show ?thesis by (simp add: page_number_def)
qed

lemma same_cell:
  "page_number a = page_number b \<and> word_index a = word_index b \<longleftrightarrow> drop_bit 2 a = drop_bit 2 b"
  (is "?l = ?r")
proof
  assume ?l
  then have "drop_bit 16 a = drop_bit 16 b" "drop_bit 2 a AND 0x3fff = drop_bit 2 b AND 0x3fff"
    by (auto simp: page_number_alt word_index_alt intro: unsigned_word_eqI)
  then show ?r
    by (simp add: word32_eq_iff word_bits_less bit_simps)
next
  assume ?r
  moreover have "drop_bit 16 c = drop_bit 14 (drop_bit 2 c)" for c :: i32 by simp
  ultimately show ?l by (simp add: page_number_alt word_index_alt del: drop_bit_drop_bit)
qed

lemma pages_get_page:
  "snd (get_page mem a) = page_number a"
  "page_read (fst (get_page mem a)) p i = page_read mem p i"
  "page_read (page_write (fst (get_page mem a)) p i v) q j =
     (if p = q \<and> i = j then v else page_read mem q j)"
  by (auto simp: get_page_def page_read_def page_write_def zero_page_def Let_def split: option.splits)

lemma cell_get_page [mem_simps]: "cell (fst (get_page mem a)) b = cell mem b"
  by (simp add: cell_def pages_get_page)

lemma cell_write [mem_simps]:
  "cell (page_write (fst (get_page mem a)) (page_number a) (word_index a) v) b =
     (if drop_bit 2 a = drop_bit 2 b then v else cell mem b)"
  using same_cell [of a b] by (auto simp: cell_def pages_get_page)

lemma page_read_cell: "page_read mem (page_number a) (word_index a) = cell mem a"
  by (simp add: cell_def)

lemmas mem_op_defs = memory_wr_w_def memory_wr_h_def memory_wr_b_def memory_rd_w_def
  memory_rd_h_def memory_rd_b_def Let_def split_def pages_get_page(1) page_read_cell

lemma flat_get_page [mem_simps]: "flat (fst (get_page mem a)) b = flat mem b"
  by (simp add: flat_def mem_simps)

lemma flat_wr_b [mem_simps]: "flat (memory_wr_b mem a d) = (flat mem)(a := ucast d)"
proof
  fix b
  show "flat (memory_wr_b mem a d) b = ((flat mem)(a := ucast d)) b"
  proof (cases "drop_bit 2 a = drop_bit 2 b")
    case False
    then have "a \<noteq> b" by auto
    with False show ?thesis
      by (simp add: mem_op_defs flat_def mem_simps)
  next
    case True
    then have c: "cell mem a = cell mem b" and e: "b = a \<longleftrightarrow> b AND 3 = a AND 3"
      using same_cell [of a b] word_eq_split_2 [of a b] by (auto simp: cell_def)
    show ?thesis
      by (cases a rule: and_3_cases; cases b rule: and_3_cases)
        (simp_all add: mem_op_defs flat_def mem_simps True c e word8_eq_iff all_less_8 bit_simps)
  qed
qed

section \<open>Operations on the flat memory\<close>

lemma aligned_offset:
  fixes a :: i32
  assumes "a AND 3 = 0"
  shows "drop_bit 2 (a + 1) = drop_bit 2 a" "drop_bit 2 (a + 2) = drop_bit 2 a"
    "drop_bit 2 (a + 3) = drop_bit 2 a"
    "(a + 1) AND 3 = 1" "(a + 2) AND 3 = 2" "(a + 3) AND 3 = 3"
proof -
  have bits: "\<not> bit a 0" "\<not> bit a 1"
    using assms by (simp_all add: word32_eq_iff word_bits_less bit_simps)
  have or: "a + 1 = a OR 1" "a + 2 = a OR 2" "a + 3 = a OR 3"
    by (rule disjunctive_add_eq_or, use bits in \<open>simp add: word32_eq_iff word_bits_less bit_simps\<close>)+
  show "drop_bit 2 (a + 1) = drop_bit 2 a" "drop_bit 2 (a + 2) = drop_bit 2 a"
    "drop_bit 2 (a + 3) = drop_bit 2 a"
    "(a + 1) AND 3 = 1" "(a + 2) AND 3 = 2" "(a + 3) AND 3 = 3"
    unfolding or using bits by (simp_all add: word32_eq_iff word_bits_less bit_simps)
qed

lemma even_offset:
  fixes a :: i32
  assumes "a AND 1 = 0"
  shows "drop_bit 2 (a + 1) = drop_bit 2 a" "(a + 1) AND 3 = (a AND 3) OR 1"
    "a AND 3 = (if a AND 2 = 0 then 0 else 2)"
proof -
  have bits: "\<not> bit a 0"
    using assms by (simp add: word32_eq_iff word_bits_less bit_simps)
  have or: "a + 1 = a OR 1"
    by (rule disjunctive_add_eq_or, use bits in \<open>simp add: word32_eq_iff word_bits_less bit_simps\<close>)
  show "drop_bit 2 (a + 1) = drop_bit 2 a" "(a + 1) AND 3 = (a AND 3) OR 1"
    "a AND 3 = (if a AND 2 = 0 then 0 else 2)"
    unfolding or using bits by (simp_all add: word32_eq_iff word_bits_less bit_simps)
qed

lemma flat_cell:
  "drop_bit 2 b = drop_bit 2 a \<Longrightarrow> flat mem b = byte_of (unat (b AND 3)) (cell mem a)"
  using same_cell [of b a] by (simp add: flat_def byte_of_def cell_def)

lemma flat_wr_w:
  assumes "memory_wr_w mem a d = Inr mem'"
  shows "flat mem' = (flat mem)(a := byte_of 0 d, a + 1 := byte_of 1 d,
           a + 2 := byte_of 2 d, a + 3 := byte_of 3 d)"
proof
  fix b
  from assms have al: "a AND 3 = 0" and mem': "cell mem' b = (if drop_bit 2 a = drop_bit 2 b then d else cell mem b)"
    by (auto simp: mem_op_defs mem_simps split: if_splits)
  show "flat mem' b = ((flat mem)(a := byte_of 0 d, a + 1 := byte_of 1 d,
           a + 2 := byte_of 2 d, a + 3 := byte_of 3 d)) b"
    using word_eq_split_2 [of b a] word_eq_split_2 [of b "a + 1"] word_eq_split_2 [of b "a + 2"]
      word_eq_split_2 [of b "a + 3"]
    by (cases b rule: and_3_cases) (auto simp: flat_def mem' byte_of_def al aligned_offset [OF al])
qed

lemma flat_wr_h:
  assumes "memory_wr_h mem a d = Inr mem'"
  shows "flat mem' = (flat mem)(a := byte_of 0 d, a + 1 := byte_of 1 d)"
proof
  fix b
  let ?v = "if a AND 2 = 0 then (cell mem a AND 0xffff0000) OR (d AND 0x0000ffff)
                 else (cell mem a AND 0x0000ffff) OR push_bit 16 d"
  from assms have al: "a AND 1 = 0" and mem': "cell mem' b = (if drop_bit 2 a = drop_bit 2 b then ?v else cell mem b)"
    by (auto simp: mem_op_defs mem_simps split: if_splits)
  show "flat mem' b = ((flat mem)(a := byte_of 0 d, a + 1 := byte_of 1 d)) b"
  proof (cases "drop_bit 2 a = drop_bit 2 b")
    case False
    then show ?thesis
      using word_eq_split_2 [of b a] word_eq_split_2 [of b "a + 1"]
      by (auto simp: flat_def mem' even_offset [OF al])
  next
    case True
    then have c: "cell mem a = cell mem b" and e: "b = a \<longleftrightarrow> b AND 3 = a AND 3"
        "b = a + 1 \<longleftrightarrow> b AND 3 = (a AND 3) OR 1"
      using same_cell [of a b] word_eq_split_2 [of b a] word_eq_split_2 [of b "a + 1"] even_offset [OF al]
      by (auto simp: cell_def)
    show ?thesis
      by (cases b rule: and_3_cases; cases "a AND 2 = 0")
        (simp_all add: flat_def byte_of_def mem' True c e even_offset(3) [OF al] word8_eq_iff all_less_8 bit_simps)
  qed
qed

lemma memory_wr_w_ok:
  "memory_wr_w mem a d = Inl e \<longleftrightarrow> a AND 3 \<noteq> 0 \<and> e = UnalignedWordWrite a"
  "memory_wr_w mem a d = Inr mem' \<Longrightarrow> a AND 3 = 0"
  by (auto simp: memory_wr_w_def split_def Let_def split: if_splits)

lemma memory_wr_h_ok:
  "memory_wr_h mem a d = Inl e \<longleftrightarrow> a AND 1 \<noteq> 0 \<and> e = UnalignedHalfwordWrite a"
  "memory_wr_h mem a d = Inr mem' \<Longrightarrow> a AND 1 = 0"
  by (auto simp: memory_wr_h_def split_def Let_def split: if_splits)

lemma memory_rd_w_ok:
  "(\<exists>r. memory_rd_w mem a = Inr r) \<longleftrightarrow> a AND 3 = 0"
  "memory_rd_w mem a = Inl e \<longleftrightarrow> a AND 3 \<noteq> 0 \<and> e = UnalignedWordRead a"
  by (auto simp: memory_rd_w_def split_def Let_def)

lemma memory_rd_h_ok:
  "(\<exists>r. memory_rd_h mem a = Inr r) \<longleftrightarrow> a AND 1 = 0"
  "memory_rd_h mem a = Inl e \<longleftrightarrow> a AND 1 \<noteq> 0 \<and> e = UnalignedHalfwordRead a"
  by (auto simp: memory_rd_h_def split_def Let_def)

lemma memory_rd_w_flat:
  assumes "memory_rd_w mem a = Inr (mem', v)"
  shows "flat mem' = flat mem"
    and "v = join32 (flat mem a) (flat mem (a + 1)) (flat mem (a + 2)) (flat mem (a + 3))"
proof -
  from assms have al: "a AND 3 = 0" and mem': "mem' = fst (get_page mem a)" and v: "v = cell mem a"
    by (auto simp: mem_op_defs mem_simps split: if_splits)
  show "flat mem' = flat mem" by (rule ext) (simp add: mem' mem_simps)
  have "flat mem a = byte_of 0 v" "flat mem (a + 1) = byte_of 1 v" "flat mem (a + 2) = byte_of 2 v"
      "flat mem (a + 3) = byte_of 3 v"
    by (simp_all add: v flat_cell [of _ a] al aligned_offset [OF al])
  then show "v = join32 (flat mem a) (flat mem (a + 1)) (flat mem (a + 2)) (flat mem (a + 3))"
    by (simp add: join32_def byte_of_def word32_eq_iff word_bits_less bit_simps)
qed

lemma memory_rd_h_flat:
  assumes "memory_rd_h mem a = Inr (mem', v)"
  shows "flat mem' = flat mem" and "v = join16 (flat mem a) (flat mem (a + 1))"
proof -
  from assms have al: "a AND 1 = 0" and mem': "mem' = fst (get_page mem a)"
    and v: "v = (if a AND 2 = 0 then cell mem a AND 0xffff else signed_drop_bit 16 (cell mem a) AND 0xffff)"
    by (auto simp: mem_op_defs mem_simps split: if_splits)
  show "flat mem' = flat mem" by (rule ext) (simp add: mem' mem_simps)
  show "v = join16 (flat mem a) (flat mem (a + 1))"
    by (cases "a AND 2 = 0")
      (simp_all add: v flat_cell [of _ a] even_offset [OF al] join16_def byte_of_def
        word32_eq_iff word_bits_less bit_simps)
qed

lemma memory_rd_b_flat:
  "flat (fst (memory_rd_b mem a)) = flat mem" "snd (memory_rd_b mem a) = ucast (flat mem a)"
proof -
  show "flat (fst (memory_rd_b mem a)) = flat mem"
    by (rule ext) (simp add: mem_op_defs mem_simps)
  show "snd (memory_rd_b mem a) = ucast (flat mem a)"
    by (cases a rule: and_3_cases; simp add: mem_op_defs mem_simps flat_def)
      (simp_all add: word32_eq_iff word_bits_less bit_simps)
qed

section \<open>The interface the loader and the argument passing use\<close>

text \<open>
  Both write byte by byte to consecutive addresses and rely on one law only: a store changes
  the byte at its address and nothing else.
\<close>

fun store_bytes :: "('m \<Rightarrow> i32 \<Rightarrow> i32 \<Rightarrow> 'm) \<Rightarrow> 'm \<Rightarrow> i32 \<Rightarrow> bytes \<Rightarrow> 'm" where
  "store_bytes st m a [] = m"
| "store_bytes st m a (b # bs) = store_bytes st (st m a (ucast b)) (a + 1) bs"

locale byte_store =
  fixes contents :: "'m \<Rightarrow> i32 \<Rightarrow> u8"
    and store :: "'m \<Rightarrow> i32 \<Rightarrow> i32 \<Rightarrow> 'm"
  assumes contents_store: "contents (store m a d) = (contents m)(a := ucast d)"
begin

lemma contents_store_bytes:
  assumes "length bs \<le> 2 ^ 32"
  shows "contents (store_bytes store m a bs) x =
    (if unat (x - a) < length bs then bs ! unat (x - a) else contents m x)"
  using assms
proof (induction bs arbitrary: m a)
  case Nil
  then show ?case by simp
next
  case (Cons b bs)
  show ?case
  proof (cases "x = a")
    case True
    have "unat (a - (a + 1)) = 2 ^ 32 - 1" by (simp add: unsigned_minus_1_eq_mask mask_eq_exp_minus_1)
    with Cons True show ?thesis by (simp add: contents_store)
  next
    case False
    then have "unat (x - a) = Suc (unat (x - (a + 1)))"
      using unat_minus_one [of "x - a"] by (simp add: diff_diff_eq [symmetric]) (metis Suc_pred unat_gt_0 right_minus_eq)
    with Cons False show ?thesis by (simp add: contents_store)
  qed
qed

end

interpretation sim_mem: byte_store flat memory_wr_b
  by unfold_locales (rule flat_wr_b)

section \<open>Properties\<close>

text \<open>
  C6: Writes to the simulated memory are writes to a flat byte-addressed little-endian memory:
  an aligned word or halfword write and every byte write succeed and change exactly the bytes
  they name (in particular across page boundaries and on fresh pages), and an unaligned write
  stops the program.
\<close>

theorem memory_writes_refine_flat:
  "(case memory_wr_w mem a d of
      Inl e \<Rightarrow> a AND 3 \<noteq> 0 \<and> e = UnalignedWordWrite a
    | Inr mem' \<Rightarrow> a AND 3 = 0 \<and>
        flat mem' = (flat mem)(a := byte_of 0 d, a + 1 := byte_of 1 d,
                               a + 2 := byte_of 2 d, a + 3 := byte_of 3 d)) \<and>
   (case memory_wr_h mem a d of
      Inl e \<Rightarrow> a AND 1 \<noteq> 0 \<and> e = UnalignedHalfwordWrite a
    | Inr mem' \<Rightarrow> a AND 1 = 0 \<and> flat mem' = (flat mem)(a := byte_of 0 d, a + 1 := byte_of 1 d)) \<and>
   flat (memory_wr_b mem a d) = (flat mem)(a := byte_of 0 d)"
  using flat_wr_w [of mem a d] flat_wr_h [of mem a d] flat_wr_b [of mem a d]
  by (auto simp: memory_wr_w_def memory_wr_h_def split_def Let_def byte_of_def split: sum.split)

text \<open>
  C7: Reads return what the flat memory holds at the named addresses, zero-extended and in
  little-endian order, and leave every byte as it was (they may allocate a zero page); exactly
  the unaligned word and halfword reads stop the program.
\<close>

theorem memory_reads_refine_flat:
  "(case memory_rd_w mem a of
      Inl e \<Rightarrow> a AND 3 \<noteq> 0 \<and> e = UnalignedWordRead a
    | Inr (mem', v) \<Rightarrow> a AND 3 = 0 \<and> flat mem' = flat mem \<and>
        v = join32 (flat mem a) (flat mem (a + 1)) (flat mem (a + 2)) (flat mem (a + 3))) \<and>
   (case memory_rd_h mem a of
      Inl e \<Rightarrow> a AND 1 \<noteq> 0 \<and> e = UnalignedHalfwordRead a
    | Inr (mem', v) \<Rightarrow> a AND 1 = 0 \<and> flat mem' = flat mem \<and>
        v = join16 (flat mem a) (flat mem (a + 1))) \<and>
   (case memory_rd_b mem a of
      (mem', v) \<Rightarrow> flat mem' = flat mem \<and> v = ucast (flat mem a))"
proof (intro conjI)
  show "case memory_rd_w mem a of
      Inl e \<Rightarrow> a AND 3 \<noteq> 0 \<and> e = UnalignedWordRead a
    | Inr (mem', v) \<Rightarrow> a AND 3 = 0 \<and> flat mem' = flat mem \<and>
        v = join32 (flat mem a) (flat mem (a + 1)) (flat mem (a + 2)) (flat mem (a + 3))"
    using memory_rd_w_flat [of mem a] memory_rd_w_ok [of mem a]
    by (auto split: sum.split)
  show "case memory_rd_h mem a of
      Inl e \<Rightarrow> a AND 1 \<noteq> 0 \<and> e = UnalignedHalfwordRead a
    | Inr (mem', v) \<Rightarrow> a AND 1 = 0 \<and> flat mem' = flat mem \<and>
        v = join16 (flat mem a) (flat mem (a + 1))"
    using memory_rd_h_flat [of mem a] memory_rd_h_ok [of mem a]
    by (auto split: sum.split)
  show "case memory_rd_b mem a of (mem', v) \<Rightarrow> flat mem' = flat mem \<and> v = ucast (flat mem a)"
    using memory_rd_b_flat [of mem a] by (simp add: split_def)
qed

end
