(* ===== verification/Simulate.thy ===== *)
theory Simulate
  imports Memory
begin

text \<open>
  The RV32IM simulator, \<open>Opgave5/src/simulate.c\<close>: instruction fields and immediates, system
  calls, the branch predictors that run beside the program, and the fetch-execute loop. The
  local variables of \<open>simulate\<close> that live across iterations are the record \<open>sim\<close>; one
  iteration of \<open>while (1)\<close> is \<open>sim_step\<close>, written in the order of the source.
\<close>

section \<open>Instruction fields\<close>

text \<open>\<open>sign_extend\<close> is only called with values below \<open>2 ^ bits\<close>.\<close>

definition sign_extend :: "i32 \<Rightarrow> nat \<Rightarrow> i32" where
  "sign_extend value bits = (let mask = push_bit (bits - 1) 1 in (value XOR mask) - mask)"

definition get_opcode :: "u32 \<Rightarrow> u32" where [field_defs]: "get_opcode inst = inst AND 0x7F"
definition get_rd :: "u32 \<Rightarrow> u32" where [field_defs]: "get_rd inst = drop_bit 7 inst AND 0x1F"
definition get_f3 :: "u32 \<Rightarrow> u32" where [field_defs]: "get_f3 inst = drop_bit 12 inst AND 0x7"
definition get_rs1 :: "u32 \<Rightarrow> u32" where [field_defs]: "get_rs1 inst = drop_bit 15 inst AND 0x1F"
definition get_rs2 :: "u32 \<Rightarrow> u32" where [field_defs]: "get_rs2 inst = drop_bit 20 inst AND 0x1F"
definition get_f7 :: "u32 \<Rightarrow> u32" where [field_defs]: "get_f7 inst = drop_bit 25 inst AND 0x7F"

definition imm_I :: "u32 \<Rightarrow> i32" where
  "imm_I inst = sign_extend (drop_bit 20 inst) 12"

definition imm_S :: "u32 \<Rightarrow> i32" where
  "imm_S inst =
     (let imm = push_bit 5 (drop_bit 25 inst) OR (drop_bit 7 inst AND 0x1F)
      in sign_extend imm 12)"

definition imm_B :: "u32 \<Rightarrow> i32" where
  "imm_B inst =
     (let imm =
        push_bit 12 (drop_bit 31 inst AND 1) OR
        push_bit 11 (drop_bit 7 inst AND 1) OR
        push_bit 5 (drop_bit 25 inst AND 0x3F) OR
        push_bit 1 (drop_bit 8 inst AND 0xF)
      in sign_extend imm 13)"

definition imm_U :: "u32 \<Rightarrow> i32" where
  "imm_U inst = inst AND 0xFFFFF000"

definition imm_J :: "u32 \<Rightarrow> i32" where
  "imm_J inst =
     (let imm =
        push_bit 20 (drop_bit 31 inst AND 1) OR
        push_bit 1 (drop_bit 21 inst AND 0x3FF) OR
        push_bit 11 (drop_bit 20 inst AND 1) OR
        push_bit 12 (drop_bit 12 inst AND 0xFF)
      in sign_extend imm 21)"

section \<open>State\<close>

text \<open>
  The predictors: error counts, four bimodal and four gshare tables of two-bit counters and
  the global history register. A table is the array that \<open>malloc\<close> and \<open>memset\<close> make; its
  size is the entry of \<open>bimodal_sizes\<close> at the same position.
\<close>

type_synonym counter_table = "nat \<Rightarrow> u8"

record predictors =
  nt_errors :: nat
  btfnt_errors :: nat
  bimodal :: "counter_table list"
  gshare :: "counter_table list"
  bimodal_errors :: "nat list"
  gshare_errors :: "nat list"
  ghr :: u32

text \<open>What the log file receives: one entry per \<open>fprintf\<close> group of the loop.\<close>

datatype log_entry =
    LogInsn nat u32 u32 "bool option"
  | LogReg u32 i32
  | LogStore i32 i32

datatype sim_error = MemError mem_error | DivisionTrap

text \<open>
  The \<open>long\<close> counters are natural numbers (a run of \<open>2 ^ 63\<close> instructions is out of reach);
  standard input and output are byte lists.
\<close>

record sim =
  mem :: memory
  regs :: "i32 list"
  pc :: u32
  insns :: nat
  branch_count :: nat
  pred :: predictors
  stdin :: bytes
  stdout :: bytes
  log :: "log_entry list"

definition bimodal_sizes :: "u32 list" where
  "bimodal_sizes = [256, 1024, 4096, 16384]"

definition init_predictors :: predictors where
  "init_predictors = \<lparr>nt_errors = 0, btfnt_errors = 0,
     bimodal = replicate 4 (\<lambda>_. 2), gshare = replicate 4 (\<lambda>_. 2),
     bimodal_errors = replicate 4 0, gshare_errors = replicate 4 0, ghr = 0\<rparr>"

definition init_sim :: "memory \<Rightarrow> u32 \<Rightarrow> bytes \<Rightarrow> sim" where
  "init_sim m start_addr inp = \<lparr>mem = m, regs = replicate 32 0, pc = start_addr, insns = 0,
     branch_count = 0, pred = init_predictors, stdin = inp, stdout = [], log = []\<rparr>"

definition set_reg :: "u32 \<Rightarrow> i32 \<Rightarrow> sim \<Rightarrow> sim" where
  "set_reg rd v s = s\<lparr>regs := (regs s)[unat rd := v]\<rparr>"

section \<open>System calls\<close>

text \<open>
  \<open>handle_ecall\<close> returns whether the program exits. \<open>getchar\<close> gives \<open>EOF\<close>, that is
  \<open>- 1\<close>, at the end of the input; \<open>putchar\<close> writes its argument as an unsigned char.
\<close>

definition handle_ecall :: "sim \<Rightarrow> sim \<times> bool" where
  "handle_ecall s =
     (let a7 = regs s ! 17; a0 = regs s ! 10 in
      if a7 = 1 then
        (case stdin s of
           [] \<Rightarrow> (s\<lparr>regs := (regs s)[10 := - 1]\<rparr>, False)
         | c # cs \<Rightarrow> (s\<lparr>regs := (regs s)[10 := ucast c], stdin := cs\<rparr>, False))
      else if a7 = 2 then (s\<lparr>stdout := stdout s @ [ucast a0]\<rparr>, False)
      else if a7 = 3 \<or> a7 = 93 then (s, True)
      else (s, False))"

section \<open>Branch prediction\<close>

definition counter_update :: "bool \<Rightarrow> u8 \<Rightarrow> u8" where
  "counter_update taken c =
     (if taken then (if c < 3 then c + 1 else c) else (if c > 0 then c - 1 else c))"

definition bimodal_index :: "u32 \<Rightarrow> u32 \<Rightarrow> nat" where
  "bimodal_index at sz = unat (drop_bit 2 at AND (sz - 1))"

definition gshare_index :: "u32 \<Rightarrow> u32 \<Rightarrow> u32 \<Rightarrow> nat" where
  "gshare_index at h sz = unat ((drop_bit 2 at XOR h) AND (sz - 1))"

definition predict :: "u32 \<Rightarrow> i32 \<Rightarrow> bool \<Rightarrow> predictors \<Rightarrow> predictors" where
  "predict at branch_target taken p =
     (let backward = (sint (branch_target - at) < 0);
          bi = (\<lambda>i. bimodal_index at (bimodal_sizes ! i));
          gi = (\<lambda>i. gshare_index at (ghr p) (bimodal_sizes ! i));
          miss = (\<lambda>c. (2 \<le> c) \<noteq> taken)
      in p\<lparr>nt_errors := nt_errors p + (if taken then 1 else 0),
           btfnt_errors := btfnt_errors p + (if taken \<noteq> backward then 1 else 0),
           bimodal_errors := map (\<lambda>i. bimodal_errors p ! i +
             (if miss ((bimodal p ! i) (bi i)) then 1 else 0)) [0..<4],
           bimodal := map (\<lambda>i. (bimodal p ! i)
             (bi i := counter_update taken ((bimodal p ! i) (bi i)))) [0..<4],
           gshare_errors := map (\<lambda>i. gshare_errors p ! i +
             (if miss ((gshare p ! i) (gi i)) then 1 else 0)) [0..<4],
           gshare := map (\<lambda>i. (gshare p ! i)
             (gi i := counter_update taken ((gshare p ! i) (gi i)))) [0..<4],
           ghr := (push_bit 1 (ghr p) OR (if taken then 1 else 0)) AND 0xFFFF\<rparr>)"

section \<open>One instruction\<close>

text \<open>The variables the control-transfer part of an iteration sets.\<close>

record control =
  next_pc :: u32
  is_branch :: bool
  taken :: bool
  branch_target :: i32

definition branch_taken :: "u32 \<Rightarrow> i32 \<Rightarrow> i32 \<Rightarrow> bool" where
  "branch_taken f3 v1 v2 =
     (f3 = 0 \<and> v1 = v2 \<or> f3 = 1 \<and> v1 \<noteq> v2 \<or>
      f3 = 4 \<and> sint v1 < sint v2 \<or> f3 = 5 \<and> sint v1 \<ge> sint v2 \<or>
      f3 = 6 \<and> v1 < v2 \<or> f3 = 7 \<and> v1 \<ge> v2)"

text \<open>LUI, AUIPC, JAL, JALR and the conditional branches.\<close>

definition exec_control :: "u32 \<Rightarrow> i32 \<Rightarrow> i32 \<Rightarrow> sim \<Rightarrow> sim \<times> control" where
  "exec_control inst v1 v2 s =
     (let opcode = get_opcode inst; f3 = get_f3 inst; rd = get_rd inst;
          c0 = \<lparr>next_pc = pc s + 4, is_branch = False, taken = False, branch_target = 0\<rparr>;
          counted = s\<lparr>branch_count := branch_count s + 1\<rparr>
      in if opcode = 0x37 then (set_reg rd (imm_U inst) s, c0)
         else if opcode = 0x17 then (set_reg rd (pc s + imm_U inst) s, c0)
         else if opcode = 0x6F then
           let n = pc s + imm_J inst in
           (set_reg rd (pc s + 4) counted,
            \<lparr>next_pc = n, is_branch = True, taken = True, branch_target = n\<rparr>)
         else if opcode = 0x67 then
           let n = (v1 + imm_I inst) AND NOT 1 in
           (set_reg rd (pc s + 4) counted,
            \<lparr>next_pc = n, is_branch = True, taken = True, branch_target = n\<rparr>)
         else if opcode = 0x63 then
           let target = pc s + imm_B inst; t = branch_taken f3 v1 v2 in
           (counted, \<lparr>next_pc = (if t then target else pc s + 4), is_branch = True, taken = t,
                      branch_target = target\<rparr>)
         else (s, c0))"

definition log_insn :: "bool \<Rightarrow> u32 \<Rightarrow> u32 \<Rightarrow> control \<Rightarrow> sim \<Rightarrow> sim" where
  "log_insn logging at inst c s =
     (if logging
      then s\<lparr>log := log s @ [LogInsn (insns s) at inst
             (if is_branch c then Some (taken c) else None)]\<rparr>
      else s)"

text \<open>Loads and stores; \<open>(int8_t)\<close> and its kin first narrow and then extend again.\<close>

definition exec_load :: "bool \<Rightarrow> u32 \<Rightarrow> i32 \<Rightarrow> sim \<Rightarrow> sim_error + sim" where
  "exec_load logging inst v1 s =
     (let f3 = get_f3 inst; rd = get_rd inst; addr = v1 + imm_I inst;
          loaded = (if f3 = 0 then
               let (m, v) = memory_rd_b (mem s) addr in Inr (set_reg rd (scast (ucast v :: u8)) (s\<lparr>mem := m\<rparr>))
             else if f3 = 4 then
               let (m, v) = memory_rd_b (mem s) addr in Inr (set_reg rd (ucast (ucast v :: u8)) (s\<lparr>mem := m\<rparr>))
             else if f3 = 1 then
               (case memory_rd_h (mem s) addr of Inl e \<Rightarrow> Inl (MemError e)
                | Inr (m, v) \<Rightarrow> Inr (set_reg rd (scast (ucast v :: u16)) (s\<lparr>mem := m\<rparr>)))
             else if f3 = 5 then
               (case memory_rd_h (mem s) addr of Inl e \<Rightarrow> Inl (MemError e)
                | Inr (m, v) \<Rightarrow> Inr (set_reg rd (ucast (ucast v :: u16)) (s\<lparr>mem := m\<rparr>)))
             else if f3 = 2 then
               (case memory_rd_w (mem s) addr of Inl e \<Rightarrow> Inl (MemError e)
                | Inr (m, v) \<Rightarrow> Inr (set_reg rd v (s\<lparr>mem := m\<rparr>)))
             else Inr s)
      in rbind loaded (\<lambda>s. Inr (if logging \<and> rd \<noteq> 0
           then s\<lparr>log := log s @ [LogReg rd (regs s ! unat rd)]\<rparr> else s)))"

definition exec_store :: "bool \<Rightarrow> u32 \<Rightarrow> i32 \<Rightarrow> i32 \<Rightarrow> sim \<Rightarrow> sim_error + sim" where
  "exec_store logging inst v1 v2 s =
     (let f3 = get_f3 inst; addr = v1 + imm_S inst;
          stored = (if f3 = 0 then Inr (s\<lparr>mem := memory_wr_b (mem s) addr v2\<rparr>)
             else if f3 = 1 then
               (case memory_wr_h (mem s) addr v2 of Inl e \<Rightarrow> Inl (MemError e)
                | Inr m \<Rightarrow> Inr (s\<lparr>mem := m\<rparr>))
             else if f3 = 2 then
               (case memory_wr_w (mem s) addr v2 of Inl e \<Rightarrow> Inl (MemError e)
                | Inr m \<Rightarrow> Inr (s\<lparr>mem := m\<rparr>))
             else Inr s)
      in rbind stored (\<lambda>s. Inr (if logging then s\<lparr>log := log s @ [LogStore addr v2]\<rparr> else s)))"

text \<open>Immediate arithmetic; \<open>None\<close> would be a function code without a branch, of which there is none.\<close>

definition bool_word :: "bool \<Rightarrow> i32" where
  "bool_word b = (if b then 1 else 0)"

definition alu_imm :: "u32 \<Rightarrow> i32 \<Rightarrow> i32 option" where
  "alu_imm inst v1 =
     (let f3 = get_f3 inst; imm = imm_I inst; shamt = unat (drop_bit 20 inst AND 0x1F) in
      if f3 = 0 then Some (v1 + imm)
      else if f3 = 2 then Some (bool_word (sint v1 < sint imm))
      else if f3 = 3 then Some (bool_word (v1 < imm))
      else if f3 = 4 then Some (v1 XOR imm)
      else if f3 = 6 then Some (v1 OR imm)
      else if f3 = 7 then Some (v1 AND imm)
      else if f3 = 1 then Some (push_bit shamt v1)
      else if f3 = 5 then
        (if drop_bit 30 inst AND 1 \<noteq> 0 then Some (signed_drop_bit shamt v1)
         else Some (drop_bit shamt v1))
      else None)"

text \<open>
  C's signed division truncates; dividing by zero, and the quotient \<open>2 ^ 31\<close>, raise a
  hardware trap (both are undefined in C).
\<close>

definition trunc_div :: "int \<Rightarrow> int \<Rightarrow> int" where
  "trunc_div a b = sgn a * sgn b * (\<bar>a\<bar> div \<bar>b\<bar>)"

definition trunc_mod :: "int \<Rightarrow> int \<Rightarrow> int" where
  "trunc_mod a b = a - b * trunc_div a b"

definition sdiv_traps :: "i32 \<Rightarrow> i32 \<Rightarrow> bool" where
  "sdiv_traps v1 v2 = (v2 = 0 \<or> v1 = 0x80000000 \<and> v2 = - 1)"

text \<open>
  Register arithmetic. In \<open>mulhsu\<close> and \<open>mulhu\<close> the casts to \<open>uint64_t\<close> apply to \<open>int32_t\<close>
  operands, so they extend the sign.
\<close>

definition alu_reg :: "u32 \<Rightarrow> i32 \<Rightarrow> i32 \<Rightarrow> sim_error + i32 option" where
  "alu_reg inst v1 v2 =
     (let f3 = get_f3 inst; f7 = get_f7 inst; sh = unat (v2 AND 0x1F) in
      if f3 = 0 then
        Inr (Some (if f7 = 0x20 then v1 - v2 else if f7 = 0x01 then v1 * v2 else v1 + v2))
      else if f3 = 1 then
        Inr (Some (if f7 = 0x01 then ucast (signed_drop_bit 32 (scast v1 * scast v2 :: u64))
                   else push_bit sh v1))
      else if f3 = 2 then
        Inr (Some (if f7 = 0x01 then ucast (drop_bit 32 (scast v1 * scast v2 :: u64))
                   else bool_word (sint v1 < sint v2)))
      else if f3 = 3 then
        Inr (Some (if f7 = 0x01 then ucast (drop_bit 32 (scast v1 * scast v2 :: u64))
                   else bool_word (v1 < v2)))
      else if f3 = 4 then
        (if f7 = 0x01 then
           (if sdiv_traps v1 v2 then Inl DivisionTrap
            else Inr (Some (word_of_int (trunc_div (sint v1) (sint v2)))))
         else Inr (Some (v1 XOR v2)))
      else if f3 = 5 then
        (if f7 = 0x20 then Inr (Some (signed_drop_bit sh v1))
         else if f7 = 0x01 then (if v2 = 0 then Inl DivisionTrap else Inr (Some (v1 div v2)))
         else Inr (Some (drop_bit sh v1)))
      else if f3 = 6 then
        (if f7 = 0x01 then
           (if sdiv_traps v1 v2 then Inl DivisionTrap
            else Inr (Some (word_of_int (trunc_mod (sint v1) (sint v2)))))
         else Inr (Some (v1 OR v2)))
      else if f3 = 7 then
        (if f7 = 0x01 then (if v2 = 0 then Inl DivisionTrap else Inr (Some (v1 mod v2)))
         else Inr (Some (v1 AND v2)))
      else Inr None)"

definition write_back :: "u32 \<Rightarrow> i32 option \<Rightarrow> sim \<Rightarrow> sim" where
  "write_back rd r s = (case r of None \<Rightarrow> s | Some v \<Rightarrow> set_reg rd v s)"

text \<open>The chain load / store / immediate / register / system; the flag is the \<open>break\<close>.\<close>

definition exec_data :: "bool \<Rightarrow> u32 \<Rightarrow> i32 \<Rightarrow> i32 \<Rightarrow> sim \<Rightarrow> sim_error + sim \<times> bool" where
  "exec_data logging inst v1 v2 s =
     (let opcode = get_opcode inst; rd = get_rd inst in
      if opcode = 0x03 then rbind (exec_load logging inst v1 s) (\<lambda>s. Inr (s, False))
      else if opcode = 0x23 then rbind (exec_store logging inst v1 v2 s) (\<lambda>s. Inr (s, False))
      else if opcode = 0x13 then Inr (write_back rd (alu_imm inst v1) s, False)
      else if opcode = 0x33 then
        rbind (alu_reg inst v1 v2) (\<lambda>r. Inr (write_back rd r s, False))
      else if opcode = 0x73 then Inr (handle_ecall s)
      else Inr (s, False))"

text \<open>The body of the loop after the fetch, with the fetch in \<open>sim_step\<close>.\<close>

definition exec_inst :: "bool \<Rightarrow> u32 \<Rightarrow> sim \<Rightarrow> sim_error + sim \<times> bool" where
  "exec_inst logging inst s =
     (let v1 = regs s ! unat (get_rs1 inst);
          v2 = regs s ! unat (get_rs2 inst);
          (s, c) = exec_control inst v1 v2 s;
          s = (if is_branch c then s\<lparr>pred := predict (pc s) (branch_target c) (taken c) (pred s)\<rparr> else s);
          s = log_insn logging (pc s) inst c s
      in rbind (exec_data logging inst v1 v2 s) (\<lambda>(s, stop).
           if stop then Inr (s, True)
           else Inr (s\<lparr>pc := next_pc c, regs := (regs s)[0 := 0]\<rparr>, False)))"

definition sim_step :: "bool \<Rightarrow> sim \<Rightarrow> sim_error + sim \<times> bool" where
  "sim_step logging s =
     (case memory_rd_w (mem s) (pc s) of
        Inl e \<Rightarrow> Inl (MemError e)
      | Inr (m, inst) \<Rightarrow> exec_inst logging inst (s\<lparr>mem := m, insns := insns s + 1\<rparr>))"

section \<open>The loop\<close>

text \<open>
  The loop ends at an exit call or when the process stops; it need not end, so it takes fuel:
  \<open>None\<close> means that the given number of iterations did not reach the end.
\<close>

fun sim_loop :: "bool \<Rightarrow> nat \<Rightarrow> sim \<Rightarrow> (sim_error + sim) option" where
  "sim_loop logging 0 s = None"
| "sim_loop logging (Suc n) s =
     (case sim_step logging s of
        Inl e \<Rightarrow> Some (Inl e)
      | Inr (s', True) \<Rightarrow> Some (Inr s')
      | Inr (s', False) \<Rightarrow> sim_loop logging n s')"

text \<open>The printed summary: a label and a number per line.\<close>

definition print_summary :: "sim \<Rightarrow> (string \<times> nat list) list" where
  "print_summary s =
     [(''Simulated'', [insns s]), (''K'' @ [CHR 0xC3, CHR 0xB8] @ ''rte Branches'', [branch_count s]),
      (''NT errors'', [nt_errors (pred s)]), (''BTFNT errors'', [btfnt_errors (pred s)])] @
     map (\<lambda>i. (''Bimodal'', [unat (bimodal_sizes ! i), bimodal_errors (pred s) ! i])) [0..<4] @
     map (\<lambda>i. (''gShare'', [unat (bimodal_sizes ! i), gshare_errors (pred s) ! i])) [0..<4]"

definition simulate :: "nat \<Rightarrow> bool \<Rightarrow> memory \<Rightarrow> u32 \<Rightarrow> bytes \<Rightarrow>
    (sim_error + sim \<times> (string \<times> nat list) list) option" where
  "simulate fuel logging m start_addr inp =
     map_option (\<lambda>r. rbind r (\<lambda>s. Inr (s, print_summary s)))
       (sim_loop logging fuel (init_sim m start_addr inp))"

end
