(* ===== verification/Riscv_Spec.thy ===== *)
theory Riscv_Spec
  imports Prelude
begin

text \<open>
  What the simulator is meant to implement: the RV32I base instruction set with the M extension,
  over a flat byte-addressed memory, with the three system calls of the simulated environment.
  Instructions are a datatype, immediates are given bit by bit as in the tables of the
  instruction set manual, and arithmetic is stated over the integers. A misaligned program
  counter is reported when the instruction is fetched.
\<close>

section \<open>Instructions\<close>

datatype branch_op = BEQ | BNE | BLT | BGE | BLTU | BGEU
datatype load_op = LB | LH | LW | LBU | LHU
datatype store_op = SB | SH | SW
datatype imm_op = ADDI | SLTI | SLTIU | XORI | ORI | ANDI
datatype shift_op = SLLI | SRLI | SRAI
datatype reg_op = ADD | SUB | SLL | SLT | SLTU | XOR_R | SRL | SRA | OR_R | AND_R
  | MUL | MULH | MULHSU | MULHU | DIV | DIVU | REM | REMU

datatype instr =
    LUI nat i32
  | AUIPC nat i32
  | JAL nat i32
  | JALR nat nat i32
  | Branch branch_op nat nat i32
  | Load load_op nat nat i32
  | Store store_op nat nat i32
  | OpImm imm_op nat nat i32
  | Shift shift_op nat nat nat
  | Op reg_op nat nat nat
  | ECALL

section \<open>Decoding\<close>

definition field :: "nat \<Rightarrow> nat \<Rightarrow> u32 \<Rightarrow> nat" where
  "field lo len i = unat i div 2 ^ lo mod 2 ^ len"

definition from_bits :: "(nat \<Rightarrow> bool) \<Rightarrow> i32" where
  "from_bits f = horner_sum of_bool 2 (map f [0..<32])"

lemma bit_from_bits [simp]: "bit (from_bits f) n \<longleftrightarrow> n < 32 \<and> f n"
  by (auto simp: from_bits_def bit_horner_sum_bit_word_iff)

definition isa_imm_I :: "u32 \<Rightarrow> i32" where
  "isa_imm_I i = from_bits (\<lambda>n. if n < 11 then bit i (n + 20) else bit i 31)"

definition isa_imm_S :: "u32 \<Rightarrow> i32" where
  "isa_imm_S i = from_bits (\<lambda>n. if n < 5 then bit i (n + 7) else if n < 11 then bit i (n + 20) else bit i 31)"

definition isa_imm_B :: "u32 \<Rightarrow> i32" where
  "isa_imm_B i = from_bits (\<lambda>n. if n = 0 then False else if n < 5 then bit i (n + 7)
     else if n < 11 then bit i (n + 20) else if n = 11 then bit i 7 else bit i 31)"

definition isa_imm_U :: "u32 \<Rightarrow> i32" where
  "isa_imm_U i = from_bits (\<lambda>n. if n < 12 then False else bit i n)"

definition isa_imm_J :: "u32 \<Rightarrow> i32" where
  "isa_imm_J i = from_bits (\<lambda>n. if n = 0 then False else if n < 11 then bit i (n + 20)
     else if n = 11 then bit i 20 else if n < 20 then bit i n else bit i 31)"

definition decode_branch :: "nat \<Rightarrow> branch_op option" where
  "decode_branch f3 = map_of [(0, BEQ), (1, BNE), (4, BLT), (5, BGE), (6, BLTU), (7, BGEU)] f3"

definition decode_load :: "nat \<Rightarrow> load_op option" where
  "decode_load f3 = map_of [(0, LB), (1, LH), (2, LW), (4, LBU), (5, LHU)] f3"

definition decode_store :: "nat \<Rightarrow> store_op option" where
  "decode_store f3 = map_of [(0, SB), (1, SH), (2, SW)] f3"

definition decode_imm :: "nat \<Rightarrow> imm_op option" where
  "decode_imm f3 = map_of [(0, ADDI), (2, SLTI), (3, SLTIU), (4, XORI), (6, ORI), (7, ANDI)] f3"

definition decode_shift :: "nat \<Rightarrow> nat \<Rightarrow> shift_op option" where
  "decode_shift f3 f7 = map_of [((1, 0), SLLI), ((5, 0), SRLI), ((5, 0x20), SRAI)] (f3, f7)"

definition decode_reg :: "nat \<Rightarrow> nat \<Rightarrow> reg_op option" where
  "decode_reg f3 f7 = map_of
     [((0, 0), ADD), ((0, 0x20), SUB), ((1, 0), SLL), ((2, 0), SLT), ((3, 0), SLTU),
      ((4, 0), XOR_R), ((5, 0), SRL), ((5, 0x20), SRA), ((6, 0), OR_R), ((7, 0), AND_R),
      ((0, 1), MUL), ((1, 1), MULH), ((2, 1), MULHSU), ((3, 1), MULHU),
      ((4, 1), DIV), ((5, 1), DIVU), ((6, 1), REM), ((7, 1), REMU)] (f3, f7)"

definition isa_decode :: "u32 \<Rightarrow> instr option" where
  "isa_decode i =
     (let opcode = field 0 7 i; rd = field 7 5 i; f3 = field 12 3 i; rs1 = field 15 5 i;
          rs2 = field 20 5 i; f7 = field 25 7 i
      in if opcode = 0x37 then Some (LUI rd (isa_imm_U i))
         else if opcode = 0x17 then Some (AUIPC rd (isa_imm_U i))
         else if opcode = 0x6F then Some (JAL rd (isa_imm_J i))
         else if opcode = 0x67 \<and> f3 = 0 then Some (JALR rd rs1 (isa_imm_I i))
         else if opcode = 0x63 then map_option (\<lambda>b. Branch b rs1 rs2 (isa_imm_B i)) (decode_branch f3)
         else if opcode = 0x03 then map_option (\<lambda>l. Load l rd rs1 (isa_imm_I i)) (decode_load f3)
         else if opcode = 0x23 then map_option (\<lambda>st. Store st rs1 rs2 (isa_imm_S i)) (decode_store f3)
         else if opcode = 0x13 \<and> (f3 = 1 \<or> f3 = 5)
           then map_option (\<lambda>sh. Shift sh rd rs1 rs2) (decode_shift f3 f7)
         else if opcode = 0x13 then map_option (\<lambda>x. OpImm x rd rs1 (isa_imm_I i)) (decode_imm f3)
         else if opcode = 0x33 then map_option (\<lambda>x. Op x rd rs1 rs2) (decode_reg f3 f7)
         else if i = 0x00000073 then Some ECALL
         else None)"

text \<open>Fields as words: a shift and a mask.\<close>

lemma unat_take_drop: "unat (take_bit len (drop_bit lo i)) = field lo len i" for i :: u32
  unfolding unsigned_take_bit_eq unat_drop_bit_eq field_def
  by (simp add: take_bit_eq_mod drop_bit_eq_div)

lemma and_masks:
  "(w :: u32) AND 0x7F = take_bit 7 w" "w AND 0x1F = take_bit 5 w" "w AND 0x7 = take_bit 3 w"
  "w AND 3 = take_bit 2 w" "w AND 1 = take_bit 1 w"
  by (simp_all add: take_bit_eq_mask mask_eq_exp_minus_1)

lemma field_less: "field lo 5 i < 32"
  by (simp add: field_def)

section \<open>Execution\<close>

record isa =
  xregs :: "nat \<Rightarrow> i32"
  xpc :: u32
  xmem :: "i32 \<Rightarrow> u8"
  xin :: bytes
  xout :: bytes

datatype isa_result = Continue isa | Exit isa | Misaligned | Illegal

text \<open>Register 0 always reads 0; writes to it have no effect.\<close>

definition xget :: "isa \<Rightarrow> nat \<Rightarrow> i32" where
  "xget s r = (if r = 0 then 0 else xregs s r)"

definition xset :: "nat \<Rightarrow> i32 \<Rightarrow> isa \<Rightarrow> isa" where
  "xset r v s = s\<lparr>xregs := (xregs s)(r := (if r = 0 then 0 else v))\<rparr>"

definition xnext :: "isa \<Rightarrow> isa" where
  "xnext s = s\<lparr>xpc := xpc s + 4\<rparr>"

fun branch_holds :: "branch_op \<Rightarrow> i32 \<Rightarrow> i32 \<Rightarrow> bool" where
  "branch_holds BEQ a b = (uint a = uint b)"
| "branch_holds BNE a b = (uint a \<noteq> uint b)"
| "branch_holds BLT a b = (sint a < sint b)"
| "branch_holds BGE a b = (\<not> sint a < sint b)"
| "branch_holds BLTU a b = (uint a < uint b)"
| "branch_holds BGEU a b = (\<not> uint a < uint b)"

fun imm_result :: "imm_op \<Rightarrow> i32 \<Rightarrow> i32 \<Rightarrow> i32" where
  "imm_result ADDI a b = word_of_int (sint a + sint b)"
| "imm_result SLTI a b = (if sint a < sint b then 1 else 0)"
| "imm_result SLTIU a b = (if uint a < uint b then 1 else 0)"
| "imm_result XORI a b = a XOR b"
| "imm_result ORI a b = a OR b"
| "imm_result ANDI a b = a AND b"

fun shift_result :: "shift_op \<Rightarrow> i32 \<Rightarrow> nat \<Rightarrow> i32" where
  "shift_result SLLI a n = word_of_int (uint a * 2 ^ n)"
| "shift_result SRLI a n = word_of_int (uint a div 2 ^ n)"
| "shift_result SRAI a n = word_of_int (sint a div 2 ^ n)"

text \<open>Division rounds towards zero.\<close>

definition quotient :: "int \<Rightarrow> int \<Rightarrow> int" where
  "quotient a b = (if (a < 0) = (b < 0) then \<bar>a\<bar> div \<bar>b\<bar> else - (\<bar>a\<bar> div \<bar>b\<bar>))"

fun op_result :: "reg_op \<Rightarrow> i32 \<Rightarrow> i32 \<Rightarrow> i32" where
  "op_result ADD a b = word_of_int (sint a + sint b)"
| "op_result SUB a b = word_of_int (sint a - sint b)"
| "op_result SLL a b = word_of_int (uint a * 2 ^ nat (uint b mod 32))"
| "op_result SLT a b = (if sint a < sint b then 1 else 0)"
| "op_result SLTU a b = (if uint a < uint b then 1 else 0)"
| "op_result XOR_R a b = a XOR b"
| "op_result SRL a b = word_of_int (uint a div 2 ^ nat (uint b mod 32))"
| "op_result SRA a b = word_of_int (sint a div 2 ^ nat (uint b mod 32))"
| "op_result OR_R a b = a OR b"
| "op_result AND_R a b = a AND b"
| "op_result MUL a b = word_of_int (sint a * sint b)"
| "op_result MULH a b = word_of_int (sint a * sint b div 2 ^ 32)"
| "op_result MULHSU a b = word_of_int (sint a * uint b div 2 ^ 32)"
| "op_result MULHU a b = word_of_int (uint a * uint b div 2 ^ 32)"
| "op_result DIV a b = (if b = 0 then - 1 else word_of_int (quotient (sint a) (sint b)))"
| "op_result DIVU a b = (if b = 0 then - 1 else word_of_int (uint a div uint b))"
| "op_result REM a b =
     (if b = 0 then a else word_of_int (sint a - sint b * quotient (sint a) (sint b)))"
| "op_result REMU a b = (if b = 0 then a else word_of_int (uint a mod uint b))"

definition half_at :: "isa \<Rightarrow> i32 \<Rightarrow> int" where
  "half_at s a = uint (xmem s a) + 256 * uint (xmem s (a + 1))"

definition word_at :: "isa \<Rightarrow> i32 \<Rightarrow> int" where
  "word_at s a = half_at s a + 65536 * half_at s (a + 2)"

fun load_result :: "load_op \<Rightarrow> isa \<Rightarrow> i32 \<Rightarrow> i32 option" where
  "load_result LB s a = Some (word_of_int (sint (xmem s a)))"
| "load_result LBU s a = Some (word_of_int (uint (xmem s a)))"
| "load_result LH s a =
     (if uint a mod 2 = 0
      then Some (word_of_int (if half_at s a < 32768 then half_at s a else half_at s a - 65536)) else None)"
| "load_result LHU s a = (if uint a mod 2 = 0 then Some (word_of_int (half_at s a)) else None)"
| "load_result LW s a = (if uint a mod 4 = 0 then Some (word_of_int (word_at s a)) else None)"

definition octet :: "nat \<Rightarrow> i32 \<Rightarrow> u8" where
  "octet k v = word_of_int (uint v div 256 ^ k)"

fun store_result :: "store_op \<Rightarrow> isa \<Rightarrow> i32 \<Rightarrow> i32 \<Rightarrow> isa option" where
  "store_result SB s a v = Some (s\<lparr>xmem := (xmem s)(a := octet 0 v)\<rparr>)"
| "store_result SH s a v =
     (if uint a mod 2 = 0 then Some (s\<lparr>xmem := (xmem s)(a := octet 0 v, a + 1 := octet 1 v)\<rparr>)
      else None)"
| "store_result SW s a v =
     (if uint a mod 4 = 0
      then Some (s\<lparr>xmem := (xmem s)(a := octet 0 v, a + 1 := octet 1 v, a + 2 := octet 2 v, a + 3 := octet 3 v)\<rparr>)
      else None)"

text \<open>The environment: register 17 selects the call, register 10 carries its argument and result.\<close>

definition isa_ecall :: "isa \<Rightarrow> isa_result" where
  "isa_ecall s =
     (let call = xget s 17 in
      if call = 1 then
        (case xin s of
           [] \<Rightarrow> Continue (xnext (xset 10 (- 1) s))
         | c # cs \<Rightarrow> Continue (xnext (xset 10 (word_of_int (uint c)) (s\<lparr>xin := cs\<rparr>))))
      else if call = 2 then Continue (xnext (s\<lparr>xout := xout s @ [octet 0 (xget s 10)]\<rparr>))
      else if call = 3 \<or> call = 93 then Exit s
      else Continue (xnext s))"

fun isa_exec :: "instr \<Rightarrow> isa \<Rightarrow> isa_result" where
  "isa_exec (LUI rd imm) s = Continue (xnext (xset rd imm s))"
| "isa_exec (AUIPC rd imm) s = Continue (xnext (xset rd (xpc s + imm) s))"
| "isa_exec (JAL rd imm) s = Continue ((xset rd (xpc s + 4) s)\<lparr>xpc := xpc s + imm\<rparr>)"
| "isa_exec (JALR rd rs1 imm) s =
     (let t = xget s rs1 + imm in
      Continue ((xset rd (xpc s + 4) s)\<lparr>xpc := word_of_int (uint t - uint t mod 2)\<rparr>))"
| "isa_exec (Branch b rs1 rs2 imm) s =
     Continue (if branch_holds b (xget s rs1) (xget s rs2) then s\<lparr>xpc := xpc s + imm\<rparr> else xnext s)"
| "isa_exec (Load l rd rs1 imm) s =
     (case load_result l s (xget s rs1 + imm) of
        None \<Rightarrow> Misaligned | Some v \<Rightarrow> Continue (xnext (xset rd v s)))"
| "isa_exec (Store st rs1 rs2 imm) s =
     (case store_result st s (xget s rs1 + imm) (xget s rs2) of
        None \<Rightarrow> Misaligned | Some s' \<Rightarrow> Continue (xnext s'))"
| "isa_exec (OpImm x rd rs1 imm) s = Continue (xnext (xset rd (imm_result x (xget s rs1) imm) s))"
| "isa_exec (Shift x rd rs1 n) s = Continue (xnext (xset rd (shift_result x (xget s rs1) n) s))"
| "isa_exec (Op x rd rs1 rs2) s =
     Continue (xnext (xset rd (op_result x (xget s rs1) (xget s rs2)) s))"
| "isa_exec ECALL s = isa_ecall s"

definition isa_step :: "isa \<Rightarrow> isa_result" where
  "isa_step s =
     (if uint (xpc s) mod 4 \<noteq> 0 then Misaligned
      else case isa_decode (word_of_int (word_at s (xpc s))) of
             None \<Rightarrow> Illegal
           | Some i \<Rightarrow> isa_exec i s)"

end
