(* ===== verification/Simulate_Correct.thy ===== *)
theory Simulate_Correct
  imports Simulate Riscv_Spec
begin

text \<open>
  The simulator against the instruction set: immediates and fields, arithmetic, memory accesses
  and the whole step. \<open>diverges\<close> lists the instructions and operands on which the code does
  not do what the instruction set asks for; everywhere else one iteration of the loop is one
  instruction of the specification.
\<close>

section \<open>Fields and immediates\<close>

lemma sign_extend_unset:
  assumes "\<not> bit v (b - 1)"
  shows "sign_extend v b = v"
proof -
  have "v XOR 2 ^ (b - 1) = v + 2 ^ (b - 1)"
    using set_bit_eq [of "b - 1" v] flip_bit_eq_if [of "b - 1" v] flip_bit_eq_xor [of "b - 1" v] assms
    by simp
  then show ?thesis
    by (simp add: sign_extend_def push_bit_eq_mult)
qed

lemma sign_extend_set:
  assumes "bit v (b - 1)" "0 < b"
  shows "sign_extend v b = v - 2 ^ b"
proof -
  have "v XOR 2 ^ (b - 1) = v - 2 ^ (b - 1)"
    using unset_bit_eq [of "b - 1" v] flip_bit_eq_if [of "b - 1" v] flip_bit_eq_xor [of "b - 1" v] assms
    by simp
  moreover have "2 ^ b = 2 * (2 :: i32) ^ (b - 1)"
    using assms(2) by (cases b) auto
  ultimately show ?thesis
    by (simp add: sign_extend_def push_bit_eq_mult)
qed

lemma sign_extend_eq_signed_take_bit:
  assumes "take_bit b v = v" "0 < b"
  shows "sign_extend v b = signed_take_bit (b - 1) v"
proof (cases "bit v (b - 1)")
  case False
  have n: "n < b" if "bit v n" for n
    using that assms(1) by (metis bit_take_bit_iff)
  have "signed_take_bit (b - 1) v = v"
  proof (rule bit_word_eqI)
    fix k :: nat assume "k < LENGTH(32)"
    then show "bit (signed_take_bit (b - 1) v) k = bit v k"
      using False n [of k] assms(2) by (cases "k < b"; cases "k = b - 1") (auto simp: bit_simps min_def)
  qed
  with False show ?thesis by (simp add: sign_extend_unset)
next
  case True
  have n: "n < b" if "bit v n" for n
    using that assms(1) by (metis bit_take_bit_iff)
  have "v AND NOT (mask b) = 0"
    by (rule bit_word_eqI) (use n in \<open>auto simp: bit_simps\<close>)
  then have "v + NOT (mask b) = v OR NOT (mask b)"
    by (rule disjunctive_add_eq_or)
  moreover have "NOT (mask b) = - (2 ^ b :: i32)"
    by (simp add: minus_exp_eq_not_mask)
  moreover have "signed_take_bit (b - 1) v = v OR NOT (mask b)"
  proof (rule bit_word_eqI)
    fix k :: nat assume "k < LENGTH(32)"
    then show "bit (signed_take_bit (b - 1) v) k = bit (v OR NOT (mask b)) k"
      using True n [of k] assms(2)
      by (cases "k < b"; cases "k = b - 1") (auto simp: bit_simps min_def)
  qed
  ultimately show ?thesis
    using True assms by (simp add: sign_extend_set)
qed

lemma bit_sign_extend:
  assumes "take_bit b v = v" "0 < b"
  shows "bit (sign_extend v b) n \<longleftrightarrow> n < 32 \<and> bit v (min n (b - 1))"
  by (simp add: sign_extend_eq_signed_take_bit [OF assms] bit_signed_take_bit_iff min.commute)

lemma imm_eqs:
  "imm_I i = isa_imm_I i" "imm_S i = isa_imm_S i" "imm_B i = isa_imm_B i"
  "imm_U i = isa_imm_U i" "imm_J i = isa_imm_J i"
proof -
  have t: "take_bit 12 (drop_bit 20 i) = drop_bit 20 i"
    by (simp add: word32_eq_iff word_bits_less bit_simps)
  show "imm_I i = isa_imm_I i"
    by (simp add: imm_I_def isa_imm_I_def word32_eq_iff word_bits_less bit_sign_extend [OF t] bit_simps)
  let ?s = "push_bit 5 (drop_bit 25 i) OR (drop_bit 7 i AND 0x1F)"
  have t: "take_bit 12 ?s = ?s"
    by (simp add: word32_eq_iff word_bits_less bit_simps)
  show "imm_S i = isa_imm_S i"
    by (simp add: imm_S_def isa_imm_S_def Let_def word32_eq_iff word_bits_less bit_sign_extend [OF t]) (simp add: bit_simps word_bits_less)
  let ?b = "push_bit 12 (drop_bit 31 i AND 1) OR push_bit 11 (drop_bit 7 i AND 1) OR
        push_bit 5 (drop_bit 25 i AND 0x3F) OR push_bit 1 (drop_bit 8 i AND 0xF)"
  have t: "take_bit 13 ?b = ?b"
    by (simp add: word32_eq_iff word_bits_less bit_simps)
  show "imm_B i = isa_imm_B i"
    unfolding imm_B_def isa_imm_B_def Let_def word32_eq_iff bit_sign_extend [OF t zero_less_numeral]
    by (simp add: bit_simps word_bits_less bit_times_2)
  show "imm_U i = isa_imm_U i"
    by (simp add: imm_U_def isa_imm_U_def word32_eq_iff word_bits_less bit_simps)
  let ?j = "push_bit 20 (drop_bit 31 i AND 1) OR push_bit 1 (drop_bit 21 i AND 0x3FF) OR
        push_bit 11 (drop_bit 20 i AND 1) OR push_bit 12 (drop_bit 12 i AND 0xFF)"
  have t: "take_bit 21 ?j = ?j"
    by (simp add: word32_eq_iff word_bits_less bit_simps)
  show "imm_J i = isa_imm_J i"
    unfolding imm_J_def isa_imm_J_def Let_def word32_eq_iff bit_sign_extend [OF t zero_less_numeral]
    by (simp add: bit_simps word_bits_less bit_times_2)
qed

lemma unat_fields:
  "unat (get_opcode i) = field 0 7 i" "unat (get_rd i) = field 7 5 i" "unat (get_f3 i) = field 12 3 i"
  "unat (get_rs1 i) = field 15 5 i" "unat (get_rs2 i) = field 20 5 i" "unat (get_f7 i) = field 25 7 i"
  using unat_take_drop [of 7 0 i]
  by (simp_all only: field_defs and_masks unat_take_drop drop_bit_0 id_apply)

lemma fields_eq_iff:
  "get_opcode i = numeral k \<longleftrightarrow> field 0 7 i = unat (numeral k :: u32)"
  "get_f3 i = numeral k \<longleftrightarrow> field 12 3 i = unat (numeral k :: u32)"
  "get_f3 i = 0 \<longleftrightarrow> field 12 3 i = 0" "get_f3 i = 1 \<longleftrightarrow> field 12 3 i = 1"
  "get_f7 i = numeral k \<longleftrightarrow> field 25 7 i = unat (numeral k :: u32)"
  "get_f7 i = 1 \<longleftrightarrow> field 25 7 i = 1"
  "get_rd i = 0 \<longleftrightarrow> field 7 5 i = 0"
  by (auto simp: unat_fields [symmetric] word_unat_eq_iff)

section \<open>Arithmetic\<close>

lemma alu_word_eqs:
  "v + w = word_of_int (sint v + sint w)" "v - w = word_of_int (sint v - sint w)"
  "v * w = word_of_int (sint v * sint w)" for v w :: i32
  by simp_all

lemma shift_eqs:
  "push_bit n v = word_of_int (uint v * 2 ^ n)"
  "drop_bit n v = word_of_int (uint v div 2 ^ n)"
  "signed_drop_bit n v = word_of_int (sint v div 2 ^ n)" for v :: i32
proof -
  show "push_bit n v = word_of_int (uint v * 2 ^ n)"
    by (simp add: push_bit_eq_mult)
  have "int (unat (drop_bit n v)) = int (unat v div 2 ^ n)"
    unfolding unat_drop_bit_eq by (simp add: drop_bit_eq_div)
  then have "uint (drop_bit n v) = uint v div 2 ^ n"
    by (simp add: zdiv_int)
  then show "drop_bit n v = word_of_int (uint v div 2 ^ n)"
    by (metis word_of_int_uint)
  have "sint (signed_drop_bit n v) = sint v div 2 ^ n"
    by (simp add: sint_signed_drop_bit_eq drop_bit_eq_div)
  then show "signed_drop_bit n v = word_of_int (sint v div 2 ^ n)"
    by (metis of_int_sint scast_id)
qed

lemma low_five: "unat (v AND 0x1F) = nat (uint v mod 32)" for v :: u32
  unfolding and_masks unsigned_take_bit_eq by (simp add: take_bit_eq_mod nat_mod_distrib)

lemma sint_product: "sint (scast v * scast w :: u64) = sint v * sint w" for v w :: i32
proof -
  have b: "- (2 ^ 31) \<le> sint x" "sint x < 2 ^ 31" for x :: i32
    using sint_range_size [of x] by (simp_all add: word_size)
  have "\<bar>sint v\<bar> \<le> 2 ^ 31" "\<bar>sint w\<bar> \<le> 2 ^ 31"
    using b [of v] b [of w] by auto
  then have "\<bar>sint v * sint w\<bar> \<le> 2 ^ 31 * 2 ^ 31"
    unfolding abs_mult by (rule mult_mono) auto
  then have "- (2 ^ 63) \<le> sint v * sint w \<and> sint v * sint w < 2 ^ 63"
    by auto
  then have "signed_take_bit 63 (sint v * sint w) = sint v * sint w"
    by (intro signed_take_bit_int_eq_self) auto
  moreover have "(scast v * scast w :: u64) = word_of_int (sint v * sint w)"
    by simp
  moreover have "sint (word_of_int k :: u64) = signed_take_bit 63 k" for k
    by (simp add: sint_sbintrunc')
  ultimately show ?thesis by metis
qed

lemma high_half:
  "ucast (signed_drop_bit 32 (scast v * scast w :: u64)) = (word_of_int (sint v * sint w div 2 ^ 32) :: i32)"
  "(ucast (drop_bit 32 (scast v * scast w :: u64)) :: i32) = ucast (signed_drop_bit 32 (scast v * scast w :: u64))"
  for v w :: i32
proof -
  let ?p = "scast v * scast w :: u64"
  have "sint (signed_drop_bit 32 ?p) = sint v * sint w div 2 ^ 32"
    by (simp add: sint_signed_drop_bit_eq drop_bit_eq_div sint_product)
  then have "(scast (signed_drop_bit 32 ?p) :: i32) = word_of_int (sint v * sint w div 2 ^ 32)"
    by (metis of_int_sint)
  moreover have "(scast x :: i32) = ucast x" for x :: u64
    by (simp add: word32_eq_iff bit_simps)
  ultimately show "ucast (signed_drop_bit 32 ?p) = (word_of_int (sint v * sint w div 2 ^ 32) :: i32)"
    by simp
  show "(ucast (drop_bit 32 ?p) :: i32) = ucast (signed_drop_bit 32 ?p)"
    by (simp add: word32_eq_iff bit_simps)
qed

lemma uint_nonneg_sint: "0 \<le> sint w \<Longrightarrow> uint w = sint w" for w :: i32
  using sint_range_size [of w] by (simp add: uint_sint take_bit_int_eq_self word_size)

lemma quotient_trunc_div: "b \<noteq> 0 \<Longrightarrow> trunc_div a b = quotient a b"
  by (auto simp: trunc_div_def quotient_def sgn_if)

lemma unsigned_div_eqs:
  "v div w = word_of_int (uint v div uint w)" "v mod w = word_of_int (uint v mod uint w)" for v w :: u32
  by (simp_all add: word_div_def word_mod_def)

lemma aligned_iff:
  "a AND 3 = 0 \<longleftrightarrow> uint a mod 4 = 0" "a AND 1 = 0 \<longleftrightarrow> uint a mod 2 = 0" for a :: u32
proof -
  have "uint (take_bit 2 a) = uint a mod 4" "uint (take_bit 1 a) = uint a mod 2"
    unfolding unsigned_take_bit_eq by (simp_all add: take_bit_eq_mod)
  then show "a AND 3 = 0 \<longleftrightarrow> uint a mod 4 = 0" "a AND 1 = 0 \<longleftrightarrow> uint a mod 2 = 0"
    by (metis uint_0_iff and_masks(4), metis uint_0_iff and_masks(5))
qed

lemma clear_bit0: "t AND NOT 1 = word_of_int (uint t - uint t mod 2)" for t :: u32
proof -
  have "t = (t AND NOT 1) OR (t AND 1)"
    by (simp add: word32_eq_iff word_bits_less bit_simps)
  also have "\<dots> = (t AND NOT 1) + (t AND 1)"
    by (rule disjunctive_add_eq_or [symmetric]) (simp add: word32_eq_iff word_bits_less bit_simps)
  finally have "t AND NOT 1 = t - (t AND 1)" by (simp add: algebra_simps)
  moreover have "word_of_int (uint t mod 2) = t AND 1"
    unfolding and_masks by (metis unsigned_take_bit_eq take_bit_eq_mod power_one_right word_of_int_uint)
  ultimately show ?thesis by simp
qed

section \<open>Memory accesses\<close>

definition abs_sim :: "sim \<Rightarrow> isa" where
  "abs_sim s = \<lparr>xregs = (\<lambda>r. regs s ! r), xpc = pc s, xmem = flat (mem s),
                xin = stdin s, xout = stdout s\<rparr>"

definition wf_sim :: "sim \<Rightarrow> bool" where
  "wf_sim s \<longleftrightarrow> length (regs s) = 32 \<and> regs s ! 0 = 0"

lemma abs_sim_sel [simp]:
  "xregs (abs_sim s) = (\<lambda>r. regs s ! r)" "xpc (abs_sim s) = pc s" "xmem (abs_sim s) = flat (mem s)"
  "xin (abs_sim s) = stdin s" "xout (abs_sim s) = stdout s"
  by (simp_all add: abs_sim_def)

lemma xget_abs: "wf_sim s \<Longrightarrow> xget (abs_sim s) r = regs s ! r"
  by (simp add: xget_def wf_sim_def)

lemma octet_byte_of: "octet k v = byte_of k v"
proof -
  have "drop_bit (8 * k) v = word_of_int (uint v div 256 ^ k)"
    by (simp add: shift_eqs power_mult)
  then have "byte_of k v = ucast (word_of_int (uint v div 256 ^ k) :: i32)"
    by (simp only: byte_of_def)
  also have "\<dots> = octet k v"
    by (simp add: octet_def word8_eq_iff bit_simps)
  finally show ?thesis by simp
qed

lemma word_at_abs:
  "word_of_int (word_at (abs_sim s) a) =
     join32 (flat (mem s) a) (flat (mem s) (a + 1)) (flat (mem s) (a + 2)) (flat (mem s) (a + 3))"
  by (simp only: join32_word_at word_at_def half_at_def abs_sim_sel add.assoc) simp

lemma join16_word_of_int: "join16 b0 b1 = word_of_int (uint b0 + 256 * uint b1)"
proof -
  have "join16 b0 b1 = ucast b0 + push_bit 8 (ucast b1)" unfolding join16_def
    by (rule disjunctive_add_eq_or [symmetric]) (simp add: word32_eq_iff word_bits_less bit_simps)
  then show ?thesis by (simp add: push_bit_eq_mult algebra_simps)
qed

lemma half_range: "0 \<le> half_at s a" "half_at s a < 65536"
proof -
  have "0 \<le> uint b" "uint b < 256" for b :: u8
    using uint_range_size [of b] by (simp_all add: word_size)
  then have "0 \<le> uint (xmem s a)" "uint (xmem s a) \<le> 255" "0 \<le> uint (xmem s (a + 1))" "uint (xmem s (a + 1)) \<le> 255"
    by (auto simp: zle_diff1_eq [symmetric])
  then show "0 \<le> half_at s a" "half_at s a < 65536"
    by (auto simp: half_at_def)
qed

lemma half_extensions:
  fixes h :: int
  assumes "0 \<le> h" "h < 65536"
  shows "ucast (ucast (word_of_int h :: i32) :: u16) = (word_of_int h :: i32)"
    and "scast (ucast (word_of_int h :: i32) :: u16) = (word_of_int (if h < 32768 then h else h - 65536) :: i32)"
proof -
  have u: "(ucast (word_of_int h :: i32) :: u16) = word_of_int h"
    by (simp add: word16_eq_iff bit_simps)
  have "uint (word_of_int h :: u16) = h"
    using assms by (simp add: unsigned_of_int take_bit_int_eq_self)
  then show "ucast (ucast (word_of_int h :: i32) :: u16) = (word_of_int h :: i32)"
    unfolding u by (metis of_int_uint)
  have "sint (word_of_int h :: u16) = signed_take_bit 15 h"
    by (simp add: sint_sbintrunc')
  also have "\<dots> = (if h < 32768 then h else h - 65536)"
  proof -
    have "(h + 32768) mod 65536 = h - 32768" if "\<not> h < 32768"
      using assms that mod_pos_pos_trivial [of "h - 32768" 65536] mod_add_self2 [of "h - 32768" 65536]
      by (simp add: add.commute)
    then show ?thesis
    using assms by (auto simp: signed_take_bit_int_eq_self signed_take_bit_eq_take_bit_shift take_bit_eq_mod)
  qed
  finally have s: "sint (word_of_int h :: u16) = (if h < 32768 then h else h - 65536)" .
  have "(scast (word_of_int h :: u16) :: i32) = word_of_int (sint (word_of_int h :: u16))"
    by (rule of_int_sint [symmetric])
  then show "scast (ucast (word_of_int h :: i32) :: u16) = (word_of_int (if h < 32768 then h else h - 65536) :: i32)"
    unfolding u s .
qed

lemma byte_extensions:
  "scast (ucast (ucast b :: i32) :: u8) = (word_of_int (sint b) :: i32)"
  "ucast (ucast (ucast b :: i32) :: u8) = (word_of_int (uint b) :: i32)" for b :: u8
  by simp_all

section \<open>One instruction\<close>

text \<open>Where the code departs from the instruction set.\<close>

fun diverges :: "instr \<Rightarrow> isa \<Rightarrow> bool" where
  "diverges (Op MULHSU rd rs1 rs2) s = (sint (xget s rs2) < 0)"
| "diverges (Op MULHU rd rs1 rs2) s = (sint (xget s rs1) < 0 \<or> sint (xget s rs2) < 0)"
| "diverges (Op DIV rd rs1 rs2) s = sdiv_traps (xget s rs1) (xget s rs2)"
| "diverges (Op REM rd rs1 rs2) s = sdiv_traps (xget s rs1) (xget s rs2)"
| "diverges (Op DIVU rd rs1 rs2) s = (xget s rs2 = 0)"
| "diverges (Op REMU rd rs1 rs2) s = (xget s rs2 = 0)"
| "diverges _ s = False"

definition refines :: "sim_error + sim \<times> bool \<Rightarrow> isa_result \<Rightarrow> bool" where
  "refines r x =
     (case r of
        Inl e \<Rightarrow> x = Misaligned \<and> (\<exists>m. e = MemError m)
      | Inr (s', stop) \<Rightarrow> wf_sim s' \<and> x = (if stop then Exit (abs_sim s') else Continue (abs_sim s')))"

lemma refines_simps [simp]:
  "refines (Inl e) x \<longleftrightarrow> x = Misaligned \<and> (\<exists>m. e = MemError m)"
  "refines (Inr (s', stop)) x \<longleftrightarrow> wf_sim s' \<and> x = (if stop then Exit (abs_sim s') else Continue (abs_sim s'))"
  by (simp_all add: refines_def)

lemma log_insn_sel [simp]:
  "regs (log_insn l a i c s) = regs s" "pc (log_insn l a i c s) = pc s" "mem (log_insn l a i c s) = mem s"
  "stdin (log_insn l a i c s) = stdin s" "stdout (log_insn l a i c s) = stdout s"
  by (simp_all add: log_insn_def)

lemma set_reg_sel [simp]:
  "regs (set_reg rd v s) = (regs s)[unat rd := v]" "pc (set_reg rd v s) = pc s" "mem (set_reg rd v s) = mem s"
  "stdin (set_reg rd v s) = stdin s" "stdout (set_reg rd v s) = stdout s"
  by (simp_all add: set_reg_def)

lemma isa_eqI:
  "xregs a = xregs b \<Longrightarrow> xpc a = xpc b \<Longrightarrow> xmem a = xmem b \<Longrightarrow> xin a = xin b \<Longrightarrow> xout a = xout b \<Longrightarrow> (a :: isa) = b"
  by simp

lemma xset_sel [simp]:
  "xregs (xset r v s) = (xregs s)(r := (if r = 0 then 0 else v))" "xpc (xset r v s) = xpc s"
  "xmem (xset r v s) = xmem s" "xin (xset r v s) = xin s" "xout (xset r v s) = xout s"
  by (simp_all add: xset_def)

lemma xnext_sel [simp]:
  "xregs (xnext s) = xregs s" "xpc (xnext s) = xpc s + 4"
  "xmem (xnext s) = xmem s" "xin (xnext s) = xin s" "xout (xnext s) = xout s"
  by (simp_all add: xnext_def)

text \<open>The shape of every instruction that writes one register.\<close>

lemma reg_write_abs:
  assumes "wf_sim s" "r < 32"
  shows "(\<lambda>k. (regs s)[r := v, 0 := 0] ! k) = (\<lambda>k. regs s ! k)(r := (if r = 0 then 0 else v))"
proof
  fix k
  from assms have l: "length (regs s) = 32" and z: "regs s ! 0 = 0" by (simp_all add: wf_sim_def)
  show "(regs s)[r := v, 0 := 0] ! k = ((\<lambda>k. regs s ! k)(r := (if r = 0 then 0 else v))) k"
    using l z assms(2) by (cases "k = 0"; cases "k = r") simp_all
qed

lemma wf_abs_reg_write:
  assumes "wf_sim s" "r < 32"
    and "regs s' = (regs s)[r := v, 0 := 0]" "pc s' = xpc x" "flat (mem s') = xmem x" "stdin s' = xin x" "stdout s' = xout x"
    and "xregs x = (\<lambda>k. regs s ! k)(r := (if r = 0 then 0 else v))"
  shows "wf_sim s' \<and> x = abs_sim s'"
proof -
  have "wf_sim s'"
    using assms(1,3) by (simp add: wf_sim_def)
  moreover have "x = abs_sim s'"
    by (rule isa_eqI) (use assms(4-8) in \<open>simp_all only: abs_sim_sel assms(3) reg_write_abs [OF assms(1,2)]\<close>)
  ultimately show ?thesis by simp
qed

lemma wf_abs_no_write:
  assumes "wf_sim s"
    and "regs s' = (regs s)[0 := 0]" "pc s' = xpc x" "flat (mem s') = xmem x" "stdin s' = xin x" "stdout s' = xout x"
    and "xregs x = (\<lambda>k. regs s ! k)"
  shows "wf_sim s' \<and> x = abs_sim s'"
proof -
  have e: "(regs s)[0 := 0] = regs s"
    using assms(1) by (metis list_update_id wf_sim_def)
  then have "wf_sim s'" using assms(1,2) by (simp add: wf_sim_def)
  moreover have "x = abs_sim s'"
    by (rule isa_eqI) (use assms(3-7) in \<open>simp_all add: assms(2) e\<close>)
  ultimately show ?thesis by simp
qed

lemmas step_defs = exec_inst_def exec_control_def exec_data_def fields_eq_iff unat_fields Let_def imm_eqs

lemma refines_LUI:
  assumes "wf_sim s" "field 0 7 i = 0x37"
  shows "refines (exec_inst logging i s) (isa_exec (LUI (field 7 5 i) (isa_imm_U i)) (abs_sim s))"
  using assms
  by (simp add: step_defs) (rule wf_abs_reg_write [OF assms(1) field_less [of 7 i]], simp_all)

lemma refines_AUIPC:
  assumes "wf_sim s" "field 0 7 i = 0x17"
  shows "refines (exec_inst logging i s) (isa_exec (AUIPC (field 7 5 i) (isa_imm_U i)) (abs_sim s))"
  using assms
  by (simp add: step_defs) (rule wf_abs_reg_write [OF assms(1) field_less [of 7 i]], simp_all)

lemma refines_JAL:
  assumes "wf_sim s" "field 0 7 i = 0x6F"
  shows "refines (exec_inst logging i s) (isa_exec (JAL (field 7 5 i) (isa_imm_J i)) (abs_sim s))"
  using assms
  by (simp add: step_defs) (rule wf_abs_reg_write [OF assms(1) field_less [of 7 i]], simp_all)

lemma clear_bit0': "t AND - 2 = t - word_of_int (uint t mod 2)" for t :: u32
  using clear_bit0 [of t] by simp

lemma refines_JALR:
  assumes "wf_sim s" "field 0 7 i = 0x67"
  shows "refines (exec_inst logging i s) (isa_exec (JALR (field 7 5 i) (field 15 5 i) (isa_imm_I i)) (abs_sim s))"
  using assms
  by (simp add: step_defs xget_abs clear_bit0') (rule wf_abs_reg_write [OF assms(1) field_less [of 7 i]], simp_all)

lemma branch_holds_alt:
  "branch_holds BEQ a b = (a = b)" "branch_holds BNE a b = (a \<noteq> b)"
  "branch_holds BLTU a b = (a < b)" "branch_holds BGEU a b = (a \<ge> b)" "branch_holds BGE a b = (sint a \<ge> sint b)"
  by (simp_all add: word_less_def word_le_def not_less word_uint_eq_iff)

lemma branch_taken_eq:
  assumes "decode_branch (field 12 3 i) = Some b"
  shows "branch_taken (get_f3 i) v1 v2 = branch_holds b v1 v2"
  using assms
  by (auto simp: branch_taken_def fields_eq_iff decode_branch_def branch_holds_alt
      simp del: branch_holds.simps(1,2,4-6) split: if_splits)

lemma refines_Branch:
  assumes "wf_sim s" "field 0 7 i = 0x63" "decode_branch (field 12 3 i) = Some b"
  shows "refines (exec_inst logging i s) (isa_exec (Branch b (field 15 5 i) (field 20 5 i) (isa_imm_B i)) (abs_sim s))"
  using assms
  by (cases "branch_holds b (regs s ! field 15 5 i) (regs s ! field 20 5 i)";
      simp add: step_defs xget_abs branch_taken_eq)
    (rule wf_abs_no_write [OF assms(1)]; simp)+

lemma abs_log_insn [simp]: "abs_sim (log_insn l a i c s) = abs_sim s"
  by (simp add: abs_sim_def)

text \<open>What a load does to the state when it succeeds, and when it does not.\<close>

lemma exec_load_cases:
  assumes "decode_load (field 12 3 i) = Some l" and a_def: "a = v + isa_imm_I i"
  obtains e where "exec_load logging i v s = Inl (MemError e)" "load_result l (abs_sim s) a = None"
  | s' x where "exec_load logging i v s = Inr s'" "load_result l (abs_sim s) a = Some x"
      "regs s' = (regs s)[field 7 5 i := x]" "flat (mem s') = flat (mem s)"
      "stdin s' = stdin s" "stdout s' = stdout s" "pc s' = pc s"
proof -
  let ?h = "half_at (abs_sim s) a"
  have h: "memory_rd_h (mem s) a = Inr (m, x) \<Longrightarrow> x = word_of_int ?h \<and> flat m = flat (mem s)" for m x
    using memory_rd_h_flat [of "mem s" a] by (auto simp: join16_word_of_int half_at_def)
  have w: "memory_rd_w (mem s) a = Inr (m, x) \<Longrightarrow> x = word_of_int (word_at (abs_sim s) a) \<and> flat m = flat (mem s)" for m x
    using memory_rd_w_flat [of "mem s" a] word_at_abs by auto
  note defs = exec_load_def fields_eq_iff unat_fields Let_def imm_eqs a_def [symmetric] split_def
  consider "l = LB" "field 12 3 i = 0" | "l = LH" "field 12 3 i = 1" | "l = LW" "field 12 3 i = 2"
    | "l = LBU" "field 12 3 i = 4" | "l = LHU" "field 12 3 i = 5"
    using assms(1) by (auto simp: decode_load_def split: if_splits)
  then show ?thesis
  proof cases
    case 1
    then show ?thesis
      using that by (auto simp: defs memory_rd_b_flat byte_extensions)
  next
    case 2
    then show ?thesis
      using memory_rd_h_ok [of "mem s" a] half_extensions [OF half_range [of "abs_sim s" a]] h that
      by (cases "memory_rd_h (mem s) a") (auto simp: defs aligned_iff)
  next
    case 3
    then show ?thesis
      using memory_rd_w_ok [of "mem s" a] w that
      by (cases "memory_rd_w (mem s) a") (auto simp: defs aligned_iff)
  next
    case 4
    then show ?thesis
      using that by (auto simp: defs memory_rd_b_flat byte_extensions)
  next
    case 5
    then show ?thesis
      using memory_rd_h_ok [of "mem s" a] half_extensions [OF half_range [of "abs_sim s" a]] h that
      by (cases "memory_rd_h (mem s) a") (auto simp: defs aligned_iff)
  qed
qed

lemma refines_Load:
  assumes "wf_sim s" "field 0 7 i = 0x03" "decode_load (field 12 3 i) = Some l"
  shows "refines (exec_inst logging i s) (isa_exec (Load l (field 7 5 i) (field 15 5 i) (isa_imm_I i)) (abs_sim s))"
proof -
  let ?c = "\<lparr>next_pc = pc s + 4, is_branch = False, taken = False, branch_target = 0\<rparr>"
  let ?s = "log_insn logging (pc s) i ?c s"
  show ?thesis
    using assms
    by (cases rule: exec_load_cases [OF assms(3) refl, of logging "regs s ! field 15 5 i" ?s])
      (simp add: step_defs xget_abs, simp add: step_defs xget_abs,
       rule wf_abs_reg_write [OF assms(1) field_less [of 7 i]], simp_all)
qed

lemma refines_OpImm:
  assumes "wf_sim s" "field 0 7 i = 0x13" "decode_imm (field 12 3 i) = Some x"
  shows "refines (exec_inst logging i s) (isa_exec (OpImm x (field 7 5 i) (field 15 5 i) (isa_imm_I i)) (abs_sim s))"
proof -
  have "alu_imm i v = Some (imm_result x v (isa_imm_I i))" for v
    using assms(3)
    by (auto simp: alu_imm_def fields_eq_iff decode_imm_def imm_eqs Let_def bool_word_def word_less_def
      split: if_splits)
  with assms(1,2) show ?thesis
    by (simp add: step_defs xget_abs write_back_def)
      (rule wf_abs_reg_write [OF assms(1) field_less [of 7 i]], simp_all)
qed

lemma bit30_f7: "drop_bit 30 i AND 1 = drop_bit 5 (get_f7 i) AND 1"
  by (simp add: get_f7_def word32_eq_iff word_bits_less bit_simps)

lemma shift_result_alt:
  "shift_result SLLI v n = push_bit n v" "shift_result SRLI v n = drop_bit n v"
  "shift_result SRAI v n = signed_drop_bit n v"
  by (simp_all only: shift_eqs shift_result.simps)

lemma refines_Shift:
  assumes "wf_sim s" "field 0 7 i = 0x13" "decode_shift (field 12 3 i) (field 25 7 i) = Some x"
  shows "refines (exec_inst logging i s) (isa_exec (Shift x (field 7 5 i) (field 15 5 i) (field 20 5 i)) (abs_sim s))"
proof -
  have sh: "unat (drop_bit 20 i AND 0x1F) = field 20 5 i"
    by (simp only: and_masks unat_take_drop)
  have f7: "get_f7 i = 0" if "field 25 7 i = 0"
    using that by (simp add: unat_fields [symmetric] unat_eq_0)
  have f7': "drop_bit 5 (get_f7 i) AND 1 = 1" if "field 25 7 i = 0x20"
  proof -
    from that have "get_f7 i = 0x20" by (simp add: fields_eq_iff)
    then show ?thesis by simp
  qed
  have "alu_imm i v = Some (shift_result x v (field 20 5 i))" for v
    using assms(3) f7 f7'
    by (auto simp: alu_imm_def sh fields_eq_iff decode_shift_def Let_def shift_result_alt bit30_f7
      simp del: shift_result.simps split: if_splits)
  with assms(1,2) show ?thesis
    by (simp add: step_defs xget_abs write_back_def)
      (rule wf_abs_reg_write [OF assms(1) field_less [of 7 i]], simp_all)
qed

lemma exec_store_cases:
  assumes "decode_store (field 12 3 i) = Some st" and a_def: "a = v + isa_imm_S i"
  obtains e where "exec_store logging i v w s = Inl (MemError e)" "store_result st (abs_sim s) a w = None"
  | s' x where "exec_store logging i v w s = Inr s'" "store_result st (abs_sim s) a w = Some x"
      "regs s' = regs s" "flat (mem s') = xmem x" "xregs x = (\<lambda>k. regs s ! k)" "xin x = stdin s" "xout x = stdout s"
      "xpc x = pc s" "stdin s' = stdin s" "stdout s' = stdout s" "pc s' = pc s"
proof -
  note defs = exec_store_def fields_eq_iff unat_fields Let_def imm_eqs a_def [symmetric] split_def
  consider "st = SB" "field 12 3 i = 0" | "st = SH" "field 12 3 i = 1" | "st = SW" "field 12 3 i = 2"
    using assms(1) by (auto simp: decode_store_def split: if_splits)
  then show ?thesis
  proof cases
    case 1
    then show ?thesis
      using that by (auto simp: defs mem_simps octet_byte_of byte_of_def)
  next
    case 2
    show ?thesis
    proof (cases "memory_wr_h (mem s) a w")
      case (Inl e)
      with 2 have "exec_store logging i v w s = Inl (MemError e)" by (simp add: defs)
      moreover from 2 Inl have "store_result st (abs_sim s) a w = None"
        by (simp add: memory_wr_h_ok aligned_iff)
      ultimately show ?thesis by (rule that(1))
    next
      case (Inr m)
      let ?s = "s\<lparr>mem := m, log := (if logging then log s @ [LogStore a w] else log s)\<rparr>"
      from 2 Inr have "exec_store logging i v w s = Inr ?s" by (simp add: defs)
      moreover from 2 memory_wr_h_ok(2) [OF Inr] have "store_result st (abs_sim s) a w = Some ((abs_sim s)\<lparr>xmem := flat m\<rparr>)"
        by (simp add: aligned_iff flat_wr_h [OF Inr] octet_byte_of)
      ultimately show ?thesis by (rule that(2)) simp_all
    qed
  next
  case 3
    show ?thesis
    proof (cases "memory_wr_w (mem s) a w")
      case (Inl e)
      with 3 have "exec_store logging i v w s = Inl (MemError e)" by (simp add: defs)
      moreover from 3 Inl have "store_result st (abs_sim s) a w = None"
        by (simp add: memory_wr_w_ok aligned_iff)
      ultimately show ?thesis by (rule that(1))
    next
      case (Inr m)
      let ?s = "s\<lparr>mem := m, log := (if logging then log s @ [LogStore a w] else log s)\<rparr>"
      from 3 Inr have "exec_store logging i v w s = Inr ?s" by (simp add: defs)
      moreover from 3 memory_wr_w_ok(2) [OF Inr] have "store_result st (abs_sim s) a w = Some ((abs_sim s)\<lparr>xmem := flat m\<rparr>)"
        by (simp add: aligned_iff flat_wr_w [OF Inr] octet_byte_of)
      ultimately show ?thesis by (rule that(2)) simp_all
    qed
  qed
qed

lemma refines_Store:
  assumes "wf_sim s" "field 0 7 i = 0x23" "decode_store (field 12 3 i) = Some st"
  shows "refines (exec_inst logging i s) (isa_exec (Store st (field 15 5 i) (field 20 5 i) (isa_imm_S i)) (abs_sim s))"
proof -
  let ?c = "\<lparr>next_pc = pc s + 4, is_branch = False, taken = False, branch_target = 0\<rparr>"
  let ?s = "log_insn logging (pc s) i ?c s"
  show ?thesis
    using assms
    by (cases rule: exec_store_cases [OF assms(3) refl, of logging "regs s ! field 15 5 i" "regs s ! field 20 5 i" ?s])
      (simp add: step_defs xget_abs, simp add: step_defs xget_abs,
       rule wf_abs_no_write [OF assms(1)], simp_all)
qed

lemma op_result_alt:
  "op_result ADD a b = a + b" "op_result SUB a b = a - b" "op_result MUL a b = a * b"
  "op_result SLTU a b = bool_word (a < b)" "op_result SLT a b = bool_word (sint a < sint b)"
  "b \<noteq> 0 \<Longrightarrow> op_result DIVU a b = a div b" "b \<noteq> 0 \<Longrightarrow> op_result REMU a b = a mod b"
  by (simp_all add: bool_word_def word_less_def word_div_def word_mod_def)

lemma op_result_shift:
  "op_result SLL a b = push_bit (unat (b AND 0x1F)) a" "op_result SRL a b = drop_bit (unat (b AND 0x1F)) a"
  "op_result SRA a b = signed_drop_bit (unat (b AND 0x1F)) a"
  by (simp_all only: shift_eqs low_five op_result.simps)

lemma op_result_div:
  assumes "\<not> sdiv_traps a b"
  shows "op_result DIV a b = word_of_int (trunc_div (sint a) (sint b))"
    and "op_result REM a b = word_of_int (trunc_mod (sint a) (sint b))"
proof -
  have "b \<noteq> 0" using assms by (auto simp: sdiv_traps_def)
  moreover from this have "sint b \<noteq> 0" by (metis of_int_0 of_int_sint scast_id)
  ultimately show "op_result DIV a b = word_of_int (trunc_div (sint a) (sint b))"
    and "op_result REM a b = word_of_int (trunc_mod (sint a) (sint b))"
    by (simp_all only: op_result.simps quotient_trunc_div trunc_mod_def simp_thms if_False)
qed

lemma op_result_high:
  "op_result MULH a b = ucast (signed_drop_bit 32 (scast a * scast b :: u64))"
  "0 \<le> sint b \<Longrightarrow> op_result MULHSU a b = ucast (drop_bit 32 (scast a * scast b :: u64))"
  "0 \<le> sint a \<Longrightarrow> 0 \<le> sint b \<Longrightarrow> op_result MULHU a b = ucast (drop_bit 32 (scast a * scast b :: u64))"
  by (simp_all only: high_half op_result.simps uint_nonneg_sint)

lemmas op_result_eqs = op_result_alt op_result_shift op_result_div op_result_high

lemma refines_Op:
  assumes "wf_sim s" "field 0 7 i = 0x33" "decode_reg (field 12 3 i) (field 25 7 i) = Some x"
    and "\<not> diverges (Op x (field 7 5 i) (field 15 5 i) (field 20 5 i)) (abs_sim s)"
  shows "refines (exec_inst logging i s) (isa_exec (Op x (field 7 5 i) (field 15 5 i) (field 20 5 i)) (abs_sim s))"
proof -
  let ?v = "regs s ! field 15 5 i" and ?w = "regs s ! field 20 5 i"
  have "alu_reg i ?v ?w = Inr (Some (op_result x ?v ?w))"
    using assms(3,4)
    by (auto simp: alu_reg_def fields_eq_iff decode_reg_def Let_def op_result_eqs xget_abs [OF assms(1)]
      simp del: op_result.simps(1-5,7,8,11-18) split: if_splits)
  with assms(1,2) show ?thesis
    by (simp add: step_defs xget_abs write_back_def del: op_result.simps)
      (rule wf_abs_reg_write [OF assms(1) field_less [of 7 i]], simp_all del: op_result.simps)
qed

lemma refines_ECALL:
  assumes "wf_sim s" "i = 0x73"
  shows "refines (exec_inst logging i s) (isa_exec ECALL (abs_sim s))"
proof -
  have f: "field 0 7 i = 0x73" by (simp add: assms(2) field_def)
  let ?c = "\<lparr>next_pc = pc s + 4, is_branch = False, taken = False, branch_target = 0\<rparr>"
  consider "regs s ! 17 = 1" | "regs s ! 17 = 2" | "regs s ! 17 = 3 \<or> regs s ! 17 = 93"
    | "regs s ! 17 \<noteq> 1" "regs s ! 17 \<noteq> 2" "regs s ! 17 \<noteq> 3" "regs s ! 17 \<noteq> 93" by blast
  then show ?thesis
  proof cases
    case 1
    then show ?thesis
      using assms(1) f
      by (cases "stdin s"; simp add: step_defs xget_abs handle_ecall_def isa_ecall_def)
        (rule wf_abs_reg_write [OF assms(1), of 10]; simp)+
  next
    case 2
    then show ?thesis
      using assms(1) f
      by (simp add: step_defs xget_abs handle_ecall_def isa_ecall_def)
        (rule wf_abs_no_write [OF assms(1)], simp_all add: octet_byte_of byte_of_def)
  next
    case 3
    then show ?thesis
      using assms(1) f
      by (auto simp: step_defs xget_abs handle_ecall_def isa_ecall_def wf_sim_def)
  next
    case 4
    then show ?thesis
      using assms(1) f
      by (simp add: step_defs xget_abs handle_ecall_def isa_ecall_def)
        (rule wf_abs_no_write [OF assms(1)], simp_all)
  qed
qed

lemma refines_exec:
  assumes "wf_sim s" "isa_decode i = Some x" "\<not> diverges x (abs_sim s)"
  shows "refines (exec_inst logging i s) (isa_exec x (abs_sim s))"
  using assms
  by (auto simp: isa_decode_def Let_def simp del: isa_exec.simps split: if_splits
      intro: refines_LUI refines_AUIPC refines_JAL refines_JALR refines_Branch refines_Load refines_Store
        refines_Shift refines_OpImm refines_Op refines_ECALL)

section \<open>The whole step\<close>

lemma refines_fetch:
  assumes "wf_sim s" "memory_rd_w (mem s) (pc s) = Inr (m, i)"
  shows "abs_sim (s\<lparr>mem := m, insns := n\<rparr>) = abs_sim s" "wf_sim (s\<lparr>mem := m, insns := n\<rparr>)"
    "i = word_of_int (word_at (abs_sim s) (pc s))" "uint (pc s) mod 4 = 0"
  using assms memory_rd_w_flat [OF assms(2)] memory_rd_w_ok(1) [of "mem s" "pc s"]
  by (simp_all only: word_at_abs) (auto simp: abs_sim_def wf_sim_def aligned_iff)

text \<open>
  What the instruction set does at a state that the code gets right: a defined instruction, not
  among the ones that diverge.
\<close>

definition supported :: "isa \<Rightarrow> bool" where
  "supported x =
     (case isa_decode (word_of_int (word_at x (xpc x))) of
        None \<Rightarrow> False
      | Some i \<Rightarrow> \<not> diverges i x)"

lemma sim_step_refines:
  assumes "wf_sim s" "uint (pc s) mod 4 = 0 \<Longrightarrow> supported (abs_sim s)"
  shows "refines (sim_step logging s) (isa_step (abs_sim s))"
proof (cases "memory_rd_w (mem s) (pc s)")
  case (Inl e)
  then have "uint (pc s) mod 4 \<noteq> 0" by (simp add: memory_rd_w_ok aligned_iff)
  with Inl show ?thesis by (simp add: sim_step_def isa_step_def)
next
  case (Inr r)
  then obtain m i where r: "memory_rd_w (mem s) (pc s) = Inr (m, i)" by (cases r) auto
  let ?s = "s\<lparr>mem := m, insns := insns s + 1\<rparr>"
  note f = refines_fetch [OF assms(1) r]
  from assms(2) f(4) obtain x where x: "isa_decode i = Some x" "\<not> diverges x (abs_sim s)"
    by (auto simp: supported_def f(3) split: option.splits)
  have "refines (exec_inst logging i ?s) (isa_exec x (abs_sim ?s))"
    using refines_exec [OF f(2) x(1)] x(2) unfolding f(1) .
  with r x f(4) show ?thesis
    by (simp add: sim_step_def isa_step_def f(1) f(3) [symmetric])
qed

section \<open>Runs\<close>

text \<open>
  Running the specification for at most a number of steps, and that every state on the way is one the
  code gets right (a misaligned program counter included: both stop there).
\<close>

fun isa_loop :: "nat \<Rightarrow> isa \<Rightarrow> isa_result option" where
  "isa_loop 0 x = None"
| "isa_loop (Suc n) x = (case isa_step x of Continue y \<Rightarrow> isa_loop n y | r \<Rightarrow> Some r)"

fun supported_for :: "nat \<Rightarrow> isa \<Rightarrow> bool" where
  "supported_for 0 x = True"
| "supported_for (Suc n) x =
     ((uint (xpc x) mod 4 \<noteq> 0 \<or> supported x) \<and>
      (case isa_step x of Continue y \<Rightarrow> supported_for n y | _ \<Rightarrow> True))"

definition loop_refines :: "(sim_error + sim) option \<Rightarrow> isa_result option \<Rightarrow> bool" where
  "loop_refines r x =
     (case r of
        None \<Rightarrow> x = None
      | Some (Inl e) \<Rightarrow> x = Some Misaligned \<and> (\<exists>m. e = MemError m)
      | Some (Inr s') \<Rightarrow> wf_sim s' \<and> x = Some (Exit (abs_sim s')))"

lemma sim_loop_refines:
  assumes "wf_sim s" "supported_for n (abs_sim s)"
  shows "loop_refines (sim_loop logging n s) (isa_loop n (abs_sim s))"
  using assms
proof (induction n arbitrary: s)
  case 0
  then show ?case by (simp add: loop_refines_def)
next
  case (Suc n)
  then have r: "refines (sim_step logging s) (isa_step (abs_sim s))"
    by (intro sim_step_refines) auto
  show ?case
  proof (cases "sim_step logging s")
    case (Inl e)
    with r show ?thesis by (auto simp: loop_refines_def)
  next
    case (Inr p)
    obtain s' stop where p: "p = (s', stop)" by (cases p)
    with r Inr Suc show ?thesis
      by (cases stop) (auto simp: loop_refines_def)
  qed
qed

lemma wf_init_sim: "wf_sim (init_sim m a inp)"
  by (simp add: wf_sim_def init_sim_def)

lemma sim_loop_more_fuel:
  assumes "sim_loop logging n s = Some r" "n \<le> n'"
  shows "sim_loop logging n' s = Some r"
  using assms
proof (induction n arbitrary: s n')
  case (Suc n)
  then obtain k where "n' = Suc k" "n \<le> k" by (cases n') auto
  with Suc show ?case by (auto split: sum.splits prod.splits bool.splits)
qed simp

section \<open>Properties\<close>

text \<open>
  C1: One iteration of the simulator's loop is one instruction of the RV32IM specification:
  from a state with 32 registers and register 0 equal to 0, on every defined instruction except
  the operand combinations that \<open>diverges\<close> lists, the new state stands for the specified one,
  an exit call stops both, and a misaligned access or fetch stops both.
\<close>

theorem sim_step_refines_isa:
  assumes "wf_sim s" "supported (abs_sim s)"
  shows "refines (sim_step logging s) (isa_step (abs_sim s))"
  using assms by (rule sim_step_refines)

text \<open>A two-instruction program, \<open>li a7, 3\<close> and \<open>ecall\<close>, and its run.\<close>

definition demo_mem :: memory where
  "demo_mem = store_bytes memory_wr_b memory_create 0 [0x93, 0x08, 0x30, 0x00, 0x73, 0x00, 0x00, 0x00]"

definition demo_sim :: sim where
  "demo_sim = init_sim demo_mem 0 []"

lemma flat_create: "flat memory_create = (\<lambda>_. 0)"
  by (rule ext) (simp add: flat_def cell_def page_read_def memory_create_def)

lemma flat_demo_mem:
  "flat demo_mem = (\<lambda>_. 0)(0 := 0x93, 1 := 0x08, 2 := 0x30, 3 := 0, 4 := 0x73, 5 := 0, 6 := 0, 7 := 0)"
  by (simp add: demo_mem_def flat_wr_b flat_create)

definition demo_at :: "u32 \<Rightarrow> i32 \<Rightarrow> isa" where
  "demo_at at v = \<lparr>xregs = (\<lambda>r. replicate 32 0 ! r)(17 := v), xpc = at, xmem = flat demo_mem, xin = [], xout = []\<rparr>"

lemma demo_abs: "abs_sim demo_sim = demo_at 0 0"
  by (auto simp: abs_sim_def demo_sim_def init_sim_def demo_at_def)

lemma demo_decode:
  "isa_decode 0x00300893 = Some (OpImm ADDI 17 0 3)" "isa_decode 0x73 = Some ECALL"
  by (simp_all add: isa_decode_def field_def imm_eqs [symmetric] imm_I_def sign_extend_def decode_imm_def)

lemma demo_fetch:
  "isa_decode (word_of_int (word_at (demo_at 0 v) 0)) = Some (OpImm ADDI 17 0 3)"
  "isa_decode (word_of_int (word_at (demo_at 4 v) 4)) = Some ECALL"
  by (simp_all add: demo_at_def flat_demo_mem word_at_def half_at_def demo_decode)

lemma demo_at_pc: "xpc (demo_at at v) = at"
  by (simp add: demo_at_def)

lemma demo_steps:
  "isa_step (demo_at 0 0) = Continue (demo_at 4 3)" "isa_step (demo_at 4 3) = Exit (demo_at 4 3)"
  by (simp_all add: isa_step_def demo_fetch demo_at_pc isa_ecall_def)
    (simp_all add: xget_def xset_def xnext_def demo_at_def)

lemma demo_supported:
  "supported_for (Suc (Suc 0)) (abs_sim demo_sim)" "supported (abs_sim demo_sim)"
  by (simp_all add: demo_abs supported_def demo_fetch demo_steps demo_at_pc)

theorem sim_step_refines_isa_witness:
  "refines (sim_step True demo_sim) (isa_step (abs_sim demo_sim))"
  using sim_step_refines_isa [of demo_sim True] wf_init_sim demo_supported(2) by (simp add: demo_sim_def)

lemma simulate_run:
  assumes "supported_for n (abs_sim (init_sim m start_addr inp))"
  shows "case isa_loop n (abs_sim (init_sim m start_addr inp)) of
     None \<Rightarrow> simulate n logging m start_addr inp = None
   | Some (Exit x) \<Rightarrow> (\<exists>s'. abs_sim s' = x \<and> (\<forall>k. simulate (n + k) logging m start_addr inp = Some (Inr (s', print_summary s'))))
   | Some y \<Rightarrow> y = Misaligned \<and> (\<exists>e. \<forall>k. simulate (n + k) logging m start_addr inp = Some (Inl (MemError e)))"
proof -
  let ?s = "init_sim m start_addr inp"
  have r: "loop_refines (sim_loop logging n ?s) (isa_loop n (abs_sim ?s))"
    by (rule sim_loop_refines [OF wf_init_sim assms])
  have k: "sim_loop logging (n + k) ?s = Some q" if "sim_loop logging n ?s = Some q" for k q
    using sim_loop_more_fuel [OF that] by simp
  show ?thesis
  proof (cases "sim_loop logging n ?s")
    case None
    with r show ?thesis by (simp add: simulate_def loop_refines_def)
  next
    case (Some q)
    with r k [OF this] show ?thesis
      by (cases q) (auto simp: simulate_def loop_refines_def)
  qed
qed

text \<open>
  C4: A whole run of \<open>simulate\<close> on a program whose instructions are all supported is the run of
  the specification: it uses up the same number of iterations, ends for the same reason, and with
  the same registers, memory and output. More iterations than needed change nothing.
\<close>

theorem simulate_refines_isa_run:
  assumes "supported_for n (abs_sim (init_sim m start_addr inp))"
  shows "case isa_loop n (abs_sim (init_sim m start_addr inp)) of
     None \<Rightarrow> simulate n logging m start_addr inp = None
   | Some (Exit x) \<Rightarrow> (\<exists>s'. abs_sim s' = x \<and> (\<forall>k. simulate (n + k) logging m start_addr inp = Some (Inr (s', print_summary s'))))
   | Some y \<Rightarrow> y = Misaligned \<and> (\<exists>e. \<forall>k. simulate (n + k) logging m start_addr inp = Some (Inl (MemError e)))"
  by (rule simulate_run [OF assms])

theorem simulate_refines_isa_run_witness:
  "\<exists>s'. simulate 2 False demo_mem 0 [] = Some (Inr (s', print_summary s')) \<and> regs s' ! 17 = 3"
proof -
  have "isa_loop (Suc (Suc 0)) (abs_sim demo_sim) = Some (Exit (demo_at 4 3))"
    by (simp add: demo_abs demo_steps)
  then obtain s' where s': "abs_sim s' = demo_at 4 3"
      "\<forall>k. simulate (Suc (Suc 0) + k) False demo_mem 0 [] = Some (Inr (s', print_summary s'))"
    using simulate_refines_isa_run [of "Suc (Suc 0)" demo_mem 0 "[]" False] demo_supported(1)
    by (auto simp: demo_sim_def)
  then have "simulate 2 False demo_mem 0 [] = Some (Inr (s', print_summary s'))"
    by (metis add_0_right numeral_2_eq_2)
  moreover have "regs s' ! 17 = 3"
    using arg_cong [OF s'(1), of xregs] by (simp add: demo_at_def fun_eq_iff)
  ultimately show ?thesis by blast
qed

text \<open>
  C39: Where the simulator departs from the M extension. On the M instructions of the upper
  product, \<open>mulhsu\<close> and \<open>mulhu\<close> return what \<open>mulh\<close> is specified to return, whatever the
  operands; the four divisions stop the process on a zero divisor and on the overflowing
  quotient (where the instruction set defines a result), and return the specified result
  otherwise.
\<close>

theorem mul_div_divergence:
  assumes "field 25 7 i = 1"
  shows "alu_reg i v w =
    (if field 12 3 i = 0 then Inr (Some (op_result MUL v w))
     else if field 12 3 i \<le> 3 then Inr (Some (op_result MULH v w))
     else if field 12 3 i = 4 then (if sdiv_traps v w then Inl DivisionTrap else Inr (Some (op_result DIV v w)))
     else if field 12 3 i = 5 then (if w = 0 then Inl DivisionTrap else Inr (Some (op_result DIVU v w)))
     else if field 12 3 i = 6 then (if sdiv_traps v w then Inl DivisionTrap else Inr (Some (op_result REM v w)))
     else (if w = 0 then Inl DivisionTrap else Inr (Some (op_result REMU v w))))"
proof -
  have "field 12 3 i < 8" by (simp add: field_def)
  then consider "field 12 3 i = 0" | "field 12 3 i = 1" | "field 12 3 i = 2" | "field 12 3 i = 3"
    | "field 12 3 i = 4" | "field 12 3 i = 5" | "field 12 3 i = 6" | "field 12 3 i = 7" by linarith
  then show ?thesis
    by cases (simp_all add: alu_reg_def fields_eq_iff assms op_result_eqs high_half(2) del: op_result.simps)
qed

theorem mul_div_divergence_witness:
  "alu_reg 0x02B53533 (- 1) (- 1) = Inr (Some 0) \<and> op_result MULHU (- 1) (- 1) = 0xFFFFFFFE"
  using mul_div_divergence [of "0x02B53533" "- 1" "- 1"]
  by (simp add: field_def unsigned_minus_1_eq_mask mask_eq_exp_minus_1)

end
