(* ===== verification/Elf_Loader.thy ===== *)
theory Elf_Loader
  imports Memory C_Lib
begin

text \<open>
  Loading a program, \<open>Opgave5/src/read_elf.c\<close>: \<open>read_elf\<close> copies the segments of an ELF file into the
  simulated memory, \<open>symbols_read_from_elf\<close> and \<open>symbols_value_to_sym\<close> are its symbols. A file is the list
  of its bytes; the structures are those of \<open>elf.h\<close>, with the layout it documents, on a little-endian
  machine. Messages to the log are kept, those to standard output are not.
\<close>

section \<open>Structures of the file\<close>

definition half_of :: "u8 \<Rightarrow> u8 \<Rightarrow> u16" where
  "half_of b0 b1 = ucast b0 OR push_bit 8 (ucast b1)"

definition half_field :: "bytes \<Rightarrow> nat \<Rightarrow> u16" where
  "half_field bs k = half_of (bs ! k) (bs ! (k + 1))"

definition word_field :: "bytes \<Rightarrow> nat \<Rightarrow> u32" where
  "word_field bs k = join32 (bs ! k) (bs ! (k + 1)) (bs ! (k + 2)) (bs ! (k + 3))"

record Elf32_Ehdr =
  e_ident :: bytes
  e_type :: u16
  e_machine :: u16
  e_version :: u32
  e_entry :: u32
  e_phoff :: u32
  e_shoff :: u32
  e_flags :: u32
  e_ehsize :: u16
  e_phentsize :: u16
  e_phnum :: u16
  e_shentsize :: u16
  e_shnum :: u16
  e_shstrndx :: u16

record Elf32_Phdr =
  p_type :: u32
  p_offset :: u32
  p_vaddr :: u32
  p_paddr :: u32
  p_filesz :: u32
  p_memsz :: u32
  p_flags :: u32
  p_align :: u32

record Elf32_Shdr =
  sh_name :: u32
  sh_type :: u32
  sh_flags :: u32
  sh_addr :: u32
  sh_offset :: u32
  sh_size :: u32
  sh_link :: u32
  sh_info :: u32
  sh_addralign :: u32
  sh_entsize :: u32

record Elf32_Sym =
  st_name :: u32
  st_value :: u32
  st_size :: u32
  st_info :: u8
  st_other :: u8
  st_shndx :: u16

definition SIZEOF_EHDR :: nat where "SIZEOF_EHDR = 52"
definition SIZEOF_PHDR :: nat where "SIZEOF_PHDR = 32"
definition SIZEOF_SHDR :: nat where "SIZEOF_SHDR = 40"
definition SIZEOF_SYM :: nat where "SIZEOF_SYM = 16"

definition ELFMAG :: bytes where "ELFMAG = [0x7f, 0x45, 0x4c, 0x46]"
definition PT_LOAD :: u32 where "PT_LOAD = 1"
definition PF_X :: u32 where "PF_X = 1"
definition SHT_SYMTAB :: u32 where "SHT_SYMTAB = 2"
definition SHT_STRTAB :: u32 where "SHT_STRTAB = 3"

definition ELF32_ST_BIND :: "u8 \<Rightarrow> u8" where "ELF32_ST_BIND val = drop_bit 4 val"
definition ELF32_ST_TYPE :: "u8 \<Rightarrow> u8" where "ELF32_ST_TYPE val = val AND 0xf"

text \<open>The bytes that \<open>fread\<close> puts into a structure, read through its fields (little-endian).\<close>

definition ehdr_struct :: "bytes \<Rightarrow> Elf32_Ehdr" where
  "ehdr_struct bs =
     \<lparr>e_ident = take 16 bs, e_type = half_field bs 16, e_machine = half_field bs 18, e_version = word_field bs 20,
      e_entry = word_field bs 24, e_phoff = word_field bs 28, e_shoff = word_field bs 32, e_flags = word_field bs 36,
      e_ehsize = half_field bs 40, e_phentsize = half_field bs 42, e_phnum = half_field bs 44,
      e_shentsize = half_field bs 46, e_shnum = half_field bs 48, e_shstrndx = half_field bs 50\<rparr>"

definition phdr_struct :: "bytes \<Rightarrow> Elf32_Phdr" where
  "phdr_struct bs =
     \<lparr>p_type = word_field bs 0, p_offset = word_field bs 4, p_vaddr = word_field bs 8, p_paddr = word_field bs 12,
      p_filesz = word_field bs 16, p_memsz = word_field bs 20, p_flags = word_field bs 24, p_align = word_field bs 28\<rparr>"

definition shdr_struct :: "bytes \<Rightarrow> Elf32_Shdr" where
  "shdr_struct bs =
     \<lparr>sh_name = word_field bs 0, sh_type = word_field bs 4, sh_flags = word_field bs 8, sh_addr = word_field bs 12,
      sh_offset = word_field bs 16, sh_size = word_field bs 20, sh_link = word_field bs 24, sh_info = word_field bs 28,
      sh_addralign = word_field bs 32, sh_entsize = word_field bs 36\<rparr>"

definition sym_struct :: "bytes \<Rightarrow> Elf32_Sym" where
  "sym_struct bs =
     \<lparr>st_name = word_field bs 0, st_value = word_field bs 4, st_size = word_field bs 8,
      st_info = bs ! 12, st_other = bs ! 13, st_shndx = half_field bs 14\<rparr>"

text \<open>
  \<open>fseek\<close> to an offset from the start, which may lie past the end, and \<open>fread\<close>: the bytes that
  are there, at most \<open>n\<close>. With items of \<open>size\<close> bytes, \<open>fread\<close> returns the number of complete ones.
\<close>

definition fread_at :: "bytes \<Rightarrow> nat \<Rightarrow> nat \<Rightarrow> bytes" where
  "fread_at file off n = take n (drop off file)"

definition fread_items :: "bytes \<Rightarrow> nat \<Rightarrow> nat \<Rightarrow> nat \<Rightarrow> nat \<times> bytes" where
  "fread_items file off sz nmemb =
     (let bs = fread_at file off (sz * nmemb) in (if sz = 0 then 0 else length bs div sz, bs))"

section \<open>Loading a program\<close>

record program_info =
  text_start :: u32
  text_end :: u32
  start :: u32

text \<open>
  The log is the text written so far, \<open>None\<close> for the null pointer. \<open>fprintf\<close> to the null pointer
  stops the process.
\<close>

datatype elf_crash = NullStream

type_synonym elf_log = "string option"

definition fprintf_log :: "elf_log \<Rightarrow> string \<Rightarrow> elf_crash + elf_log" where
  "fprintf_log lg msg = (case lg of None \<Rightarrow> Inl NullStream | Some t \<Rightarrow> Inr (Some (t @ msg)))"

definition fail_with :: "elf_log \<Rightarrow> string \<Rightarrow> memory \<Rightarrow> program_info \<Rightarrow>
    elf_crash + i32 \<times> memory \<times> program_info \<times> elf_log" where
  "fail_with lg msg m info = rbind (fprintf_log lg (msg @ [newline])) (\<lambda>lg. Inr (- 1, m, info, lg))"

text \<open>The loop over the bytes of a segment.\<close>

definition write_segment :: "memory \<Rightarrow> u32 \<Rightarrow> bytes \<Rightarrow> memory" where
  "write_segment m vaddr segment_data =
     fold (\<lambda>j m. memory_wr_b m (vaddr + of_nat j) (ucast (segment_data ! j))) [0..<length segment_data] m"

definition segment_info :: "Elf32_Ehdr \<Rightarrow> Elf32_Phdr \<Rightarrow> program_info \<Rightarrow> program_info" where
  "segment_info elf_header program_header info =
     (if p_flags program_header AND PF_X \<noteq> 0
      then info\<lparr>text_start := p_vaddr program_header +
                  of_nat (SIZEOF_EHDR + unat (e_phnum elf_header) * SIZEOF_PHDR),
                text_end := p_vaddr program_header + p_filesz program_header\<rparr>
      else info)"

text \<open>
  One iteration per program header. \<open>alloc n\<close> tells whether \<open>malloc(n)\<close> succeeds.
\<close>

fun load_segments :: "bytes \<Rightarrow> (u32 \<Rightarrow> bool) \<Rightarrow> Elf32_Ehdr \<Rightarrow> elf_log \<Rightarrow> nat list \<Rightarrow> memory \<Rightarrow> program_info \<Rightarrow>
    elf_crash + i32 \<times> memory \<times> program_info \<times> elf_log" where
  "load_segments file alloc elf_header lg [] m info = Inr (0, m, info, lg)"
| "load_segments file alloc elf_header lg (i # is) m info =
     (let bs = fread_at file (unat (e_phoff elf_header) + i * SIZEOF_PHDR) SIZEOF_PHDR in
      if length bs \<noteq> SIZEOF_PHDR
      then fail_with lg ''Elf file error, file shorter than minimal prog header size.'' m info
      else
        let program_header = phdr_struct bs in
        if p_type program_header = PT_LOAD then
          let info = segment_info elf_header program_header info in
          if \<not> alloc (p_filesz program_header)
          then fail_with lg ''Error allocating memory for segment'' m info
          else
            let segment_data = fread_at file (unat (p_offset program_header)) (unat (p_filesz program_header)) in
            if length segment_data \<noteq> unat (p_filesz program_header)
            then fail_with lg ''Error reading segment - failed to read entire segment in one go'' m info
            else load_segments file alloc elf_header lg is
                   (write_segment m (p_vaddr program_header) segment_data) info
        else load_segments file alloc elf_header lg is m info)"

definition read_elf :: "(string \<Rightarrow> bytes option) \<Rightarrow> (u32 \<Rightarrow> bool) \<Rightarrow> memory \<Rightarrow> program_info \<Rightarrow> string \<Rightarrow> elf_log \<Rightarrow>
    elf_crash + i32 \<times> memory \<times> program_info \<times> elf_log" where
  "read_elf files alloc m info filename lg =
     (case files filename of
        None \<Rightarrow> Inr (- 1, m, info, map_option (\<lambda>t. t @ ''Error opening file'') lg)
      | Some file \<Rightarrow>
          let bs = fread_at file 0 SIZEOF_EHDR in
          if length bs \<noteq> SIZEOF_EHDR
          then fail_with lg ''Elf file error, file shorter than minimal header size.'' m info
          else
            let elf_header = ehdr_struct bs in
            if take 4 (e_ident elf_header) \<noteq> ELFMAG then fail_with lg ''Not a valid ELF file.'' m info
            else load_segments file alloc elf_header lg [0..<unat (e_phnum elf_header)] m
                   (info\<lparr>text_start := 0, text_end := 0, start := e_entry elf_header\<rparr>))"

section \<open>Symbols\<close>

record symbols =
  strtab :: bytes
  syms :: "Elf32_Sym list"
  num_symbols :: nat

text \<open>The structures in an array that was read into memory.\<close>

definition items :: "nat \<Rightarrow> (bytes \<Rightarrow> 'a) \<Rightarrow> nat \<Rightarrow> bytes \<Rightarrow> 'a list" where
  "items sz f n bs = map (\<lambda>i. f (take sz (drop (i * sz) bs))) [0..<n]"

text \<open>The last symbol table, and the last string table other than that of the section names.\<close>

definition scan_section :: "Elf32_Ehdr \<Rightarrow> Elf32_Shdr list \<Rightarrow> nat \<Rightarrow> Elf32_Shdr option \<times> Elf32_Shdr option \<Rightarrow>
    Elf32_Shdr option \<times> Elf32_Shdr option" where
  "scan_section elf_header section_headers i = (\<lambda>(symtab_section, strtab_section).
     if sh_type (section_headers ! i) = SHT_SYMTAB then (Some (section_headers ! i), strtab_section)
     else if sh_type (section_headers ! i) = SHT_STRTAB \<and> i \<noteq> unat (e_shstrndx elf_header)
     then (symtab_section, Some (section_headers ! i))
     else (symtab_section, strtab_section))"

definition read_symbols :: "bytes \<Rightarrow> Elf32_Shdr \<Rightarrow> Elf32_Shdr \<Rightarrow> symbols option" where
  "read_symbols file symtab_section strtab_section =
     (let tab = fread_at file (unat (sh_offset strtab_section)) (unat (sh_size strtab_section)) in
      if length tab \<noteq> unat (sh_size strtab_section) then None
      else
        let n = unat (sh_size symtab_section) div SIZEOF_SYM;
            (status, bs) = fread_items file (unat (sh_offset symtab_section)) n SIZEOF_SYM in
        if status \<noteq> SIZEOF_SYM then None
        else Some \<lparr>strtab = tab, syms = items SIZEOF_SYM sym_struct n bs, num_symbols = n\<rparr>)"

definition symbols_read_from_elf :: "(string \<Rightarrow> bytes option) \<Rightarrow> string \<Rightarrow> symbols option" where
  "symbols_read_from_elf files filename =
     (case files filename of
        None \<Rightarrow> None
      | Some file \<Rightarrow>
          let bs = fread_at file 0 SIZEOF_EHDR in
          if length bs \<noteq> SIZEOF_EHDR then None
          else
            let elf_header = ehdr_struct bs in
            if take 4 (e_ident elf_header) \<noteq> ELFMAG then None
            else
              let (status, hs) = fread_items file (unat (e_shoff elf_header)) (unat (e_shnum elf_header)) SIZEOF_SHDR in
              if status \<noteq> SIZEOF_SHDR then None
              else
                let section_headers = items SIZEOF_SHDR shdr_struct (unat (e_shnum elf_header)) hs in
                case fold (scan_section elf_header section_headers) [0..<unat (e_shnum elf_header)] (None, None) of
                  (Some symtab_section, Some strtab_section) \<Rightarrow> read_symbols file symtab_section strtab_section
                | _ \<Rightarrow> None)"

text \<open>The result points into the string table; it is given by its position there.\<close>

fun value_to_sym_from :: "symbols \<Rightarrow> u32 \<Rightarrow> nat list \<Rightarrow> nat option" where
  "value_to_sym_from symbols v [] = None"
| "value_to_sym_from symbols v (i # is) =
     (let sy = syms symbols ! i in
      if st_value sy = v \<and>
         (ELF32_ST_BIND (st_info sy) \<noteq> 0 \<or> ELF32_ST_BIND (st_info sy) = 0 \<and> ELF32_ST_TYPE (st_info sy) = 2)
      then Some (unat (st_name sy))
      else value_to_sym_from symbols v is)"

definition symbols_value_to_sym :: "symbols \<Rightarrow> u32 \<Rightarrow> nat option" where
  "symbols_value_to_sym symbols v = value_to_sym_from symbols v [0..<num_symbols symbols]"

section \<open>What is loaded\<close>

text \<open>
  The program headers of a file, the byte a segment puts at an address, and the memory after
  all segments: where segments overlap, the last one is there.
\<close>

definition elf_header_of :: "bytes \<Rightarrow> Elf32_Ehdr" where
  "elf_header_of file = ehdr_struct (take SIZEOF_EHDR file)"

definition program_header_at :: "bytes \<Rightarrow> nat \<Rightarrow> Elf32_Phdr" where
  "program_header_at file i =
     phdr_struct (take SIZEOF_PHDR (drop (unat (e_phoff (elf_header_of file)) + i * SIZEOF_PHDR) file))"

definition segment_byte :: "bytes \<Rightarrow> Elf32_Phdr \<Rightarrow> i32 \<Rightarrow> u8 option" where
  "segment_byte file ph a =
     (if p_type ph = PT_LOAD \<and> unat (a - p_vaddr ph) < unat (p_filesz ph)
      then Some (file ! (unat (p_offset ph) + unat (a - p_vaddr ph))) else None)"

fun memory_image :: "bytes \<Rightarrow> (i32 \<Rightarrow> u8) \<Rightarrow> nat \<Rightarrow> i32 \<Rightarrow> u8" where
  "memory_image file base 0 a = base a"
| "memory_image file base (Suc n) a =
     (case segment_byte file (program_header_at file n) a of Some b \<Rightarrow> b | None \<Rightarrow> memory_image file base n a)"

fun text_range :: "bytes \<Rightarrow> nat \<Rightarrow> u32 \<times> u32" where
  "text_range file 0 = (0, 0)"
| "text_range file (Suc n) =
     (let ph = program_header_at file n in
      if p_type ph = PT_LOAD \<and> odd (p_flags ph)
      then (p_vaddr ph + 52 + 32 * ucast (e_phnum (elf_header_of file)), p_vaddr ph + p_filesz ph)
      else text_range file n)"

definition range_ok :: "bytes \<Rightarrow> nat \<Rightarrow> nat \<Rightarrow> bool" where
  "range_ok file off n \<longleftrightarrow> n = 0 \<or> off + n \<le> length file"

definition segment_ok :: "bytes \<Rightarrow> (u32 \<Rightarrow> bool) \<Rightarrow> nat \<Rightarrow> bool" where
  "segment_ok file alloc i \<longleftrightarrow>
     unat (e_phoff (elf_header_of file)) + 32 * i + 32 \<le> length file \<and>
     (let ph = program_header_at file i in p_type ph = PT_LOAD \<longrightarrow>
        alloc (p_filesz ph) \<and> range_ok file (unat (p_offset ph)) (unat (p_filesz ph)))"

definition elf_ok :: "bytes \<Rightarrow> (u32 \<Rightarrow> bool) \<Rightarrow> bool" where
  "elf_ok file alloc \<longleftrightarrow> 52 \<le> length file \<and> take 4 file = ELFMAG \<and>
     (\<forall>i < unat (e_phnum (elf_header_of file)). segment_ok file alloc i)"

lemma length_fread_at: "length (fread_at file off n) = n \<longleftrightarrow> range_ok file off n"
  by (auto simp: fread_at_def range_ok_def)

lemma unat_less: "unat (w :: u32) < 2 ^ 32"
  by (rule order.strict_trans2 [OF unsigned_less]) simp

lemma flat_write_segment:
  assumes "length bs < 2 ^ 32"
  shows "flat (write_segment m v bs) a =
     (if unat (a - v) < length bs then bs ! unat (a - v) else flat m a)"
proof -
  have "n \<le> length bs \<Longrightarrow> flat (fold (\<lambda>j m. memory_wr_b m (v + of_nat j) (ucast (bs ! j))) [0..<n] m) a =
     (if unat (a - v) < n then bs ! unat (a - v) else flat m a)" for n
  proof (induction n)
    case (Suc n)
    have n: "unat (of_nat n :: u32) = n" using Suc.prems assms by (simp add: unat_of_nat take_bit_nat_eq_self)
    have e: "a = v + of_nat n \<longleftrightarrow> unat (a - v) = n"
      using n by (metis add_diff_cancel_left' diff_add_cancel add.commute word_unat_eq_iff)
    show ?case using Suc by (simp add: mem_simps e less_Suc_eq)
  qed simp
  then show ?thesis by (simp add: write_segment_def)
qed

lemma odd_flags: "(p_flags ph AND PF_X \<noteq> 0) = odd (p_flags ph)"
  by (simp add: PF_X_def and_one_eq odd_iff_mod_2_eq_one)


text \<open>What loading the segments from the \<open>k\<close>-th on promises, given that those before are loaded.\<close>

definition loaded :: "bytes \<Rightarrow> (u32 \<Rightarrow> bool) \<Rightarrow> (i32 \<Rightarrow> u8) \<Rightarrow> u32 \<Rightarrow> elf_log \<Rightarrow>
    elf_crash + i32 \<times> memory \<times> program_info \<times> elf_log \<Rightarrow> bool" where
  "loaded file alloc base entry lg r \<longleftrightarrow>
     (let n = unat (e_phnum (elf_header_of file)); ok = (\<forall>i < n. segment_ok file alloc i) in
      case r of
        Inl e \<Rightarrow> \<not> ok \<and> lg = None
      | Inr (st, m', info', lg') \<Rightarrow>
          if ok then st = 0 \<and> lg' = lg \<and> flat m' = memory_image file base n \<and>
             (text_start info', text_end info') = text_range file n \<and> start info' = entry
          else st = - 1 \<and> lg \<noteq> None)"

lemma loaded_fail:
  "k < unat (e_phnum (elf_header_of file)) \<Longrightarrow> \<not> segment_ok file alloc k \<Longrightarrow>
     loaded file alloc base entry lg (fail_with lg msg m info)"
  by (cases lg) (auto simp: loaded_def fail_with_def fprintf_log_def Let_def)

lemma load_segments_result:
  assumes "k \<le> unat (e_phnum (elf_header_of file))" "flat m = memory_image file base k"
    "(text_start info, text_end info) = text_range file k" "start info = entry"
    "\<forall>i < k. segment_ok file alloc i"
  shows "loaded file alloc base entry lg (load_segments file alloc (elf_header_of file) lg
           [k..<unat (e_phnum (elf_header_of file))] m info)"
  using assms
proof (induction "unat (e_phnum (elf_header_of file)) - k" arbitrary: k m info)
  case 0
  then show ?case by (simp add: loaded_def)
next
  case (Suc d)
  let ?h = "elf_header_of file" and ?N = "unat (e_phnum (elf_header_of file))"
  let ?off = "unat (e_phoff ?h) + k * SIZEOF_PHDR"
  let ?ph = "program_header_at file k"
  let ?data = "fread_at file (unat (p_offset ?ph)) (unat (p_filesz ?ph))"
  have k: "k < ?N" and upt: "[k..<?N] = k # [Suc k..<?N]" and d: "d = ?N - Suc k"
    using Suc.hyps(2) by (simp_all add: upt_conv_Cons)
  have ph: "phdr_struct (fread_at file ?off SIZEOF_PHDR) = ?ph"
    by (simp add: fread_at_def program_header_at_def)
  have hd: "range_ok file ?off SIZEOF_PHDR \<longleftrightarrow> unat (e_phoff ?h) + 32 * k + 32 \<le> length file"
    by (simp add: range_ok_def SIZEOF_PHDR_def algebra_simps)
  show ?case
  proof (cases "segment_ok file alloc k")
    case False
    then show ?thesis
      using loaded_fail [OF k False]
      by (auto simp: upt Let_def hd ph segment_ok_def length_fread_at)
  next
    case True
    then have before: "\<forall>i < Suc k. segment_ok file alloc i" using Suc.prems(5) by (simp add: less_Suc_eq)
    show ?thesis
    proof (cases "p_type ?ph = PT_LOAD")
      case False
      have im: "flat m = memory_image file base (Suc k)" "(text_start info, text_end info) = text_range file (Suc k)"
        using Suc.prems(2,3) False by (auto simp: segment_byte_def fun_eq_iff)
      from Suc.hyps(1) [OF d _ im Suc.prems(4) before] k True False show ?thesis
        by (simp add: upt Let_def hd ph segment_ok_def length_fread_at del: memory_image.simps text_range.simps)
    next
      case load: True
      let ?m = "write_segment m (p_vaddr ?ph) ?data" and ?info = "segment_info ?h ?ph info"
      have al: "alloc (p_filesz ?ph)" and rng: "length ?data = unat (p_filesz ?ph)"
        using True load by (simp_all add: segment_ok_def length_fread_at Let_def)
      have "flat ?m = memory_image file base (Suc k)"
      proof
        fix a
        have "length ?data < 2 ^ 32" by (simp only: rng unat_less)
        note w = flat_write_segment [OF this, of m "p_vaddr ?ph" a, unfolded rng]
        have "?data ! unat (a - p_vaddr ?ph) = file ! (unat (p_offset ?ph) + unat (a - p_vaddr ?ph))"
          if "unat (a - p_vaddr ?ph) < unat (p_filesz ?ph)"
          using that rng by (auto simp: fread_at_def add.commute)
        with w show "flat ?m a = memory_image file base (Suc k) a"
          by (simp add: segment_byte_def load Suc.prems(2))
      qed
      moreover have "(text_start ?info, text_end ?info) = text_range file (Suc k)"
        using Suc.prems(3) load by (simp add: segment_info_def odd_flags Let_def SIZEOF_EHDR_def SIZEOF_PHDR_def)
      moreover have "start ?info = entry" using Suc.prems(4) by (simp add: segment_info_def)
      ultimately show ?thesis
        using Suc.hyps(1) [OF d _ _ _ _ before, of ?m ?info] k True load al rng
        by (simp add: upt Let_def hd ph segment_ok_def length_fread_at del: memory_image.simps text_range.simps)
    qed
  qed
qed

lemma read_elf_result:
  "case files filename of
     None \<Rightarrow> \<exists>lg'. read_elf files alloc m info filename lg = Inr (- 1, m, info, lg')
   | Some file \<Rightarrow>
       (case read_elf files alloc m info filename lg of
          Inl NullStream \<Rightarrow> \<not> elf_ok file alloc \<and> lg = None
        | Inr (st, m', info', lg') \<Rightarrow>
            if elf_ok file alloc then st = 0 \<and> lg' = lg \<and>
              (let n = unat (e_phnum (elf_header_of file)) in
               flat m' = memory_image file (flat m) n \<and>
               (text_start info', text_end info') = text_range file n \<and> start info' = e_entry (elf_header_of file))
            else st = - 1 \<and> lg \<noteq> None)"
proof (cases "files filename")
  case None
  then show ?thesis by (simp add: read_elf_def)
next
  case (Some img)
  let ?info = "info\<lparr>text_start := 0, text_end := 0, start := e_entry (elf_header_of img)\<rparr>"
  have len: "length (fread_at img 0 SIZEOF_EHDR) = SIZEOF_EHDR \<longleftrightarrow> 52 \<le> length img"
    by (simp add: length_fread_at range_ok_def SIZEOF_EHDR_def)
  have hdr: "ehdr_struct (fread_at img 0 SIZEOF_EHDR) = elf_header_of img"
    by (simp add: fread_at_def elf_header_of_def)
  have ident: "take 4 (e_ident (elf_header_of img)) = take 4 img"
    by (simp add: elf_header_of_def ehdr_struct_def SIZEOF_EHDR_def)
  show ?thesis
  proof (cases "52 \<le> length img \<and> take 4 img = ELFMAG")
    case False
    then show ?thesis
      by (cases lg) (auto simp: Some read_elf_def len hdr ident Let_def fail_with_def fprintf_log_def elf_ok_def
          split: elf_crash.split)
  next
    case True
    then have ok: "elf_ok img alloc \<longleftrightarrow> (\<forall>i < unat (e_phnum (elf_header_of img)). segment_ok img alloc i)"
      by (simp add: elf_ok_def)
    have "loaded img alloc (flat m) (e_entry (elf_header_of img)) lg (read_elf files alloc m info filename lg)"
      using True load_segments_result [of 0 img m "flat m" ?info "e_entry (elf_header_of img)" alloc lg]
      by (simp add: Some read_elf_def len hdr ident fun_eq_iff Let_def)
    then show ?thesis
      by (auto simp: Some ok loaded_def Let_def split: sum.splits elf_crash.split prod.splits if_splits)
  qed
qed


lemma read_elf_loads:
  assumes "files filename = Some img" "elf_ok img alloc"
  obtains m' info' where "read_elf files alloc m info filename lg = Inr (0, m', info', lg)"
    "flat m' = memory_image img (flat m) (unat (e_phnum (elf_header_of img)))"
    "(text_start info', text_end info') = text_range img (unat (e_phnum (elf_header_of img)))"
    "start info' = e_entry (elf_header_of img)"
  using read_elf_result [of files alloc m info filename lg] assms
  by (auto simp: Let_def split: sum.splits elf_crash.splits prod.splits)

text \<open>
  C18: \<open>read_elf\<close> is total and its result is determined by the file. When the file exists, is long
  enough, has the magic number, and every program header and every loadable segment lies inside it
  and finds memory, \<open>read_elf\<close> returns 0, the simulated memory holds the bytes of the segments at
  their addresses (the last segment where they overlap) over what it held before, the entry point is
  that of the header and the text range that of the last executable segment. Otherwise it returns
  \<open>- 1\<close>, or, when the file exists and there is no log, stops the process by writing to the null stream.
\<close>

theorem read_elf_correct:
  "case files filename of
     None \<Rightarrow> \<exists>lg'. read_elf files alloc m info filename lg = Inr (- 1, m, info, lg')
   | Some file \<Rightarrow>
       (case read_elf files alloc m info filename lg of
          Inl NullStream \<Rightarrow> \<not> elf_ok file alloc \<and> lg = None
        | Inr (st, m', info', lg') \<Rightarrow>
            if elf_ok file alloc then st = 0 \<and> lg' = lg \<and>
              (let n = unat (e_phnum (elf_header_of file)) in
               flat m' = memory_image file (flat m) n \<and>
               (text_start info', text_end info') = text_range file n \<and> start info' = e_entry (elf_header_of file))
            else st = - 1 \<and> lg \<noteq> None)"
  by (rule read_elf_result)

section \<open>The symbols of a file\<close>

text \<open>
  The reference: section headers addressed in the file, the last of a kind, and symbols addressed in
  the file.
\<close>

definition section_at :: "bytes \<Rightarrow> nat \<Rightarrow> Elf32_Shdr" where
  "section_at file i = shdr_struct (take 40 (drop (unat (e_shoff (elf_header_of file)) + 40 * i) file))"

definition last_section :: "bytes \<Rightarrow> (nat \<Rightarrow> bool) \<Rightarrow> Elf32_Shdr option" where
  "last_section file P =
     (case filter P (rev [0..<unat (e_shnum (elf_header_of file))]) of
        [] \<Rightarrow> None | i # _ \<Rightarrow> Some (section_at file i))"

definition symbols_in :: "bytes \<Rightarrow> Elf32_Shdr \<Rightarrow> Elf32_Shdr \<Rightarrow> symbols option" where
  "symbols_in file symtab st =
     (let n = unat (sh_size symtab) div 16; off = unat (sh_offset symtab) in
      if range_ok file (unat (sh_offset st)) (unat (sh_size st)) \<and> 0 < n \<and> off + 16 * n \<le> length file
      then Some \<lparr>strtab = take (unat (sh_size st)) (drop (unat (sh_offset st)) file),
                 syms = map (\<lambda>k. sym_struct (take 16 (drop (off + 16 * k) file))) [0..<n], num_symbols = n\<rparr>
      else None)"

definition symbols_of_file :: "bytes \<Rightarrow> symbols option" where
  "symbols_of_file file =
     (let n = unat (e_shnum (elf_header_of file)) in
      if 52 \<le> length file \<and> take 4 file = ELFMAG \<and> 0 < n \<and>
         unat (e_shoff (elf_header_of file)) + 40 * n \<le> length file
      then Option.bind (last_section file (\<lambda>i. sh_type (section_at file i) = 2)) (\<lambda>symtab.
           Option.bind (last_section file (\<lambda>i. sh_type (section_at file i) = 3 \<and> i \<noteq> unat (e_shstrndx (elf_header_of file))))
             (symbols_in file symtab))
      else None)"

lemma fread_items_eq:
  assumes "0 < nmemb"
  shows "fst (fread_items file off sz nmemb) = nmemb \<longleftrightarrow> 0 < sz \<and> off + nmemb * sz \<le> length file"
proof -
  define l where "l = length (fread_at file off (sz * nmemb))"
  have le: "l \<le> nmemb * sz" and l: "nmemb * sz \<le> l \<longleftrightarrow> nmemb * sz \<le> length file - off"
    by (auto simp: l_def fread_at_def mult.commute)
  have "l div sz = nmemb \<longleftrightarrow> nmemb * sz \<le> l" if "0 < sz"
    using div_le_mono [OF le, of sz] less_eq_div_iff_mult_less_eq [OF that, of nmemb l] that by auto
  moreover have "nmemb * sz \<le> length file - off \<longleftrightarrow> off + nmemb * sz \<le> length file" if "0 < sz"
  proof -
    have "0 < nmemb * sz" using assms that by simp
    then show ?thesis by linarith
  qed
  ultimately show ?thesis
    using l assms by (auto simp: fread_items_def Let_def l_def [symmetric])
qed

lemma items_eq:
  assumes "off + n * sz \<le> length file"
  shows "items sz f n (fread_at file off (n * sz)) = map (\<lambda>k. f (take sz (drop (off + sz * k) file))) [0..<n]"
proof -
  have "take sz (drop (k * sz) (fread_at file off (n * sz))) = take sz (drop (off + sz * k) file)" if "k < n" for k
  proof -
    have "k * sz + sz \<le> n * sz" using that by (metis Suc_leI add.commute mult_Suc mult_le_mono1)
    then have "min sz (n * sz - k * sz) = sz" by simp
    then show ?thesis by (simp add: fread_at_def drop_take take_take algebra_simps)
  qed
  then show ?thesis by (simp add: items_def)
qed

lemma scan_sections:
  assumes "\<And>i. i < n \<Longrightarrow> hs ! i = sec i"
  shows "fold (scan_section h hs) [0..<n] (None, None) =
     (case filter (\<lambda>i. sh_type (sec i) = 2) (rev [0..<n]) of [] \<Rightarrow> None | i # _ \<Rightarrow> Some (sec i),
      case filter (\<lambda>i. sh_type (sec i) = 3 \<and> i \<noteq> unat (e_shstrndx h)) (rev [0..<n]) of [] \<Rightarrow> None | i # _ \<Rightarrow> Some (sec i))"
  using assms
  by (induction n) (auto simp: scan_section_def SHT_SYMTAB_def SHT_STRTAB_def split: prod.splits)

lemma info_fields:
  fixes w :: u8
  shows "drop_bit 4 w \<noteq> 0 \<longleftrightarrow> 0 < uint w div 16" and "w AND 0xf = 2 \<longleftrightarrow> uint w mod 16 = 2"
proof -
  have "drop_bit 4 w \<noteq> 0 \<longleftrightarrow> uint w div 16 \<noteq> 0"
    by (simp add: word_uint_eq_iff uint_div_distrib drop_bit_eq_div)
  then show "drop_bit 4 w \<noteq> 0 \<longleftrightarrow> 0 < uint w div 16"
    using pos_imp_zdiv_nonneg_iff [of 16 "uint w"] by auto
  have "w AND 0xf = take_bit 4 w" by (simp add: take_bit_eq_mask mask_eq_exp_minus_1)
  then show "w AND 0xf = 2 \<longleftrightarrow> uint w mod 16 = 2"
    by (simp add: word_uint_eq_iff unsigned_take_bit_eq) (simp add: take_bit_eq_mod)
qed

lemma read_symbols_eq: "read_symbols file symtab st = symbols_in file symtab st"
proof -
  let ?n = "unat (sh_size symtab) div 16" and ?off = "unat (sh_offset symtab)"
  have "items 16 sym_struct ?n (snd (fread_items file ?off ?n 16)) =
      map (\<lambda>k. sym_struct (fread_at file (?off + 16 * k) 16)) [0..<?n]" if "?off + 16 * ?n \<le> length file"
    using items_eq [of ?off ?n 16 "file" sym_struct] that by (simp add: fread_items_def Let_def mult.commute fread_at_def)
  then show ?thesis
    using fread_items_eq [of 16 "file" ?off ?n]
    unfolding symbols_in_def fread_at_def [symmetric]
    by (cases "?n = 0") (auto simp: read_symbols_def SIZEOF_SYM_def length_fread_at Let_def fread_items_def split: prod.splits)
qed

lemma symbols_read_eq:
  "symbols_read_from_elf files filename = Option.bind (files filename) symbols_of_file"
proof (cases "files filename")
  case None
  then show ?thesis by (simp add: symbols_read_from_elf_def)
next
  case (Some img)
  let ?h = "elf_header_of img" let ?n = "unat (e_shnum ?h)" and ?off = "unat (e_shoff ?h)"
  have len: "length (fread_at img 0 SIZEOF_EHDR) = SIZEOF_EHDR \<longleftrightarrow> 52 \<le> length img"
    by (simp add: length_fread_at range_ok_def SIZEOF_EHDR_def)
  have hdr: "ehdr_struct (fread_at img 0 SIZEOF_EHDR) = ?h"
    by (simp add: fread_at_def elf_header_of_def)
  have ident: "take 4 (e_ident ?h) = take 4 img"
    by (simp add: elf_header_of_def ehdr_struct_def SIZEOF_EHDR_def)
  have st: "fst (fread_items img ?off ?n SIZEOF_SHDR) = SIZEOF_SHDR \<longleftrightarrow> 0 < ?n \<and> ?off + 40 * ?n \<le> length img"
    using fread_items_eq [of 40 img ?off ?n] by (simp add: SIZEOF_SHDR_def)
  have secs: "items SIZEOF_SHDR shdr_struct ?n (snd (fread_items img ?off ?n SIZEOF_SHDR)) ! i = section_at img i"
    if "?off + 40 * ?n \<le> length img" "i < ?n" for i
    using items_eq [of ?off ?n 40 img shdr_struct] that
    by (simp add: fread_items_def Let_def SIZEOF_SHDR_def section_at_def mult.commute)
  have scan: "fold (scan_section ?h (items SIZEOF_SHDR shdr_struct ?n (snd (fread_items img ?off ?n SIZEOF_SHDR)))) [0..<?n] (None, None) =
     (last_section img (\<lambda>i. sh_type (section_at img i) = 2),
      last_section img (\<lambda>i. sh_type (section_at img i) = 3 \<and> i \<noteq> unat (e_shstrndx ?h)))"
    if "?off + 40 * ?n \<le> length img"
    unfolding last_section_def by (rule scan_sections) (use secs that in simp)
  show ?thesis
    by (auto simp: Some symbols_read_from_elf_def symbols_of_file_def len hdr ident st scan Let_def split_def
        read_symbols_eq bind_eq_None_conv split: option.splits)
qed

lemma value_to_sym_from_eq:
  "value_to_sym_from sy v is =
     map_option (\<lambda>e. unat (st_name e)) (find (\<lambda>e. st_value e = v \<and>
        (0 < uint (st_info e) div 16 \<or> uint (st_info e) mod 16 = 2)) (map ((!) (syms sy)) is))"
  by (induction "is") (auto simp: Let_def ELF32_ST_BIND_def ELF32_ST_TYPE_def info_fields)

text \<open>
  The symbol table that \<open>symbols_read_from_elf\<close> returns is that of the file: the entries of its
  last symbol table and the last string table that does not hold section names. There is none exactly
  when the file is missing, too short, without the magic number, without one of these sections, or
  with a section past its end or without entries. \<open>symbols_value_to_sym\<close> finds the first
  entry with a value that is not local or is a function.
\<close>

theorem symbols_correct:
  "symbols_read_from_elf files filename = Option.bind (files filename) symbols_of_file \<and>
   symbols_value_to_sym sy v =
     map_option (\<lambda>e. unat (st_name e)) (find (\<lambda>e. st_value e = v \<and>
        (0 < uint (st_info e) div 16 \<or> uint (st_info e) mod 16 = 2))
      (map ((!) (syms sy)) [0..<num_symbols sy]))"
  by (simp add: symbols_read_eq symbols_value_to_sym_def value_to_sym_from_eq)

end
