(* ===== verification/Disassemble.thy ===== *)
theory Disassemble
  imports Elf_Loader
begin

text \<open>
  The disassembler, \<open>Opgave5/src/disassemble.c\<close>. The text is written into a buffer of \<open>buf_size\<close>
  characters that is cleared first; \<open>used\<close> is the number of characters written so far. A write or a
  read outside the buffer is the error \<open>Overrun\<close>. The handlers put the name of the instruction at the
  start of the buffer, write the operands behind it, and look back at the text they have
  written to choose another name.
\<close>

section \<open>Text buffers\<close>

datatype dis_error = Overrun | AssertFailed

type_synonym buffer = "string \<times> nat"

definition put :: "string \<Rightarrow> nat \<Rightarrow> string \<Rightarrow> dis_error + string" where
  "put s off result =
     (if off + length s \<le> length result
      then Inr (take off result @ s @ drop (off + length s) result) else Inl Overrun)"

fun strcmp_at :: "string \<Rightarrow> nat \<Rightarrow> string \<Rightarrow> dis_error + bool" where
  "strcmp_at result off [] = (if off < length result then Inr (result ! off = nul) else Inl Overrun)"
| "strcmp_at result off (c # cs) =
     (if off < length result
      then if result ! off = c then strcmp_at result (off + 1) cs else Inr False
      else Inl Overrun)"

definition strcmp_before :: "string \<Rightarrow> nat \<Rightarrow> string \<Rightarrow> dis_error + bool" where
  "strcmp_before result used lit =
     (if used < length lit then Inl Overrun else strcmp_at result (used - length lit) lit)"

definition starts_with :: "string \<Rightarrow> string \<Rightarrow> dis_error + bool" where
  "starts_with result lit =
     (if nul \<in> set result then Inr (take (length lit) (cstr result) = lit) else Inl Overrun)"

section \<open>Numbers\<close>

definition hex_digit :: "nat \<Rightarrow> char" where
  "hex_digit d = (if d < 10 then char_of (48 + d) else char_of (87 + d))"

fun hex_text :: "nat \<Rightarrow> string" where
  "hex_text n = (if n < 16 then [hex_digit n] else hex_text (n div 16) @ [hex_digit (n mod 16)])"

definition alt_hex_text :: "nat \<Rightarrow> string" where
  "alt_hex_text n = (if n = 0 then ''0'' else ''0x'' @ hex_text n)"

datatype format = Format_i | Format_x

definition format_text :: "format \<Rightarrow> u32 \<Rightarrow> string" where
  "format_text form imm = (case form of Format_i \<Rightarrow> print_int (sint imm) | Format_x \<Rightarrow> hex_text (unat imm))"

section \<open>The disassembler\<close>

definition overflow_error :: "nat \<Rightarrow> buffer \<Rightarrow> dis_error + buffer" where
  "overflow_error buf_size = (\<lambda>(result, used).
     if buf_size < 21 then Inl Overrun
     else rbind (put (''ERR: Buffer to small'' @ [nul]) (buf_size - 21) result) (\<lambda>result. Inr (result, buf_size)))"

definition add_mnemonic :: "string \<Rightarrow> nat \<Rightarrow> buffer \<Rightarrow> dis_error + buffer" where
  "add_mnemonic mnemonic buf_size = (\<lambda>(result, used).
     if used + 8 \<ge> buf_size then overflow_error buf_size (result, used)
     else rbind (put mnemonic used result) (\<lambda>result.
          rbind (put (replicate (8 - length mnemonic) (CHR '' '')) (used + length mnemonic) result) (\<lambda>result.
          Inr (result, used + length mnemonic + (8 - length mnemonic)))))"

definition unknown_instruction :: "nat \<Rightarrow> string \<Rightarrow> dis_error + string" where
  "unknown_instruction buf_size result =
     (if buf_size < 20 then Inr result else put (''Unknown instruction'' @ [nul]) 0 result)"

definition convert_registry :: "nat \<Rightarrow> dis_error + string" where
  "convert_registry reg_code =
     (if reg_code < 32
      then Inr ([''zero'', ''ra'', ''sp'', ''gp'', ''tp'', ''t0'', ''t1'', ''t2'',
                 ''s0'', ''s1'', ''a0'', ''a1'', ''a2'', ''a3'', ''a4'', ''a5'',
                 ''a6'', ''a7'', ''s2'', ''s3'', ''s4'', ''s5'', ''s6'', ''s7'',
                 ''s8'', ''s9'', ''s10'', ''s11'', ''t3'', ''t4'', ''t5'', ''t6''] ! reg_code)
      else Inl AssertFailed)"

datatype register = REGISTER_RD | REGISTER_RS1 | REGISTER_RS2

definition reg_field :: "u32 \<Rightarrow> register \<Rightarrow> u32" where
  "reg_field instruction registr =
     (case registr of
        REGISTER_RD \<Rightarrow> drop_bit 7 (instruction AND 0xF80)
      | REGISTER_RS1 \<Rightarrow> drop_bit 15 (instruction AND 0xF8000)
      | REGISTER_RS2 \<Rightarrow> drop_bit 20 (instruction AND 0x1F00000))"

definition decode_registre :: "u32 \<Rightarrow> register \<Rightarrow> bool \<Rightarrow> nat \<Rightarrow> buffer \<Rightarrow> dis_error + buffer" where
  "decode_registre instruction registr comma buf_size = (\<lambda>(result, used).
     rbind (convert_registry (unat (reg_field instruction registr))) (\<lambda>reg_char.
     if used + length reg_char \<ge> buf_size then overflow_error buf_size (result, used)
     else rbind (put reg_char used result) (\<lambda>result.
       let used = used + length reg_char in
       if comma then
         if used + 1 \<ge> buf_size then overflow_error buf_size (result, used)
         else rbind (put '','' used result) (\<lambda>result. Inr (result, used + 1))
       else Inr (result, used))))"

definition i_type_immediat_decode :: "u32 \<Rightarrow> i32" where
  "i_type_immediat_decode instruction =
     (let imm = drop_bit 20 (instruction AND 0xFFF00000) in
      if imm AND 0x800 = 0x800 then (imm AND 0x7FF) OR 0xFFFFF800 else imm)"

definition convert_imm_to_str :: "u32 \<Rightarrow> format \<Rightarrow> nat \<Rightarrow> buffer \<Rightarrow> dis_error + buffer" where
  "convert_imm_to_str imm form buf_size = (\<lambda>(result, used).
     let imm_char = format_text form imm in
     if length imm_char + 1 > 11 then Inl Overrun
     else if used + length imm_char \<ge> buf_size then overflow_error buf_size (result, used)
     else rbind (put imm_char used result) (\<lambda>result. Inr (result, used + length imm_char)))"

definition clear_buffer :: "string \<Rightarrow> string" where
  "clear_buffer result = replicate (length result) nul"

text \<open>\<open>add_mnemonic(m, result, &i, buf_size); result[--( *used)] = 0\<close>.\<close>

definition rename_and_cut :: "string \<Rightarrow> nat \<Rightarrow> buffer \<Rightarrow> dis_error + buffer" where
  "rename_and_cut mnemonic buf_size = (\<lambda>(result, used).
     rbind (add_mnemonic mnemonic buf_size (result, 0)) (\<lambda>(result, i).
     if used = 0 then Inl Overrun
     else rbind (put [nul] (used - 1) result) (\<lambda>result. Inr (result, used - 1))))"

definition handle_i_type :: "u32 \<Rightarrow> nat \<Rightarrow> buffer \<Rightarrow> dis_error + buffer" where
  "handle_i_type instruction buf_size b =
     rbind (decode_registre instruction REGISTER_RD True buf_size b) (\<lambda>b.
     rbind (decode_registre instruction REGISTER_RS1 True buf_size b) (\<lambda>(result, used).
     rbind (strcmp_before result used ''zero,'') (\<lambda>zero.
     let imm = i_type_immediat_decode instruction in
     if zero then
       rbind (add_mnemonic ''li'' buf_size (clear_buffer result, 0)) (\<lambda>b.
       rbind (decode_registre instruction REGISTER_RD True buf_size b) (\<lambda>b.
       convert_imm_to_str imm Format_i buf_size b))
     else
       if imm = 0 then
         rbind (strcmp_before result used ''zero,ra,'') (\<lambda>is_ret.
         if is_ret then add_mnemonic ''ret'' buf_size (clear_buffer result, 0)
         else rbind (starts_with result ''addi'') (\<lambda>is_addi.
           if is_addi then rename_and_cut ''mv'' buf_size (result, used)
           else convert_imm_to_str imm Format_i buf_size (result, used)))
       else if imm = 255 then rename_and_cut ''zext.b'' buf_size (result, used)
       else rbind (starts_with result ''xori'') (\<lambda>is_xori.
         if is_xori \<and> imm = - 1 then rename_and_cut ''not'' buf_size (result, used)
         else convert_imm_to_str imm Format_i buf_size (result, used)))))"

definition handle_i_type_shift :: "u32 \<Rightarrow> nat \<Rightarrow> buffer \<Rightarrow> dis_error + buffer" where
  "handle_i_type_shift instruction buf_size b =
     rbind (decode_registre instruction REGISTER_RD True buf_size b) (\<lambda>b.
     rbind (decode_registre instruction REGISTER_RS1 True buf_size b) (\<lambda>(result, used).
     let shift = drop_bit 20 (instruction AND 0x1F00000) in
     rbind (put (alt_hex_text (unat shift) @ [nul]) used result) (\<lambda>result. Inr (result, used))))"

definition handle_i_type_imm :: "u32 \<Rightarrow> nat \<Rightarrow> buffer \<Rightarrow> dis_error + buffer" where
  "handle_i_type_imm instruction buf_size b =
     rbind (decode_registre instruction REGISTER_RD True buf_size b) (\<lambda>b.
     rbind (decode_registre instruction REGISTER_RS1 True buf_size b) (\<lambda>(result, used).
     rbind (strcmp_before result used ''zero,'') (\<lambda>zero.
     if zero then
       rbind (add_mnemonic ''neg'' buf_size (result, 0)) (\<lambda>(result, i).
       rbind (put (replicate 5 nul) (used - 5) result) (\<lambda>result.
       decode_registre instruction REGISTER_RS2 False buf_size (result, used - 5)))
     else decode_registre instruction REGISTER_RS2 False buf_size (result, used))))"

text \<open>\<open>result[*used] = c; ( *used)++\<close>.\<close>

definition put_char :: "char \<Rightarrow> buffer \<Rightarrow> dis_error + buffer" where
  "put_char c = (\<lambda>(result, used). rbind (put [c] used result) (\<lambda>result. Inr (result, used + 1)))"

definition handle_i_type_load :: "u32 \<Rightarrow> nat \<Rightarrow> buffer \<Rightarrow> dis_error + buffer" where
  "handle_i_type_load instruction buf_size b =
     rbind (decode_registre instruction REGISTER_RD True buf_size b) (\<lambda>b.
     rbind (convert_imm_to_str (i_type_immediat_decode instruction) Format_i buf_size b) (\<lambda>b.
     rbind (put_char (CHR ''('') b) (\<lambda>b.
     rbind (decode_registre instruction REGISTER_RS1 False buf_size b) (\<lambda>b.
     put_char (CHR '')'') b))))"

definition handle_s_type :: "u32 \<Rightarrow> nat \<Rightarrow> buffer \<Rightarrow> dis_error + buffer" where
  "handle_s_type instruction buf_size b =
     rbind (decode_registre instruction REGISTER_RS2 True buf_size b) (\<lambda>b.
     let imm = drop_bit 20 (instruction AND 0xFE000000);
         imm_rd = drop_bit 7 (instruction AND 0xF80);
         imm = imm OR imm_rd;
         imm = (if imm AND 0x800 = 0x800 then (imm AND 0x7FF) OR 0xFFFFF800 else imm) in
     rbind (convert_imm_to_str imm Format_i buf_size b) (\<lambda>b.
     rbind (put_char (CHR ''('') b) (\<lambda>b.
     rbind (decode_registre instruction REGISTER_RS1 False buf_size b) (\<lambda>b.
     put_char (CHR '')'') b))))"

text \<open>The mnemonic at the start is replaced by the first of the list whose old name it starts with.\<close>

fun rename_first :: "(string \<times> string) list \<Rightarrow> nat \<Rightarrow> string \<Rightarrow> dis_error + string" where
  "rename_first [] buf_size result = Inr result"
| "rename_first ((old, new) # rs) buf_size result =
     rbind (starts_with result old) (\<lambda>hit.
     if hit then rbind (add_mnemonic new buf_size (result, 0)) (\<lambda>(result, i). Inr result)
     else rename_first rs buf_size result)"

definition drop_zero_operand :: "(string \<times> string) list \<Rightarrow> nat \<Rightarrow> buffer \<Rightarrow> dis_error + buffer" where
  "drop_zero_operand renames buf_size = (\<lambda>(result, used).
     rbind (strcmp_before result used ''zero,'') (\<lambda>zero.
     if zero then rbind (rename_first renames buf_size result) (\<lambda>result. Inr (result, used - 5))
     else Inr (result, used)))"

definition handle_b_type :: "u32 \<Rightarrow> u32 \<Rightarrow> nat \<Rightarrow> buffer \<Rightarrow> dis_error + buffer" where
  "handle_b_type addr instruction buf_size b =
     rbind (decode_registre instruction REGISTER_RS1 True buf_size b) (\<lambda>b.
     rbind (drop_zero_operand [(''bge'', ''blez''), (''blt'', ''bgtz'')] buf_size b) (\<lambda>b.
     rbind (decode_registre instruction REGISTER_RS2 True buf_size b) (\<lambda>b.
     rbind (drop_zero_operand [(''beq'', ''beqz''), (''bne'', ''bnez''), (''bge'', ''bgez''), (''blt'', ''bltz'')]
              buf_size b) (\<lambda>b.
     let imm_inst = instruction AND 0xFE000000;
         rd = instruction AND 0xF80;
         imm = drop_bit 7 (rd AND 0xF00) OR drop_bit 20 (imm_inst AND 0x7E000000) OR push_bit 4 (rd AND 0x80);
         imm = (if instruction AND 0x80000000 = 0x80000000 then imm OR 0xFFFFF000 else imm) in
     convert_imm_to_str (imm + addr) Format_x buf_size b))))"

definition handle_u_type :: "u32 \<Rightarrow> nat \<Rightarrow> buffer \<Rightarrow> dis_error + buffer" where
  "handle_u_type instruction buf_size b =
     rbind (decode_registre instruction REGISTER_RD True buf_size b) (\<lambda>(result, used).
     let imm = drop_bit 12 (instruction AND 0xFFFFF000) in
     rbind (put (alt_hex_text (unat imm) @ [nul]) used result) (\<lambda>result. Inr (result, used)))"

text \<open>The name of a symbol, read from its place in the string table to the next NUL byte.\<close>

definition sym_name :: "symbols \<Rightarrow> nat \<Rightarrow> dis_error + string" where
  "sym_name symbols off =
     (let tail = drop off (strtab symbols) in
      if 0 \<in> set tail then Inr (map (\<lambda>b. char_of (unat b)) (takeWhile (\<lambda>b. b \<noteq> 0) tail)) else Inl Overrun)"

definition jal_offset :: "u32 \<Rightarrow> u32" where
  "jal_offset instruction =
     (let func3 = instruction AND 0x7000;
          rs1 = instruction AND 0xF8000;
          rs2 = instruction AND 0x1F00000;
          imm_inst = instruction AND 0xFE000000;
          imm = drop_bit 20 (rs2 AND 0x1E00000) OR drop_bit 20 (imm_inst AND 0x7E000000) OR
                drop_bit 9 (rs2 AND 0x100000) OR (func3 OR rs1)
      in if instruction AND 0x80000000 = 0x80000000 then imm OR 0xFFFFF000 else imm)"

definition handle_j_type :: "u32 \<Rightarrow> u32 \<Rightarrow> nat \<Rightarrow> symbols \<Rightarrow> buffer \<Rightarrow> dis_error + buffer" where
  "handle_j_type addr instruction buf_size symbols b =
     rbind (decode_registre instruction REGISTER_RD True buf_size b) (\<lambda>(result, used).
     rbind (strcmp_before result used ''zero,'') (\<lambda>zero.
     rbind (if zero then rbind (put '' '' 1 result) (\<lambda>result. rbind (put '' '' 2 result) (\<lambda>result.
                           Inr (result, used - 5)))
            else Inr (result, used)) (\<lambda>b.
     rbind (convert_imm_to_str (jal_offset instruction + addr) Format_x buf_size b) (\<lambda>(result, used).
     case symbols_value_to_sym symbols addr of
       None \<Rightarrow> Inr (result, used)
     | Some off \<Rightarrow>
         rbind (sym_name symbols off) (\<lambda>sym.
         rbind (put ('' <'' @ sym @ ''>'' @ [nul]) used result) (\<lambda>result. Inr (result, used)))))))"

text \<open>The mnemonic chosen by the function code, and by bits 30 and 25 of the instruction.\<close>

definition func3_of :: "u32 \<Rightarrow> nat" where
  "func3_of instruction = unat (drop_bit 12 (instruction AND 0x7000))"

definition branch_mnemonic :: "nat \<Rightarrow> string option" where
  "branch_mnemonic func3 =
     map_of [(0, ''beq''), (1, ''bne''), (4, ''blt''), (5, ''bge''), (6, ''bltu''), (7, ''bgeu'')] func3"

definition load_mnemonic :: "nat \<Rightarrow> string option" where
  "load_mnemonic func3 = map_of [(0, ''lb''), (1, ''lh''), (2, ''lw''), (4, ''lbu''), (5, ''lhu'')] func3"

definition store_mnemonic :: "nat \<Rightarrow> string option" where
  "store_mnemonic func3 = map_of [(0, ''sb''), (1, ''sh''), (2, ''sw'')] func3"

definition imm_mnemonic :: "nat \<Rightarrow> string option" where
  "imm_mnemonic func3 =
     map_of [(0, ''addi''), (2, ''slti''), (3, ''sltiu''), (4, ''xori''), (6, ''ori''), (7, ''andi'')] func3"

definition numeric_mnemonic :: "nat \<Rightarrow> u32 \<Rightarrow> string option" where
  "numeric_mnemonic func3 instruction =
     (let b30 = (instruction AND 0x40000000 = 0x40000000); b25 = (instruction AND 0x2000000 = 0x2000000) in
      if func3 = 0 then Some (if b30 then ''sub'' else if b25 then ''mul'' else ''add'')
      else if func3 = 1 then Some (if b25 then ''mulh'' else ''sll'')
      else if func3 = 2 then Some (if b25 then ''mulhsu'' else ''slt'')
      else if func3 = 3 then Some (if b25 then ''mulhu'' else ''sltu'')
      else if func3 = 4 then Some (if b25 then ''div'' else ''xor'')
      else if func3 = 5 then Some (if b30 then ''sra'' else if b25 then ''divu'' else ''srl'')
      else if func3 = 6 then Some (if b25 then ''rem'' else ''or'')
      else if func3 = 7 then Some (if b25 then ''remu'' else ''and'')
      else None)"

text \<open>
  \<open>add_mnemonic\<close> and a handler, or \<open>unknown_instruction\<close> and \<open>return\<close>; the flag tells whether the
  function returned early.
\<close>

definition named :: "string option \<Rightarrow> (buffer \<Rightarrow> dis_error + buffer) \<Rightarrow> nat \<Rightarrow> buffer \<Rightarrow> dis_error + string \<times> bool" where
  "named mnemonic handler buf_size b =
     (case mnemonic of
        None \<Rightarrow> rbind (unknown_instruction buf_size (fst b)) (\<lambda>result. Inr (result, True))
      | Some m \<Rightarrow> rbind (add_mnemonic m buf_size b) (\<lambda>b. rbind (handler b) (\<lambda>(result, used). Inr (result, False))))"

definition dis_opcode :: "u32 \<Rightarrow> u32 \<Rightarrow> nat \<Rightarrow> symbols \<Rightarrow> buffer \<Rightarrow> dis_error + string \<times> bool" where
  "dis_opcode addr instruction buf_size symbols b =
     (let opcode = instruction AND 0x7F; func3 = func3_of instruction in
      if opcode = 0x37 then named (Some ''lui'') (handle_u_type instruction buf_size) buf_size b
      else if opcode = 0x17 then named (Some ''auipc'') (handle_u_type instruction buf_size) buf_size b
      else if opcode = 0x6F then named (Some ''jal'') (handle_j_type addr instruction buf_size symbols) buf_size b
      else if opcode = 0x67 then
        named (if func3 = 0 then Some ''jalr'' else None) (handle_i_type instruction buf_size) buf_size b
      else if opcode = 0x63 then named (branch_mnemonic func3) (handle_b_type addr instruction buf_size) buf_size b
      else if opcode = 0x3 then named (load_mnemonic func3) (handle_i_type_load instruction buf_size) buf_size b
      else if opcode = 0x23 then named (store_mnemonic func3) (handle_s_type instruction buf_size) buf_size b
      else if opcode = 0x13 then
        if func3 = 1 then named (Some ''slli'') (handle_i_type_shift instruction buf_size) buf_size b
        else if func3 = 5 then
          named (Some (if instruction AND 0x40000000 = 0x40000000 then ''srai'' else ''srli''))
            (handle_i_type_shift instruction buf_size) buf_size b
        else named (imm_mnemonic func3) (handle_i_type instruction buf_size) buf_size b
      else if opcode = 0x33 then
        named (numeric_mnemonic func3 instruction) (handle_i_type_imm instruction buf_size) buf_size b
      else if opcode = 0x73 then named (Some ''ecall'') Inr buf_size b
      else Inr (fst b, False))"

text \<open>The second component is the line that names the symbol at the address, if there is one.\<close>

definition disassemble :: "u32 \<Rightarrow> u32 \<Rightarrow> string \<Rightarrow> nat \<Rightarrow> symbols \<Rightarrow> dis_error + string \<times> (u32 \<times> string) option" where
  "disassemble addr instruction result buf_size symbols =
     (if buf_size > length result then Inl Overrun
      else
        let result = replicate buf_size nul @ drop buf_size result in
        rbind (case symbols_value_to_sym symbols addr of
                 None \<Rightarrow> Inr None
               | Some off \<Rightarrow> rbind (sym_name symbols off) (\<lambda>sym. Inr (Some (addr, sym)))) (\<lambda>title.
        rbind (dis_opcode addr instruction buf_size symbols (result, 0)) (\<lambda>(result, early).
        if early then Inr (result, title)
        else if result = [] then Inl Overrun
        else if result ! 0 = nul then rbind (unknown_instruction buf_size result) (\<lambda>result. Inr (result, title))
        else Inr (result, title))))"

end
