(* ===== verification/Sim_Main.thy ===== *)
theory Sim_Main
  imports Simulate_Correct Disassemble
begin

text \<open>
  The simulator program, \<open>Opgave5/src/main.c\<close>: the arguments of the simulated program are put into its
  memory, the program is loaded, and listed or run. The time that a run took is left out of the
  output. The theorems compose the loader, the memory and the simulator: what a run of the whole
  program does is a run of the specification from the bytes of the file.
\<close>

section \<open>Arguments for the simulated program\<close>

text \<open>An argument is a C string: its characters, without the NUL at the end.\<close>

definition separator :: string where
  "separator = ''--''"

function find_separator :: "string list \<Rightarrow> nat \<Rightarrow> nat \<times> bool" where
  "find_separator argv seperator_position =
     (if seperator_position < length argv
      then if argv ! seperator_position = separator then (seperator_position, True)
           else find_separator argv (seperator_position + 1)
      else (seperator_position, False))"
  by pat_completeness auto
termination by (relation "measure (\<lambda>(argv, p). length argv - p)") auto

declare find_separator.simps [simp del]

text \<open>The loop \<open>do ... while (c)\<close> over one string; \<open>char\<close> is signed.\<close>

fun write_string :: "string \<Rightarrow> u32 \<Rightarrow> memory \<Rightarrow> memory \<times> u32" where
  "write_string [] str_addr m = (memory_wr_b m str_addr 0, str_addr + 1)"
| "write_string (c # cs) str_addr m =
     write_string cs (str_addr + 1) (memory_wr_b m str_addr (scast (of_char c :: u8)))"

text \<open>The loop over the arguments: \<open>index\<close> counts from 0.\<close>

fun write_args :: "string list \<Rightarrow> nat \<Rightarrow> u32 \<Rightarrow> u32 \<Rightarrow> memory \<Rightarrow> mem_error + memory" where
  "write_args [] index argv_addr str_addr m = Inr m"
| "write_args (cp # cps) index argv_addr str_addr m =
     rbind (memory_wr_w m (argv_addr + 4 * of_nat index) str_addr) (\<lambda>m.
       let (m, str_addr) = write_string cp str_addr m in write_args cps (index + 1) argv_addr str_addr m)"

definition pass_args_to_program :: "memory \<Rightarrow> string list \<Rightarrow> mem_error + memory \<times> nat" where
  "pass_args_to_program m argv =
     (let (seperator_position, seperator_found) = find_separator argv 1 in
      if seperator_found then
        let first_arg = seperator_position;
            num_args = length argv - first_arg;
            count_addr = 0x1000000; argv_addr = 0x1000004;
            str_addr = argv_addr + 4 * of_nat num_args in
        rbind (memory_wr_w m count_addr (of_nat num_args)) (\<lambda>m.
        rbind (write_args (drop first_arg argv) 0 argv_addr str_addr m) (\<lambda>m. Inr (m, seperator_position)))
      else Inr (m, seperator_position))"

section \<open>Disassembling a program\<close>

datatype main_error = ElfCrash elf_crash | DisCrash dis_error | MemCrash mem_error | SimCrash sim_error

record dis_line =
  line_title :: "(u32 \<times> string) option"
  line_addr :: u32
  line_inst :: u32
  line_text :: string

text \<open>
  The loop over the text segment. The address wraps around, so that a segment that ends in the last
  word of the address space never ends: the loop has fuel.
\<close>

fun disassemble_loop :: "nat \<Rightarrow> memory \<Rightarrow> u32 \<Rightarrow> u32 \<Rightarrow> string \<Rightarrow> symbols \<Rightarrow> (main_error + dis_line list) option" where
  "disassemble_loop 0 m addr endp disassembly symbols = None"
| "disassemble_loop (Suc fuel) m addr endp disassembly symbols =
     (if addr < endp then
        case memory_rd_w m addr of
          Inl e \<Rightarrow> Some (Inl (MemCrash e))
        | Inr (m, instruction) \<Rightarrow>
            (case disassemble addr instruction disassembly 100 symbols of
               Inl e \<Rightarrow> Some (Inl (DisCrash e))
             | Inr (disassembly, title) \<Rightarrow>
                 map_option (\<lambda>r. rbind r (\<lambda>ls. Inr (\<lparr>line_title = title, line_addr = addr, line_inst = instruction,
                     line_text = cstr disassembly\<rparr> # ls)))
                   (disassemble_loop fuel m (addr + 4) endp disassembly symbols))
      else Some (Inr []))"

definition disassemble_to_stdout :: "nat \<Rightarrow> memory \<Rightarrow> program_info \<Rightarrow> string \<Rightarrow> symbols \<Rightarrow> (main_error + dis_line list) option" where
  "disassemble_to_stdout fuel m prog_info disassembly symbols =
     disassemble_loop fuel m (text_start prog_info) (text_end prog_info) disassembly symbols"

section \<open>The program\<close>

text \<open>How the process ends, and what the run left.\<close>

datatype main_end =
    Terminated string
  | Exited i32
  | Disassembly "dis_line list"
  | Simulated sim "(string \<times> nat list) list" "string option"

text \<open>
  The environment: the files, which of them can be opened for writing, when \<open>malloc\<close> succeeds,
  the uninitialised structures, standard input.
\<close>

record main_env =
  env_files :: "string \<Rightarrow> bytes option"
  env_writable :: "string \<Rightarrow> bool"
  env_alloc :: "u32 \<Rightarrow> bool"
  env_info :: program_info
  env_buffer :: string
  env_stdin :: bytes

text \<open>Opening a file for writing empties it.\<close>

definition truncate_file :: "string \<Rightarrow> (string \<Rightarrow> bytes option) \<Rightarrow> string \<Rightarrow> bytes option" where
  "truncate_file name files = files(name := Some [])"

definition run_simulation :: "nat \<Rightarrow> main_env \<Rightarrow> string list \<Rightarrow> nat \<Rightarrow> memory \<Rightarrow> program_info \<Rightarrow> elf_log \<Rightarrow>
    (main_error + main_end) option" where
  "run_simulation fuel env argv argc m prog_info log_file =
     (case simulate fuel (log_file \<noteq> None) m (start prog_info) (env_stdin env) of
        None \<Rightarrow> None
      | Some (Inl e) \<Rightarrow> Some (Inl (SimCrash e))
      | Some (Inr (s, summary)) \<Rightarrow>
          if argc = 4 \<and> argv ! 2 = ''-s''
          then if env_writable env (argv ! 3) then Some (Inr (Simulated s summary (Some (argv ! 3))))
               else Some (Inr (Terminated ''Could not open logfile, terminating.''))
          else Some (Inr (Simulated s summary (if log_file \<noteq> None then Some (argv ! 3) else None))))"

definition run_program :: "nat \<Rightarrow> main_env \<Rightarrow> (string \<Rightarrow> bytes option) \<Rightarrow> string list \<Rightarrow> nat \<Rightarrow> memory \<Rightarrow> elf_log \<Rightarrow>
    (main_error + main_end) option" where
  "run_program fuel env files argv argc m log_file =
     (case read_elf files (env_alloc env) m (env_info env) (argv ! 1) log_file of
        Inl e \<Rightarrow> Some (Inl (ElfCrash e))
      | Inr (status, m, prog_info, log_file) \<Rightarrow>
          if status \<noteq> 0 then Some (Inr (Exited status))
          else case symbols_read_from_elf files (argv ! 1) of
            None \<Rightarrow> Some (Inr (Exited (- 1)))
          | Some symbols \<Rightarrow>
              if argc = 3 \<and> argv ! 2 = ''-d''
              then map_option (\<lambda>r. rbind r (\<lambda>ls. Inr (Disassembly ls)))
                     (disassemble_to_stdout fuel m prog_info (env_buffer env) symbols)
              else run_simulation fuel env argv argc m prog_info log_file)"

definition sim_main :: "nat \<Rightarrow> main_env \<Rightarrow> string list \<Rightarrow> (main_error + main_end) option" where
  "sim_main fuel env argv =
     (case pass_args_to_program memory_create argv of
        Inl e \<Rightarrow> Some (Inl (MemCrash e))
      | Inr (m, argc) \<Rightarrow>
          if argc = 2 \<or> argc = 3 \<or> argc = 4 then
            if argc = 4 \<and> argv ! 2 = ''-l'' then
              if env_writable env (argv ! 3)
              then run_program fuel env (truncate_file (argv ! 3) (env_files env)) argv argc m (Some [])
              else Some (Inr (Terminated ''Could not open logfile, terminating.''))
            else if argc = 4 \<and> argv ! 2 = ''-p'' then
              if env_writable env (argv ! 3)
              then run_program fuel env (truncate_file (argv ! 3) (env_files env)) argv argc m None
              else Some (Inr (Terminated ''Could not open file for exec profile, terminating.''))
            else run_program fuel env (env_files env) argv argc m None
          else Some (Inr (Terminated ''Missing operands'')))"


section \<open>The arguments in memory\<close>

text \<open>The flat memory with a block of bytes written from an address on.\<close>

definition overlay :: "i32 \<Rightarrow> bytes \<Rightarrow> (i32 \<Rightarrow> u8) \<Rightarrow> i32 \<Rightarrow> u8" where
  "overlay b xs f = (\<lambda>a. if unat (a - b) < length xs then xs ! unat (a - b) else f a)"

definition word_bytes :: "u32 \<Rightarrow> bytes" where
  "word_bytes w = [byte_of 0 w, byte_of 1 w, byte_of 2 w, byte_of 3 w]"

definition string_bytes :: "string \<Rightarrow> bytes" where
  "string_bytes s = map of_char s @ [0]"

text \<open>
  The block at \<open>0x1000000\<close>: the number of arguments, their addresses, and their strings one after the
  other.
\<close>

fun string_addrs :: "string list \<Rightarrow> u32 \<Rightarrow> u32 list" where
  "string_addrs [] a = []"
| "string_addrs (s # ss) a = a # string_addrs ss (a + of_nat (length s + 1))"

definition args_block :: "string list \<Rightarrow> bytes" where
  "args_block args =
     word_bytes (of_nat (length args)) @
     concat (map word_bytes (string_addrs args (0x1000004 + 4 * of_nat (length args)))) @
     concat (map string_bytes args)"

lemma unat_diff_offset:
  fixes a b :: u32
  assumes "k < 2 ^ 32"
  shows "unat (a - (b + of_nat k)) = (if k \<le> unat (a - b) then unat (a - b) - k else unat (a - b) + 2 ^ 32 - k)"
proof -
  have k: "unat (of_nat k :: u32) = k" using assms by (simp add: unat_of_nat take_bit_nat_eq_self)
  have e: "a - (b + of_nat k) = (a - b) - of_nat k" by (simp add: diff_diff_eq)
  show ?thesis unfolding e using unat_sub_if' [of "a - b" "of_nat k"] by (auto simp: k)
qed

lemma overlay_append:
  assumes "length xs + length ys < 2 ^ 32"
  shows "overlay b (xs @ ys) f = overlay (b + of_nat (length xs)) ys (overlay b xs f)"
proof
  fix a
  have x: "length xs < 2 ^ 32" using assms by simp
  show "overlay b (xs @ ys) f a = overlay (b + of_nat (length xs)) ys (overlay b xs f) a"
    using assms unat_less [of "a - b"]
    by (auto simp: overlay_def unat_diff_offset [OF x] nth_append)
qed

lemma overlay_commute:
  assumes "length xs \<le> d" "d + length ys \<le> 2 ^ 32" "d < 2 ^ 32"
  shows "overlay b xs (overlay (b + of_nat d) ys f) = overlay (b + of_nat d) ys (overlay b xs f)"
proof
  fix a
  show "overlay b xs (overlay (b + of_nat d) ys f) a = overlay (b + of_nat d) ys (overlay b xs f) a"
    using assms unat_less [of "a - b"] by (auto simp: overlay_def unat_diff_offset [OF assms(3)])
qed

lemma overlay_single: "overlay b [x] f = f(b := x)"
proof
  fix a show "overlay b [x] f a = (f(b := x)) a"
    by (auto simp: overlay_def unsigned_eq_0_iff)
qed

lemma flat_write_string:
  assumes "length s + 1 < 2 ^ 32"
  shows "flat (fst (write_string s a m)) = overlay a (string_bytes s) (flat m)"
    "snd (write_string s a m) = a + of_nat (length s + 1)"
  using assms
proof (induction s arbitrary: a m)
  case Nil
  { case 1 show ?case by (simp add: string_bytes_def overlay_single mem_simps) }
  { case 2 show ?case by simp }
next
  case (Cons c s)
  { case 1
    have "string_bytes (c # s) = [of_char c] @ string_bytes s" by (simp add: string_bytes_def)
    moreover have "ucast (scast (of_char c :: u8) :: u32) = (of_char c :: u8)"
      by (simp add: word8_eq_iff bit_simps)
    moreover have "overlay a ([of_char c] @ string_bytes s) (flat m) = overlay (a + 1) (string_bytes s) (overlay a [of_char c] (flat m))"
      using overlay_append [of "[of_char c]" "string_bytes s" a "flat m"] 1 by (simp add: string_bytes_def)
    ultimately show ?case
      using Cons.IH(1) [of "a + 1"] 1 by (simp add: overlay_single mem_simps) }
  { case 2 then show ?case using Cons.IH(2) by (simp add: algebra_simps) }
qed

lemma flat_wr_w_overlay:
  assumes "a AND 3 = 0"
  shows "\<exists>m'. memory_wr_w m a d = Inr m' \<and> flat m' = overlay a (word_bytes d) (flat m)"
proof -
  obtain m' where m': "memory_wr_w m a d = Inr m'"
    using assms memory_wr_w_ok(1) [of m a d] by (cases "memory_wr_w m a d") auto
  have "overlay a (word_bytes d) (flat m) =
      (flat m)(a := byte_of 0 d, a + 1 := byte_of 1 d, a + 2 := byte_of 2 d, a + 3 := byte_of 3 d)"
    using overlay_append [of "[byte_of 0 d]" "[byte_of 1 d, byte_of 2 d, byte_of 3 d]" a "flat m"]
      overlay_append [of "[byte_of 1 d]" "[byte_of 2 d, byte_of 3 d]" "a + 1"]
      overlay_append [of "[byte_of 2 d]" "[byte_of 3 d]" "a + 2"]
    by (simp add: word_bytes_def overlay_single algebra_simps)
  then show ?thesis using flat_wr_w [OF m'] m' by auto
qed


lemma length_string_addrs [simp]: "length (string_addrs ss a) = length ss"
  by (induction ss arbitrary: a) auto

lemma length_word_bytes [simp]: "length (word_bytes w) = 4"
  by (simp add: word_bytes_def)

lemma length_concat_words [simp]: "length (concat (map word_bytes ws)) = 4 * length ws"
  by (induction ws) auto

lemma length_string_bytes [simp]: "length (string_bytes s) = Suc (length s)"
  by (simp add: string_bytes_def)

lemma next_aligned:
  fixes a :: u32
  assumes "a AND 3 = 0"
  shows "(a + 4) AND 3 = 0"
proof -
  have "uint a mod 4 = 0" using assms by (simp add: aligned_iff)
  then have "(uint a + 4) mod 2 ^ 32 mod 4 = 0" by (subst mod_mod_cancel) simp_all
  then show ?thesis by (simp add: aligned_iff uint_word_ariths)
qed

lemma flat_write_args:
  assumes "4 * length cps \<le> d" "d + length (concat (map string_bytes cps)) < 2 ^ 32"
    "(av + 4 * of_nat k) AND 3 = 0" "sa = av + 4 * of_nat k + of_nat d"
  shows "\<exists>m'. write_args cps k av sa m = Inr m' \<and>
    flat m' = overlay (av + 4 * of_nat k) (concat (map word_bytes (string_addrs cps sa)))
                (overlay sa (concat (map string_bytes cps)) (flat m))"
  using assms
proof (induction cps arbitrary: k sa m d)
  case Nil
  then show ?case by (simp add: overlay_def)
next
  case (Cons s cps)
  let ?a = "av + 4 * of_nat k" and ?S = "concat (map string_bytes cps)"
  let ?sa = "sa + of_nat (length s + 1)"
  let ?A = "concat (map word_bytes (string_addrs cps ?sa))"
  obtain m1 where m1: "memory_wr_w m ?a sa = Inr m1" "flat m1 = overlay ?a (word_bytes sa) (flat m)"
    using flat_wr_w_overlay [OF Cons.prems(3)] by blast
  have len: "length s + 1 < 2 ^ 32" "length (string_bytes s) + length ?S < 2 ^ 32" using Cons.prems(2) by auto
  obtain m2 where m2: "write_string s sa m1 = (m2, ?sa)" "flat m2 = overlay sa (string_bytes s) (flat m1)"
    using flat_write_string [OF len(1), of sa m1] by (cases "write_string s sa m1") auto
  have next_word: "av + 4 * of_nat (k + 1) = ?a + 4" by (simp add: algebra_simps)
  have "\<exists>m'. write_args cps (k + 1) av ?sa m2 = Inr m' \<and>
      flat m' = overlay (av + 4 * of_nat (k + 1)) ?A (overlay ?sa ?S (flat m2))"
  proof (rule Cons.IH [of "d - 4 + length s + 1"])
    show "4 * length cps \<le> d - 4 + length s + 1" "d - 4 + length s + 1 + length ?S < 2 ^ 32"
      using Cons.prems(1,2) by auto
    show "(av + 4 * of_nat (k + 1)) AND 3 = 0" unfolding next_word by (rule next_aligned [OF Cons.prems(3)])
    have "(of_nat (d - 4 + length s + 1) :: u32) = of_nat d - 4 + of_nat (length s + 1)"
      using Cons.prems(1) by (simp add: of_nat_diff)
    then show "?sa = av + 4 * of_nat (k + 1) + of_nat (d - 4 + length s + 1)"
      using Cons.prems(4) by (simp add: next_word)
  qed
  then obtain m' where m': "write_args cps (k + 1) av ?sa m2 = Inr m'"
      "flat m' = overlay (?a + 4) ?A (overlay ?sa ?S (overlay sa (string_bytes s) (overlay ?a (word_bytes sa) (flat m))))"
    unfolding next_word m2(2) m1(2) by blast
  have "overlay ?sa ?S (overlay sa (string_bytes s) f) = overlay sa (string_bytes s @ ?S) f" for f
    using overlay_append [OF len(2), of sa f] by simp
  moreover have "overlay sa (string_bytes s @ ?S) (overlay ?a (word_bytes sa) (flat m)) =
      overlay ?a (word_bytes sa) (overlay sa (string_bytes s @ ?S) (flat m))"
    unfolding Cons.prems(4) by (rule overlay_commute [symmetric]) (use Cons.prems(1,2) in auto)
  moreover have "overlay ?a (word_bytes sa @ ?A) f = overlay (?a + 4) ?A (overlay ?a (word_bytes sa) f)" for f
    using overlay_append [of "word_bytes sa" ?A ?a f] Cons.prems(1,2) by simp
  ultimately show ?case
    using m1(1) m2(1) m' by simp
qed


lemma find_separator_at:
  assumes "separator \<notin> set (drop p pre)" "p \<le> length pre"
  shows "find_separator (pre @ separator # args) p = (length pre, True)"
  using assms
proof (induction "length pre - p" arbitrary: p)
  case 0
  then show ?case by (simp add: find_separator.simps [of _ p] nth_append)
next
  case (Suc d)
  then have p: "p < length pre" "drop p pre = pre ! p # drop (Suc p) pre" by (simp_all add: Cons_nth_drop_Suc)
  with Suc.prems have "pre ! p \<noteq> separator" "separator \<notin> set (drop (Suc p) pre)" by auto
  with Suc.hyps(1) [of "Suc p"] Suc.hyps(2) p show ?case
    by (simp add: find_separator.simps [of _ p] nth_append)
qed

lemma find_separator_none:
  assumes "separator \<notin> set (drop p argv)" "p \<le> length argv"
  shows "find_separator argv p = (length argv, False)"
  using assms
proof (induction "length argv - p" arbitrary: p)
  case 0
  then show ?case by (simp add: find_separator.simps [of _ p])
next
  case (Suc d)
  then have p: "p < length argv" "drop p argv = argv ! p # drop (Suc p) argv" by (simp_all add: Cons_nth_drop_Suc)
  with Suc.prems have "argv ! p \<noteq> separator" "separator \<notin> set (drop (Suc p) argv)" by auto
  with Suc.hyps(1) [of "Suc p"] Suc.hyps(2) p show ?case
    by (simp add: find_separator.simps [of _ p])
qed

lemma args_written:
  assumes "length (args_block args) < 2 ^ 32"
  shows "\<exists>m'. rbind (memory_wr_w m 0x1000000 (of_nat (length args))) (\<lambda>m.
      write_args args 0 0x1000004 (0x1000004 + 4 * of_nat (length args)) m) = Inr m' \<and>
    flat m' = overlay 0x1000000 (args_block args) (flat m)"
proof -
  let ?n = "length args" and ?b = "0x1000000 :: u32"
  let ?sa = "0x1000004 + 4 * of_nat ?n :: u32"
  let ?A = "concat (map word_bytes (string_addrs args ?sa))" and ?S = "concat (map string_bytes args)"
  let ?W = "word_bytes (of_nat ?n)"
  have len: "4 + 4 * ?n + length ?S < 2 ^ 32" using assms by (simp add: args_block_def)
  have al: "(0x1000000 :: u32) AND 3 = 0" by simp
  obtain m1 where m1: "memory_wr_w m 0x1000000 (of_nat ?n) = Inr m1" "flat m1 = overlay ?b ?W (flat m)"
    using flat_wr_w_overlay [OF al] by blast
  have "\<exists>m'. write_args args 0 0x1000004 ?sa m1 = Inr m' \<and>
    flat m' = overlay (0x1000004 + 4 * of_nat 0) ?A (overlay ?sa ?S (flat m1))"
    by (rule flat_write_args [where d = "4 * ?n"]) (use len in auto)
  then obtain m' where m': "write_args args 0 0x1000004 ?sa m1 = Inr m'"
    "flat m' = overlay 0x1000004 ?A (overlay ?sa ?S (overlay ?b ?W (flat m)))" using m1(2) by auto
  have sa: "?sa = ?b + of_nat (4 + 4 * ?n)" "?sa = 0x1000004 + of_nat (4 * ?n)" by simp_all
  have "overlay 0x1000004 ?A (overlay ?sa ?S f) = overlay ?sa ?S (overlay 0x1000004 ?A f)" for f
    unfolding sa(2) by (rule overlay_commute) (use len in auto)
  moreover have "overlay ?b (?W @ ?A @ ?S) f = overlay 0x1000004 (?A @ ?S) (overlay ?b ?W f)" for f
    using overlay_append [of ?W "?A @ ?S" ?b f] len by simp
  moreover have "overlay 0x1000004 (?A @ ?S) f = overlay ?sa ?S (overlay 0x1000004 ?A f)" for f
    using overlay_append [of ?A ?S "0x1000004" f] len by simp
  ultimately have "flat m' = overlay ?b (args_block args) (flat m)" using m'(2) by (simp add: args_block_def)
  with m1(1) m'(1) show ?thesis by auto
qed


lemma pass_args_block:
  assumes "pre \<noteq> []" "separator \<notin> set (tl pre)" "length (args_block (separator # args)) < 2 ^ 32"
  obtains m' where "pass_args_to_program m (pre @ separator # args) = Inr (m', length pre)"
    "flat m' = overlay 0x1000000 (args_block (separator # args)) (flat m)"
proof -
  have "find_separator (pre @ separator # args) 1 = (length pre, True)"
    by (rule find_separator_at) (use assms in \<open>auto simp: drop_Suc Suc_le_eq\<close>)
  then show ?thesis
    using args_written [OF assms(3), of m] that
    by (auto simp: pass_args_to_program_def Let_def rbind_eq_Inr)
qed

lemma pass_args_none:
  "separator \<notin> set (tl argv) \<Longrightarrow> argv \<noteq> [] \<Longrightarrow> pass_args_to_program m argv = Inr (m, length argv)"
  using find_separator_none [of 1 argv] by (simp add: pass_args_to_program_def drop_Suc Suc_le_eq)

text \<open>The state in which a loaded program starts, for the specification.\<close>

definition isa_start :: "bytes \<Rightarrow> string list \<Rightarrow> bytes \<Rightarrow> isa" where
  "isa_start img args inp =
     \<lparr>xregs = (\<lambda>r. replicate 32 0 ! r), xpc = e_entry (elf_header_of img),
      xmem = memory_image img (overlay 0x1000000 (args_block (separator # args)) (\<lambda>_. 0))
               (unat (e_phnum (elf_header_of img))),
      xin = inp, xout = []\<rparr>"

text \<open>
  With a separator on the command line, \<open>pass_args_to_program\<close> writes one block at \<open>0x1000000\<close>: the
  number of arguments (the separator counts), a table of the addresses of the strings, and the strings
  with their ends, in order; no other byte of memory changes. It returns the position of the
  separator. Without one, it changes nothing and returns the number of arguments.
\<close>

theorem pass_args_layout:
  assumes "pre \<noteq> []" "separator \<notin> set (tl pre)" "length (args_block (separator # args)) < 2 ^ 32"
  shows "(\<exists>m'. pass_args_to_program m (pre @ separator # args) = Inr (m', length pre) \<and>
      flat m' = overlay 0x1000000 (args_block (separator # args)) (flat m)) \<and>
    pass_args_to_program m pre = Inr (m, length pre)"
  using pass_args_block [OF assms] pass_args_none [OF assms(2,1)] by metis

theorem pass_args_layout_witness:
  "\<exists>m'. pass_args_to_program memory_create [''sim'', ''prog'', separator, ''x''] = Inr (m', 2) \<and>
     flat m' 0x100000f = of_char (CHR ''x'')"
proof -
  have len: "length (args_block [separator, ''x'']) < 2 ^ 32" by (simp add: args_block_def separator_def)
  have "separator \<notin> set (tl [''sim'', ''prog''])" by (simp add: separator_def)
  with pass_args_layout [of "[''sim'', ''prog'']" "[''x'']" memory_create] len obtain m' where
    "pass_args_to_program memory_create [''sim'', ''prog'', separator, ''x''] = Inr (m', 2)"
    "flat m' = overlay 0x1000000 (args_block [separator, ''x'']) (flat memory_create)" by auto
  then show ?thesis by (simp add: overlay_def args_block_def separator_def string_bytes_def word_bytes_def)
qed

text \<open>
  C16: A run of the simulator on a program with arguments is a run of the specification. Given that
  the file can be loaded and has symbols, and that the instructions it executes are supported, the
  program starts in memory that holds the segments of the file over the arguments, at the entry
  point of the file; the run ends as the specification does, with its registers, memory and output, after
  as many steps, and prints the counts of that run.
\<close>

theorem sim_main_runs_isa:
  assumes "prog \<noteq> separator" "length (args_block (separator # args)) < 2 ^ 32"
    "env_files env prog = Some img" "elf_ok img (env_alloc env)" "symbols_of_file img \<noteq> None"
    "supported_for n (isa_start img args (env_stdin env))"
  shows "case isa_loop n (isa_start img args (env_stdin env)) of
      None \<Rightarrow> sim_main n env (cmd # prog # separator # args) = None
    | Some (Exit x) \<Rightarrow> (\<exists>s. abs_sim s = x \<and>
        (\<forall>k. sim_main (n + k) env (cmd # prog # separator # args) = Some (Inr (Simulated s (print_summary s) None))))
    | Some y \<Rightarrow> y = Misaligned \<and>
        (\<exists>e. \<forall>k. sim_main (n + k) env (cmd # prog # separator # args) = Some (Inl (SimCrash (MemError e))))"
proof -
  let ?argv = "[cmd, prog] @ separator # args"
  obtain m1 where m1: "pass_args_to_program memory_create ?argv = Inr (m1, length [cmd, prog])"
      "flat m1 = overlay 0x1000000 (args_block (separator # args)) (flat memory_create)"
    using pass_args_block [of "[cmd, prog]" args memory_create] assms(1,2) by auto
  obtain m2 info where m2: "read_elf (env_files env) (env_alloc env) m1 (env_info env) prog None = Inr (0, m2, info, None)"
      "flat m2 = memory_image img (flat m1) (unat (e_phnum (elf_header_of img)))" "start info = e_entry (elf_header_of img)"
    using read_elf_loads [where files = "env_files env", OF assms(3,4)] by metis
  obtain sy where sy: "symbols_read_from_elf (env_files env) prog = Some sy"
    using assms(3,5) by (auto simp: symbols_read_eq)
  have main: "sim_main j env ?argv =
      (case simulate j False m2 (start info) (env_stdin env) of
         None \<Rightarrow> None | Some (Inl e) \<Rightarrow> Some (Inl (SimCrash e))
       | Some (Inr (s, summary)) \<Rightarrow> Some (Inr (Simulated s summary None)))" for j
    using m1(1) m2(1) sy by (simp add: sim_main_def run_program_def run_simulation_def cong: option.case_cong sum.case_cong prod.case_cong)
  have x: "abs_sim (init_sim m2 (start info) (env_stdin env)) = isa_start img args (env_stdin env)"
    using m1(2) m2(2,3) by (simp add: abs_sim_def init_sim_def isa_start_def flat_create)
  show ?thesis
    using simulate_run [of n m2 "start info" "env_stdin env" False] assms(6)
    unfolding x by (auto simp: main [simplified] split: option.splits isa_result.splits)
qed


text \<open>A file of 189 bytes: a header, a segment with two instructions, a symbol table and a string table.\<close>

definition demo_elf :: bytes where
  "demo_elf =
     ELFMAG @ replicate 12 0 @ [2, 0, 0xf3, 0] @
     concat (map word_bytes [1, 0x10054, 52, 92, 0]) @ [52, 0, 32, 0, 1, 0, 40, 0, 2, 0, 0, 0] @
     concat (map word_bytes [1, 0, 0x10000, 0x10000, 92, 92, 5, 0x1000]) @
     concat (map word_bytes [0x00300893, 0x00000073]) @
     concat (map word_bytes [0, 2, 0, 0, 172, 16, 1, 0, 4, 16]) @
     concat (map word_bytes [0, 3, 0, 0, 188, 1, 0, 0, 1, 0]) @
     concat (map word_bytes [0, 0x10054, 0, 0x12]) @ [0]"

lemma demo_elf_header:
  "e_phnum (elf_header_of demo_elf) = 1" "e_entry (elf_header_of demo_elf) = 0x10054"
  "program_header_at demo_elf 0 = \<lparr>p_type = 1, p_offset = 0, p_vaddr = 0x10000, p_paddr = 0x10000,
     p_filesz = 92, p_memsz = 92, p_flags = 5, p_align = 0x1000\<rparr>"
  by code_simp+

lemma demo_elf_ok: "elf_ok demo_elf (\<lambda>_. True)"
proof -
  have "segment_ok demo_elf (\<lambda>_. True) 0" by code_simp
  moreover have "52 \<le> length demo_elf" "take 4 demo_elf = ELFMAG" by code_simp+
  ultimately show ?thesis by (simp add: elf_ok_def demo_elf_header)
qed

lemma demo_elf_symbols: "symbols_of_file demo_elf \<noteq> None"
proof -
  have "\<not> Option.is_none (symbols_of_file demo_elf)" by code_simp
  then show ?thesis by (simp add: Option.is_none_def)
qed

lemma demo_elf_code: "map (\<lambda>k. demo_elf ! k) [0x54..<0x5c] = [0x93, 0x08, 0x30, 0, 0x73, 0, 0, 0]"
  by code_simp


definition demo_env :: main_env where
  "demo_env = \<lparr>env_files = (\<lambda>_. Some demo_elf), env_writable = (\<lambda>_. False), env_alloc = (\<lambda>_. True),
     env_info = \<lparr>text_start = 0, text_end = 0, start = 0\<rparr>, env_buffer = replicate 100 nul, env_stdin = []\<rparr>"

definition demo_state :: "u32 \<Rightarrow> i32 \<Rightarrow> isa" where
  "demo_state apc v = (isa_start demo_elf [] [])\<lparr>xregs := (\<lambda>r. replicate 32 0 ! r)(17 := v), xpc := apc\<rparr>"

lemma demo_state_start: "isa_start demo_elf [] [] = demo_state 0x10054 0"
  by (auto simp: demo_state_def isa_start_def demo_elf_header)

lemma demo_state_mem:
  "k < 92 \<Longrightarrow> xmem (demo_state apc v) (0x10000 + of_nat k) = demo_elf ! k"
  by (simp add: demo_state_def isa_start_def demo_elf_header segment_byte_def PT_LOAD_def unat_of_nat take_bit_nat_eq_self)

lemma demo_state_fetch:
  "isa_decode (word_of_int (word_at (demo_state apc v) 0x10054)) = Some (OpImm ADDI 17 0 3)"
  "isa_decode (word_of_int (word_at (demo_state apc v) 0x10058)) = Some ECALL"
proof -
  have c: "demo_elf ! 84 = 0x93" "demo_elf ! 85 = 0x08" "demo_elf ! 86 = 0x30" "demo_elf ! 87 = 0"
    "demo_elf ! 88 = 0x73" "demo_elf ! 89 = 0" "demo_elf ! 90 = 0" "demo_elf ! 91 = 0" by code_simp+
  show "isa_decode (word_of_int (word_at (demo_state apc v) 0x10054)) = Some (OpImm ADDI 17 0 3)"
    using demo_state_mem [of 84 apc v] demo_state_mem [of 85 apc v] demo_state_mem [of 86 apc v] demo_state_mem [of 87 apc v]
    by (simp add: word_at_def Riscv_Spec.half_at_def c demo_decode)
  show "isa_decode (word_of_int (word_at (demo_state apc v) 0x10058)) = Some ECALL"
    using demo_state_mem [of 88 apc v] demo_state_mem [of 89 apc v] demo_state_mem [of 90 apc v] demo_state_mem [of 91 apc v]
    by (simp add: word_at_def Riscv_Spec.half_at_def c demo_decode)
qed

lemma demo_state_steps:
  "isa_step (demo_state 0x10054 0) = Continue (demo_state 0x10058 3)"
  "isa_step (demo_state 0x10058 3) = Exit (demo_state 0x10058 3)"
proof -
  have x: "xpc (demo_state apc v) = apc" "xregs (demo_state apc v) = (\<lambda>r. replicate 32 0 ! r)(17 := v)" for apc v
    by (simp_all add: demo_state_def)
  show "isa_step (demo_state 0x10054 0) = Continue (demo_state 0x10058 3)"
    by (simp add: isa_step_def demo_state_fetch x xget_def) (simp add: xset_def xnext_def demo_state_def)
  show "isa_step (demo_state 0x10058 3) = Exit (demo_state 0x10058 3)"
    by (simp add: isa_step_def demo_state_fetch x xget_def isa_ecall_def)
qed

lemma demo_state_supported: "supported_for (Suc (Suc 0)) (demo_state 0x10054 0)"
proof -
  have "xpc (demo_state apc v) = apc" for apc v by (simp add: demo_state_def)
  then show ?thesis by (simp add: demo_state_steps supported_def demo_state_fetch)
qed

theorem sim_main_runs_isa_witness:
  "\<exists>s. sim_main 2 demo_env [''sim'', ''prog'', separator] = Some (Inr (Simulated s (print_summary s) None)) \<and> regs s ! 17 = 3"
proof -
  have "length (args_block [separator]) < 2 ^ 32" by (simp add: args_block_def separator_def)
  moreover have "isa_loop (Suc (Suc 0)) (isa_start demo_elf [] []) = Some (Exit (demo_state 0x10058 3))"
    by (simp add: demo_state_start demo_state_steps)
  moreover have "supported_for (Suc (Suc 0)) (isa_start demo_elf [] [])"
    by (simp only: demo_state_start demo_state_supported)
  ultimately obtain s where s: "abs_sim s = demo_state 0x10058 3"
      "\<forall>k. sim_main (Suc (Suc 0) + k) demo_env [''sim'', ''prog'', separator] = Some (Inr (Simulated s (print_summary s) None))"
    using sim_main_runs_isa [of "''prog''" "[]" demo_env demo_elf "Suc (Suc 0)" "''sim''"] demo_elf_ok demo_elf_symbols
    by (auto simp: demo_env_def separator_def)
  have "sim_main 2 demo_env [''sim'', ''prog'', separator] = Some (Inr (Simulated s (print_summary s) None))"
    using s(2) [rule_format, of 0] by (simp add: numeral_2_eq_2)
  moreover have "regs s ! 17 = 3" using arg_cong [OF s(1), of xregs] by (simp add: demo_state_def fun_eq_iff)
  ultimately show ?thesis by blast
qed

section \<open>The loop over the text segment\<close>

definition words_left :: "u32 \<Rightarrow> u32 \<Rightarrow> nat" where
  "words_left addr endp = (unat endp - unat addr + 3) div 4"

definition lists :: "(i32 \<Rightarrow> u8) \<Rightarrow> u32 \<Rightarrow> nat \<Rightarrow> dis_line list \<Rightarrow> bool" where
  "lists f addr n ls \<longleftrightarrow> map line_addr ls = map (\<lambda>k. addr + 4 * of_nat k) [0..<n] \<and>
     list_all (\<lambda>l. let a = line_addr l in line_inst l = join32 (f a) (f (a + 1)) (f (a + 2)) (f (a + 3))) ls"

lemma lists_length: "lists f addr n ls \<Longrightarrow> length ls = n"
proof -
  assume "lists f addr n ls"
  then have "length (map line_addr ls) = length (map (\<lambda>k. addr + 4 * of_nat k) [0..<n])"
    by (simp only: lists_def)
  then show "length ls = n" by simp
qed

lemma lists_Cons:
  assumes "lists f (addr + 4) n ls" "line_addr l = addr"
    "line_inst l = join32 (f addr) (f (addr + 1)) (f (addr + 2)) (f (addr + 3))"
  shows "lists f addr (Suc n) (l # ls)"
proof -
  have "map (\<lambda>k. addr + 4 * of_nat k) [0..<Suc n] = addr # map (\<lambda>k. addr + 4 + 4 * of_nat k) [0..<n]"
    by (simp add: upt_conv_Cons map_Suc_upt [symmetric] algebra_simps del: upt_Suc)
  with assms show ?thesis by (simp add: lists_def Let_def)
qed

lemma disassemble_loop_lists:
  assumes "unat endp + 4 \<le> 2 ^ 32" "words_left addr endp < fuel"
  shows "\<exists>r. disassemble_loop fuel m addr endp d symbols = Some r \<and>
    (\<forall>ls. r = Inr ls \<longrightarrow> lists (flat m) addr (words_left addr endp) ls)"
  using assms(2)
proof (induction fuel arbitrary: addr m d)
  case (Suc fuel)
  show ?case
  proof (cases "addr < endp")
    case False
    then show ?thesis by (simp add: words_left_def lists_def word_less_nat_alt)
  next
    case True
    have "unat (addr + 4) = unat addr + 4"
      using True assms(1) unat_plus_simple [of addr 4] by (simp add: word_less_nat_alt no_olen_add_nat)
    moreover have step: "0 < k \<Longrightarrow> (k + 3) div 4 = Suc ((k - 4 + 3) div 4)" for k :: nat by presburger
    ultimately have w: "words_left addr endp = Suc (words_left (addr + 4) endp)"
      using True step [of "unat endp - unat addr"] by (simp only: words_left_def word_less_nat_alt diff_diff_left zero_less_diff)
    show ?thesis
    proof (cases "memory_rd_w m addr")
      case (Inr q)
      obtain m' v where q: "q = (m', v)" by (cases q)
      note rd = memory_rd_w_flat [OF Inr [unfolded q]]
      show ?thesis
      proof (cases "disassemble addr v d 100 symbols")
        case r: (Inr p)
        obtain d' ti where p: "p = (d', ti)" by (cases p)
        obtain r' where "disassemble_loop fuel m' (addr + 4) endp d' symbols = Some r'"
            "\<forall>ls. r' = Inr ls \<longrightarrow> lists (flat m) (addr + 4) (words_left (addr + 4) endp) ls"
          using Suc.IH [of "addr + 4" m' d'] Suc.prems w rd(1) by auto
        then show ?thesis
          using True Inr q r p w rd(2) by (auto simp: rbind_eq_Inr intro!: lists_Cons)
      qed (use True Inr q in simp)
    qed (use True in simp)
  qed
qed simp

text \<open>
  C37: The listing of a program ends: with more fuel than the text segment has words, unless the segment
  ends in the last word of the address space. Unless the process stops on the way, it has one line
  per word of the segment, in order, each with the address and the word that memory holds there.
\<close>

theorem disassembly_lists_text:
  assumes "unat (text_end info) + 4 \<le> 2 ^ 32" "words_left (text_start info) (text_end info) < fuel"
  shows "\<exists>r. disassemble_to_stdout fuel m info disassembly symbols = Some r \<and>
    (\<forall>ls. r = Inr ls \<longrightarrow> lists (flat m) (text_start info) (words_left (text_start info) (text_end info)) ls)"
  unfolding disassemble_to_stdout_def by (rule disassemble_loop_lists [OF assms])

theorem disassembly_lists_text_witness:
  "\<exists>r. disassemble_to_stdout 3 memory_create \<lparr>text_start = 0x10054, text_end = 0x1005c, start = 0\<rparr> (replicate 100 nul)
     \<lparr>strtab = [], syms = [], num_symbols = 0\<rparr> = Some r \<and> (\<forall>ls. r = Inr ls \<longrightarrow> length ls = 2)"
proof -
  let ?i = "\<lparr>text_start = 0x10054, text_end = 0x1005c, start = 0\<rparr>"
  have w: "words_left (text_start ?i) (text_end ?i) = 2" by (simp add: words_left_def)
  obtain r where r: "disassemble_to_stdout 3 memory_create ?i (replicate 100 nul) \<lparr>strtab = [], syms = [], num_symbols = 0\<rparr> = Some r"
      "\<forall>ls. r = Inr ls \<longrightarrow> lists (flat memory_create) (text_start ?i) 2 ls"
    using disassembly_lists_text [of ?i 3 memory_create "replicate 100 nul" "\<lparr>strtab = [], syms = [], num_symbols = 0\<rparr>"] w by auto
  moreover have "length ls = 2" if "lists f a 2 ls" for f a ls
    using lists_length [OF that] .
  ultimately show ?thesis by blast
qed

end
