(* ===== verification/Benchmarks.thy ===== *)
theory Benchmarks
  imports Bench_Lib
begin

text \<open>
  The simulated programs \<open>fib.c\<close> and \<open>erat.c\<close> of \<open>Opgave5/predictor-benchmarks\<close>, on the library
  of \<open>lib.c\<close>. The contents of their local arrays before the first write are parameters.
\<close>

section \<open>Fibonacci numbers\<close>

function fib_rec :: "u32 \<Rightarrow> u32" where
  "fib_rec arg = (if arg < 2 then arg else fib_rec (arg - 1) + fib_rec (arg - 2))"
  by pat_completeness auto
termination
  by (relation "measure unat") (auto simp: word_less_nat_alt unat_sub word_le_nat_alt)

declare fib_rec.simps [simp del]

text \<open>
  The end of a program: the bytes it printed and its status. \<open>terminate\<close> stops the machine, so
  nothing after it runs; what \<open>main\<close> returns reaches \<open>terminate\<close> in the start code.
\<close>

definition fib_main :: "bytes \<Rightarrow> bytes list \<Rightarrow> array_error + bytes \<times> int" where
  "fib_main buffer argv =
     (if length argv < 2 then
        rbind (print_string (text_bytes (''fib() missing arguments'' @ [newline]) @ [0]) 0 []) (\<lambda>out. Inr (out, 1))
      else
        rbind (str_to_uns (argv ! 1)) (\<lambda>arg.
        rbind (print_string (text_bytes ''fib('' @ [0]) 0 []) (\<lambda>out.
        rbind (print_string (argv ! 1) 0 out) (\<lambda>out.
        rbind (print_string (text_bytes '') = '' @ [0]) 0 out) (\<lambda>out.
          let res = fib_rec arg in
          rbind (uns_to_str buffer res) (\<lambda>(buffer, _).
          rbind (print_string buffer 0 out) (\<lambda>out.
          rbind (print_string (text_bytes [newline] @ [0]) 0 out) (\<lambda>out. Inr (out, 0)))))))))"

section \<open>The sieve of Eratosthenes\<close>

definition MAX_N :: nat where "MAX_N = 1000000"

text \<open>The loop \<open>for (j = i; j < MAX; j += i) numbers[j] = 0\<close>; the loop is entered with \<open>i\<close> at least 2.\<close>

function strike :: "nat \<Rightarrow> nat \<Rightarrow> nat \<Rightarrow> bytes \<Rightarrow> array_error + bytes" where
  "strike mx i j numbers =
     (if j < mx \<and> 0 < i then rbind (arr_set numbers (int j) 0) (strike mx i (j + i)) else Inr numbers)"
  by pat_completeness auto
termination
  by (relation "measure (\<lambda>(mx, i, j, numbers). mx - j)") auto

function sieve :: "bytes \<Rightarrow> nat \<Rightarrow> nat \<Rightarrow> bytes \<Rightarrow> bytes \<Rightarrow> array_error + bytes" where
  "sieve buf mx i numbers out =
     (if i < mx then
        rbind (arr_get numbers (int i)) (\<lambda>c.
          if c \<noteq> 0 then
            rbind (uns_to_str buf (word_of_nat i)) (\<lambda>(buf', _).
            rbind (print_string buf' 0 out) (\<lambda>out.
            rbind (print_string (text_bytes '' '' @ [0]) 0 out) (\<lambda>out.
            rbind (strike mx i i numbers) (\<lambda>numbers.
              sieve buf mx (i + 1) numbers out))))
          else sieve buf mx (i + 1) numbers out)
      else Inr out)"
  by pat_completeness auto
termination
  by (relation "measure (\<lambda>(buf, mx, i, numbers, out). mx - i)") auto

function fill_ones :: "nat \<Rightarrow> nat \<Rightarrow> bytes \<Rightarrow> array_error + bytes" where
  "fill_ones mx i numbers =
     (if i < mx then rbind (arr_set numbers (int i) 1) (fill_ones mx (i + 1)) else Inr numbers)"
  by pat_completeness auto
termination
  by (relation "measure (\<lambda>(mx, i, numbers). mx - i)") auto

definition erat_main :: "nat \<Rightarrow> bytes \<Rightarrow> bytes \<Rightarrow> array_error + bytes" where
  "erat_main mx numbers buf =
     rbind (fill_ones mx 0 numbers) (\<lambda>numbers.
     rbind (print_string (text_bytes ''Primtal: 1 '' @ [0]) 0 []) (\<lambda>out.
     rbind (sieve buf mx 2 numbers out) (\<lambda>out.
       print_string (text_bytes [newline] @ [0]) 0 out)))"

declare strike.simps [simp del] sieve.simps [simp del] fill_ones.simps [simp del]

section \<open>The Fibonacci program\<close>

fun fibonacci :: "nat \<Rightarrow> nat" where
  "fibonacci 0 = 0"
| "fibonacci (Suc 0) = 1"
| "fibonacci (Suc (Suc n)) = fibonacci (Suc n) + fibonacci n"

lemma fib_rec_eq: "fib_rec (word_of_nat n) = word_of_nat (fibonacci n)" if "n < 2 ^ 32" for n
  using that
proof (induction n rule: fibonacci.induct)
  case (3 n)
  then have "\<not> (word_of_nat (Suc (Suc n)) :: u32) < 2"
    by (simp add: word_less_nat_alt unsigned_of_nat take_bit_nat_eq_self del: of_nat_Suc)
  moreover have "(word_of_nat (Suc (Suc n)) :: u32) - 1 = word_of_nat (Suc n)"
    "(word_of_nat (Suc (Suc n)) :: u32) - 2 = word_of_nat n"
    by simp_all
  ultimately have "fib_rec (word_of_nat (Suc (Suc n))) = fib_rec (word_of_nat (Suc n)) + fib_rec (word_of_nat n)"
    by (metis fib_rec.simps)
  with 3 show ?case
    by simp
qed (simp_all add: fib_rec.simps)

lemma text_bytes_no_nul: "nul \<notin> set s \<Longrightarrow> 0 \<notin> set (text_bytes s)"
proof
  assume "nul \<notin> set s" "0 \<in> set (text_bytes s)"
  then obtain c where c: "c \<in> set s" "u8_of (of_char c) = 0"
    by (auto simp: text_bytes_def)
  have "(of_char c :: nat) < 256"
    by (metis mod_less_divisor of_char_mod_256 zero_less_numeral)
  with c(2) have "(of_char c :: nat) = of_char nul"
    using uint_u8_of [of "of_char c"] by (simp add: nul_def)
  then have "c = nul"
    by (rule of_char_eq_iff [THEN iffD1])
  with c \<open>nul \<notin> set s\<close> show False
    by simp
qed

lemma print_literal: "nul \<notin> set s \<Longrightarrow> print_string (text_bytes s @ [0]) 0 out = Inr (out @ text_bytes s)"
  by (simp add: print_string_eq text_bytes_no_nul)

lemma fib_main_result:
  assumes "n < 2 ^ 32" "11 \<le> length buffer"
  shows "fib_main buffer (prog # (dec_bytes n @ [0]) # more) =
    Inr (text_bytes (''fib('' @ digits_of n @ '') = '' @ digits_of (fibonacci n mod 2 ^ 32) @ [newline]), 0)"
proof -
  have "unat (fib_rec (word_of_nat n)) = fibonacci n mod 2 ^ 32"
    using assms(1) by (simp add: fib_rec_eq unsigned_of_nat take_bit_eq_mod)
  then show ?thesis
    using assms
    by (simp add: fib_main_def str_to_uns_eq print_string_eq dec_bytes_no_nul dec_bytes_not_Nil dec_bytes_value
        print_literal nul_def newline_def uns_to_str_result Let_def)
     (simp add: dec_bytes_def text_bytes_def)
qed

section \<open>The sieve\<close>

definition prime_number :: "nat \<Rightarrow> bool" where
  "prime_number p \<longleftrightarrow> 2 \<le> p \<and> (\<forall>d \<in> {2..<p}. \<not> d dvd p)"

lemma fill_ones_eq:
  "length numbers = mx \<Longrightarrow> i \<le> mx \<Longrightarrow> fill_ones mx i numbers = Inr (take i numbers @ replicate (mx - i) 1)"
proof (induction mx i numbers rule: fill_ones.induct)
  case (1 mx i numbers)
  show ?case
  proof (cases "i < mx")
    case True
    have "fill_ones mx (i + 1) (numbers[i := 1]) = Inr (take (i + 1) (numbers[i := 1]) @ replicate (mx - (i + 1)) 1)"
      using True 1(2) by (intro "1.IH") simp_all
    moreover have "take (i + 1) (numbers[i := 1]) = take i numbers @ [1]"
      using True 1(2) by (simp add: take_Suc_conv_app_nth)
    ultimately show ?thesis
      using True 1(2) by (simp add: fill_ones.simps [of mx i] Suc_diff_Suc [symmetric])
  next
    case False
    with 1 show ?thesis
      by (simp add: fill_ones.simps)
  qed
qed

lemma strike_eq:
  assumes "length numbers = mx" "0 < i"
  shows "\<exists>ns. strike mx i j numbers = Inr ns \<and> length ns = mx \<and>
    (\<forall>k < mx. ns ! k = (if j \<le> k \<and> i dvd k - j then 0 else numbers ! k))"
  using assms
proof (induction mx i j numbers rule: strike.induct)
  case (1 mx i j numbers)
  show ?case
  proof (cases "j < mx")
    case True
    then obtain ns where ns: "strike mx i (j + i) (numbers[j := 0]) = Inr ns" "length ns = mx"
      "\<forall>k < mx. ns ! k = (if j + i \<le> k \<and> i dvd k - (j + i) then 0 else numbers[j := 0] ! k)"
      using "1.IH" [of "numbers[j := 0]"] 1(2,3) by auto
    have "(j \<le> k \<and> i dvd k - j) = (k = j \<or> j + i \<le> k \<and> i dvd k - (j + i))" for k
    proof (cases "j + i \<le> k")
      case True
      then have "k - j = (k - (j + i)) + i"
        by simp
      with True 1(3) show ?thesis
        by (simp only: dvd_add_left_iff dvd_refl) auto
    next
      case False
      then show ?thesis
        using dvd_imp_le [of i "k - j"] by (cases "j < k") auto
    qed
    then show ?thesis
      using True 1(2,3) ns by (auto simp: strike.simps [of mx i j] nth_list_update)
  next
    case False
    with 1(2) show ?thesis
      by (auto simp: strike.simps)
  qed
qed

text \<open>Before the turn of \<open>i\<close>, exactly the positive numbers with no divisor from 2 to \<open>i - 1\<close> are left.\<close>

definition sieved :: "nat \<Rightarrow> nat \<Rightarrow> bytes \<Rightarrow> bool" where
  "sieved mx i numbers \<longleftrightarrow> length numbers = mx \<and>
     (\<forall>k. 0 < k \<and> k < mx \<longrightarrow> (numbers ! k \<noteq> 0 \<longleftrightarrow> (\<forall>d \<in> {2..<i}. \<not> d dvd k)))"

lemma sieved_strike:
  assumes "sieved mx i numbers" "2 \<le> i" "i < mx" "numbers ! i \<noteq> 0"
  obtains ns where "strike mx i i numbers = Inr ns" "sieved mx (i + 1) ns"
proof -
  obtain ns where ns: "strike mx i i numbers = Inr ns" "length ns = mx"
    "\<forall>k < mx. ns ! k = (if i \<le> k \<and> i dvd k - i then 0 else numbers ! k)"
    using strike_eq [of numbers mx i i] assms by (auto simp: sieved_def)
  have "ns ! k \<noteq> 0 \<longleftrightarrow> (\<forall>d \<in> {2..<i + 1}. \<not> d dvd k)" if "k < mx" "0 < k" for k
  proof -
    have "{2..<i + 1} = insert i {2..<i}"
      using assms(2) by auto
    moreover have "i \<le> k \<and> i dvd k - i \<longleftrightarrow> i dvd k"
      using that(2) dvd_minus_self [of i k] dvd_imp_le [of i k] by auto
    ultimately show ?thesis
      using ns(3) assms(1) that by (auto simp: sieved_def)
  qed
  with ns that show thesis
    by (simp add: sieved_def)
qed

lemma sieved_skip:
  assumes "sieved mx i numbers" "i < mx" "2 \<le> i" "numbers ! i = 0"
  shows "sieved mx (i + 1) numbers"
proof -
  obtain d where d: "d \<in> {2..<i}" "d dvd i"
    using assms unfolding sieved_def by (meson less_le_trans zero_less_numeral)
  have "{2..<i + 1} = insert i {2..<i}"
    using assms(3) by auto
  with d assms(1) show ?thesis
    by (auto simp: sieved_def intro: dvd_trans)
qed

definition prime_line :: "nat list \<Rightarrow> string" where
  "prime_line ps = concat (map (\<lambda>p. digits_of p @ '' '') ps)"

lemma sieve_eq:
  assumes "sieved mx i numbers" "2 \<le> i" "mx \<le> 2 ^ 30" "11 \<le> length buf"
  shows "sieve buf mx i numbers out = Inr (out @ text_bytes (prime_line (filter prime_number [i..<mx])))"
  using assms
proof (induction "mx - i" arbitrary: i numbers out rule: less_induct)
  case less
  show ?case
  proof (cases "i < mx")
    case False
    then show ?thesis
      by (simp add: sieve.simps text_bytes_def prime_line_def)
  next
    case True
    have prime: "numbers ! i \<noteq> 0 \<longleftrightarrow> prime_number i"
      using less.prems(1,2) True by (auto simp: sieved_def prime_number_def)
    have get: "arr_get numbers (int i) = Inr (numbers ! i)"
      using less.prems(1) True by (simp add: sieved_def)
    have u: "unat (word_of_nat i :: u32) = i"
      using True less.prems(3) by (simp add: unsigned_of_nat take_bit_nat_eq_self)
    have less: "mx - (i + 1) < mx - i"
      using True by simp
    show ?thesis
    proof (cases "numbers ! i = 0")
      case zero: True
      then show ?thesis
        using less.hyps [OF less sieved_skip [OF less.prems(1) True less.prems(2) zero]] less.prems True prime get
        by (simp add: sieve.simps [of buf mx i] upt_rec [of i])
    next
      case False
      obtain ns where ns: "strike mx i i numbers = Inr ns" "sieved mx (i + 1) ns"
        using sieved_strike [OF less.prems(1,2) True False] .
      have "print_string (dec_bytes i @ 0 # rest) 0 out = Inr (out @ dec_bytes i)" for rest out
        by (simp add: print_string_eq dec_bytes_no_nul)
      then have "sieve buf mx i numbers out = sieve buf mx (i + 1) ns (out @ dec_bytes i @ text_bytes '' '')"
        using True False get ns(1) less.prems(4) u
        by (simp add: sieve.simps [of buf mx i] uns_to_str_result print_literal nul_def)
      also have "\<dots> = Inr (out @ dec_bytes i @ text_bytes '' '' @
          text_bytes (prime_line (filter prime_number [i + 1..<mx])))"
        using less.hyps [OF less ns(2)] less.prems by simp
      finally show ?thesis
        using True False prime by (simp add: upt_rec [of i] prime_line_def text_bytes_def dec_bytes_def)
    qed
  qed
qed

text \<open>
  C24: The sieve program prints, for every size of its array that an \<open>int\<close> can count through
  (1000000 in the source), a line with the number 1 and exactly the prime numbers below the size
  in increasing order, ends, and stays inside its arrays.
\<close>

theorem erat_prints_primes:
  assumes "length numbers = mx" "mx \<le> 2 ^ 30" "11 \<le> length buf"
  shows "erat_main mx numbers buf =
    Inr (text_bytes (''Primtal: 1 '' @ prime_line (filter prime_number [2..<mx]) @ [newline]))"
proof -
  have "sieved mx 2 (replicate mx 1)"
    by (simp add: sieved_def)
  then show ?thesis
    using assms by (simp add: erat_main_def fill_ones_eq print_literal nul_def newline_def sieve_eq)
      (simp add: text_bytes_def)
qed

theorem erat_prints_primes_witness:
  "erat_main MAX_N (replicate MAX_N 0xAA) (replicate 20 0xAA) =
    Inr (text_bytes (''Primtal: 1 '' @ prime_line (filter prime_number [2..<MAX_N]) @ [newline])) \<and>
   filter prime_number [2..<20] = [2, 3, 5, 7, 11, 13, 17, 19]"
proof
  have "MAX_N \<le> 2 ^ 30"
    by (simp add: MAX_N_def)
  then show "erat_main MAX_N (replicate MAX_N 0xAA) (replicate 20 0xAA) =
      Inr (text_bytes (''Primtal: 1 '' @ prime_line (filter prime_number [2..<MAX_N]) @ [newline]))"
    by (rule erat_prints_primes [OF length_replicate]) simp
  show "filter prime_number [2..<20] = [2, 3, 5, 7, 11, 13, 17, 19]"
    by code_simp
qed

text \<open>
  For every argument that is the decimal text of a word, the Fibonacci program prints the
  argument and the Fibonacci number of it modulo \<open>2 ^ 32\<close> and ends with status 0, inside its
  buffer of 20 bytes; without an argument it prints a message and ends with status 1; an empty
  argument makes it read past the end of the argument.
\<close>

theorem fib_main_correct:
  assumes "length buffer = 20" "n < 2 ^ 32"
  shows "fib_main buffer (prog # (dec_bytes n @ [0]) # more) =
      Inr (text_bytes (''fib('' @ digits_of n @ '') = '' @ digits_of (fibonacci n mod 2 ^ 32) @ [newline]), 0) \<and>
    fib_main buffer [prog] = Inr (text_bytes (''fib() missing arguments'' @ [newline]), 1) \<and>
    fib_main buffer (prog # [0] # more) = Inl OutOfBounds"
proof (intro conjI)
  show "fib_main buffer (prog # (dec_bytes n @ [0]) # more) =
      Inr (text_bytes (''fib('' @ digits_of n @ '') = '' @ digits_of (fibonacci n mod 2 ^ 32) @ [newline]), 0)"
    using assms by (intro fib_main_result) simp_all
  show "fib_main buffer [prog] = Inr (text_bytes (''fib() missing arguments'' @ [newline]), 1)"
    by (simp add: fib_main_def print_literal nul_def newline_def del: append.simps)
  show "fib_main buffer (prog # [0] # more) = Inl OutOfBounds"
    by (simp add: fib_main_def str_to_uns_def str_to_uns_from.simps arr_get_def)
qed

theorem fib_main_correct_witness:
  "fib_main (replicate 20 0) [[], dec_bytes 10 @ [0]] =
     Inr (text_bytes (''fib('' @ digits_of 10 @ '') = '' @ digits_of 55 @ [newline]), 0)"
proof -
  have "fibonacci 10 = 55"
    by code_simp
  then have "fibonacci 10 mod 2 ^ 32 = 55"
    by simp
  moreover have "length (replicate 20 (0 :: u8)) = 20" "(10 :: nat) < 2 ^ 32"
    by simp_all
  ultimately show ?thesis
    using fib_main_correct [of "replicate 20 0" 10 "[]" "[]"] by (simp only: simp_thms)
qed

end
