(* ===== verification/Bench_Start.thy ===== *)
theory Bench_Start
  imports Sim_Main Benchmarks
begin

text \<open>
  The start of a simulated program: how \<open>args_to_main\<close> of \<open>Opgave5/predictor-benchmarks/lib.c\<close> finds the
  arguments that the simulator (\<open>Opgave5/src/main.c\<close>) has put in memory. The memory is the flat byte
  memory of the simulator.
\<close>

section \<open>Reading the memory of the simulated machine\<close>

definition load_word :: "(u32 \<Rightarrow> u8) \<Rightarrow> u32 \<Rightarrow> u32" where
  "load_word f a = join32 (f a) (f (a + 1)) (f (a + 2)) (f (a + 3))"

text \<open>\<open>argc\<close> and the address \<open>argv\<close> that \<open>main\<close> is called with.\<close>

definition args_to_main :: "(u32 \<Rightarrow> u8) \<Rightarrow> u32 \<Rightarrow> u32 \<times> u32" where
  "args_to_main f args_ptr = (load_word f args_ptr, args_ptr + 4)"

text \<open>The C string at an address, with its terminator, if it has at most that many bytes.\<close>

primrec cstr_at :: "nat \<Rightarrow> (u32 \<Rightarrow> u8) \<Rightarrow> u32 \<Rightarrow> bytes option" where
  "cstr_at 0 f a = None"
| "cstr_at (Suc k) f a = (if f a = 0 then Some [0] else map_option (Cons (f a)) (cstr_at k f (a + 1)))"

definition main_argv :: "nat \<Rightarrow> (u32 \<Rightarrow> u8) \<Rightarrow> bytes option list" where
  "main_argv k f =
     (let (argc, argv) = args_to_main f 0x1000000 in
      map (\<lambda>i. cstr_at k f (load_word f (argv + 4 * of_nat i))) [0..<unat argc])"

section \<open>What the block of arguments holds\<close>

lemma overlay_read:
  assumes "k < length xs" "length xs \<le> 2 ^ 32"
  shows "overlay b xs f (b + of_nat k) = xs ! k"
  using assms by (simp add: overlay_def unat_of_nat take_bit_nat_eq_self)

lemma join_word_bytes: "join32 (byte_of 0 w) (byte_of 1 w) (byte_of 2 w) (byte_of 3 w) = w"
  by (simp add: join32_def byte_of_def word32_eq_iff word_bits_less bit_simps)

lemma load_word_overlay:
  assumes "xs = pre @ word_bytes w @ post" "length xs \<le> 2 ^ 32"
  shows "load_word (overlay b xs f) (b + of_nat (length pre)) = w"
proof -
  have r: "overlay b xs f (b + of_nat (length pre + j)) = word_bytes w ! j" if "j < 4" for j
    using overlay_read [of "length pre + j" xs b f] assms that length_word_bytes [of w] by (simp add: nth_append)
  from r [of 0] r [of 1] r [of 2] r [of 3] show ?thesis
    using join_word_bytes [of w] by (simp add: load_word_def word_bytes_def ac_simps)
qed

lemma of_char_0: "(of_char c :: u8) = 0 \<longleftrightarrow> c = nul"
proof
  assume "(of_char c :: u8) = 0"
  then have "u8_of (of_char c) = 0"
    by (simp only: u8_of_def of_nat_of_char)
  then show "c = nul"
    using text_bytes_no_nul [of "[c]"] by (auto simp: text_bytes_def)
qed (simp add: nul_def)

lemma cstr_at_overlay:
  assumes "xs = pre @ string_bytes s @ post" "length xs \<le> 2 ^ 32" "nul \<notin> set s" "length s < k"
  shows "cstr_at k (overlay b xs f) (b + of_nat (length pre)) = Some (string_bytes s)"
  using assms
proof (induction s arbitrary: k pre)
  case Nil
  then show ?case
    using overlay_read [of "length pre" xs b f] by (cases k) (auto simp: string_bytes_def)
next
  case (Cons c s)
  then obtain j where k: "k = Suc j" "length s < j"
    by (cases k) auto
  have hd: "overlay b xs f (b + of_nat (length pre)) = of_char c"
    using overlay_read [of "length pre" xs b f] Cons.prems by (simp add: string_bytes_def)
  have "cstr_at j (overlay b xs f) (b + of_nat (length (pre @ [of_char c]))) = Some (string_bytes s)"
    using Cons.prems k by (intro Cons.IH) (auto simp: string_bytes_def)
  then show ?case
    using hd k Cons.prems(3) by (auto simp: string_bytes_def of_char_0 ac_simps)
qed

lemma concat_split:
  "i < length xs \<Longrightarrow> concat (map g xs) = concat (map g (take i xs)) @ g (xs ! i) @ concat (map g (drop (Suc i) xs))"
  by (metis Cons_nth_drop_Suc append_take_drop_id concat.simps(2) concat_append list.simps(9) map_append)

lemma string_addrs_nth:
  "i < length args \<Longrightarrow> string_addrs args a ! i = a + of_nat (length (concat (map string_bytes (take i args))))"
proof (induction args arbitrary: a i)
  case (Cons s args)
  then show ?case
    by (cases i) (auto simp: string_bytes_def algebra_simps)
qed simp

lemma length_word_table: "length (concat (map word_bytes ws)) = 4 * length ws"
  by (induction ws) (simp_all add: word_bytes_def)

text \<open>The count, the table and the strings of the block, each found where the program looks for it.\<close>

lemma args_block_read:
  assumes len: "length (args_block args) < 2 ^ 32" and f: "f = overlay b (args_block args) g" and b: "b = 0x1000000"
  shows "load_word f b = of_nat (length args)"
    "i < length args \<Longrightarrow> load_word f (b + 4 + 4 * of_nat i) = string_addrs args (b + 4 + 4 * of_nat (length args)) ! i"
    "i < length args \<Longrightarrow> nul \<notin> set (args ! i) \<Longrightarrow> length (args ! i) < k \<Longrightarrow>
      cstr_at k f (string_addrs args (b + 4 + 4 * of_nat (length args)) ! i) = Some (string_bytes (args ! i))"
proof -
  let ?n = "length args"
  let ?t = "string_addrs args (b + 4 + 4 * of_nat ?n)"
  have block: "args_block args = word_bytes (of_nat ?n) @ concat (map word_bytes ?t) @ concat (map string_bytes args)"
    by (simp add: args_block_def b)
  have le: "length (args_block args) \<le> 2 ^ 32"
    using len by simp
  show "load_word f b = of_nat ?n"
    using load_word_overlay [of "args_block args" "[]" "of_nat ?n" _ b g] block le f by simp
  show "load_word f (b + 4 + 4 * of_nat i) = ?t ! i" if i: "i < ?n"
  proof -
    let ?pre = "word_bytes (of_nat ?n) @ concat (map word_bytes (take i ?t))"
    have "args_block args = ?pre @ word_bytes (?t ! i) @ concat (map word_bytes (drop (Suc i) ?t)) @ concat (map string_bytes args)"
      using concat_split [of i ?t word_bytes] i block by simp
    moreover have "length ?pre = 4 + 4 * i"
      using i by (simp add: length_word_table word_bytes_def)
    ultimately show ?thesis
      using load_word_overlay [of "args_block args" ?pre "?t ! i" _ b g] le f by (simp add: add.assoc)
  qed
  show "cstr_at k f (?t ! i) = Some (string_bytes (args ! i))"
    if i: "i < ?n" "nul \<notin> set (args ! i)" "length (args ! i) < k"
  proof -
    let ?c = "concat (map string_bytes (take i args))"
    let ?pre = "word_bytes (of_nat ?n) @ concat (map word_bytes ?t) @ ?c"
    have "args_block args = ?pre @ string_bytes (args ! i) @ concat (map string_bytes (drop (Suc i) args))"
      using concat_split [of i args string_bytes] i block by simp
    moreover have "?t ! i = b + of_nat (length ?pre)"
      using i by (simp add: string_addrs_nth length_word_table word_bytes_def add.assoc)
    ultimately show ?thesis
      using cstr_at_overlay [of "args_block args" ?pre "args ! i" _ k b g] i le f by simp
  qed
qed

lemma main_argv_block:
  assumes "length (args_block args) < 2 ^ 32" "\<forall>s \<in> set args. nul \<notin> set s \<and> length s < k"
  shows "main_argv k (overlay 0x1000000 (args_block args) g) = map (\<lambda>s. Some (string_bytes s)) args"
proof -
  have "length args < 2 ^ 32"
    using assms(1) by (simp add: args_block_def length_word_table)
  then have "unat (of_nat (length args) :: u32) = length args"
    by (simp add: unat_of_nat take_bit_nat_eq_self)
  then show ?thesis
    using args_block_read [OF assms(1) refl refl] assms(2)
    by (auto simp: main_argv_def args_to_main_def intro!: nth_equalityI)
qed

lemma string_in_block: "s \<in> set args \<Longrightarrow> length s < length (args_block args)"
proof -
  assume "s \<in> set args"
  then obtain as bs where "args = as @ s # bs"
    by (auto simp: in_set_conv_decomp)
  then show ?thesis
    by (simp add: args_block_def string_bytes_def)
qed

lemma main_argv_passed:
  assumes "pre \<noteq> []" "separator \<notin> set (tl pre)" "length (args_block (separator # args)) < 2 ^ 32"
    and "\<forall>s \<in> set args. nul \<notin> set s"
  shows "\<exists>m'. pass_args_to_program m (pre @ separator # args) = Inr (m', length pre) \<and>
    main_argv (length (args_block (separator # args))) (flat m') = map (\<lambda>s. Some (string_bytes s)) (separator # args)"
proof -
  obtain m' where m': "pass_args_to_program m (pre @ separator # args) = Inr (m', length pre)"
      "flat m' = overlay 0x1000000 (args_block (separator # args)) (flat m)"
    using pass_args_block [OF assms(1-3)] by metis
  have "\<forall>s \<in> set (separator # args). nul \<notin> set s \<and> length s < length (args_block (separator # args))"
    using assms(4) string_in_block [of _ "separator # args"] by (auto simp: separator_def nul_def)
  then show ?thesis
    using main_argv_block [OF assms(3)] m' by auto
qed

lemma string_bytes_digits: "string_bytes (digits_of n) = dec_bytes n @ [0]"
  by (simp add: string_bytes_def dec_bytes_def text_bytes_def u8_of_def of_nat_of_char)

text \<open>The Fibonacci program run by the simulator with a number behind the separator.\<close>

lemma simulated_fib:
  assumes "n < 2 ^ 32" "prog \<noteq> separator" "length buffer = 20"
  shows "\<exists>m' k. pass_args_to_program m [cmd, prog, separator, digits_of n] = Inr (m', 2) \<and>
    fib_main buffer (map the (main_argv k (flat m'))) =
      Inr (text_bytes (''fib('' @ digits_of n @ '') = '' @ digits_of (fibonacci n mod 2 ^ 32) @ [newline]), 0)"
proof -
  have digits: "length (digits_of n) \<le> 10"
    using dec_bytes_length [of n 10] assms(1) by (simp add: dec_bytes_def text_bytes_def)
  have "length (args_block [separator, digits_of n]) < 2 ^ 32"
    using digits by (simp add: args_block_def separator_def string_bytes_def word_bytes_def)
  moreover have "nul \<notin> set (digits_of n)"
    using digits_of_digits [of n] by (auto simp: list_all_iff isdigit_def nul_def)
  ultimately obtain m' where m': "pass_args_to_program m ([cmd, prog] @ separator # [digits_of n]) = Inr (m', length [cmd, prog])"
      "main_argv (length (args_block [separator, digits_of n])) (flat m') = map (\<lambda>s. Some (string_bytes s)) [separator, digits_of n]"
    using main_argv_passed [of "[cmd, prog]" "[digits_of n]" m] assms(2) by auto
  then have "map the (main_argv (length (args_block [separator, digits_of n])) (flat m')) = [string_bytes separator, dec_bytes n @ [0]]"
    by (simp add: string_bytes_digits)
  then have "fib_main buffer (map the (main_argv (length (args_block [separator, digits_of n])) (flat m'))) =
      Inr (text_bytes (''fib('' @ digits_of n @ '') = '' @ digits_of (fibonacci n mod 2 ^ 32) @ [newline]), 0)"
    using fib_main_result [of n buffer] assms(1,3) by simp
  then show ?thesis
    using m'(1) by auto
qed

end
