(* ===== verification/Branch_Prediction.thy ===== *)
theory Branch_Prediction
  imports Simulate
begin

text \<open>
  The branch predictors of \<open>simulate.c\<close>: their tables are never indexed out of range, and the
  misprediction counts they report are the ones of the textbook predictors (independent two-bit
  saturating counters, indexed by address, or by address and the last sixteen outcomes), over the
  sequence of branches the program executed.
\<close>

section \<open>Range\<close>

definition wf_pred :: "predictors \<Rightarrow> bool" where
  "wf_pred p \<longleftrightarrow> length (bimodal p) = 4 \<and> length (gshare p) = 4 \<and> length (bimodal_errors p) = 4 \<and>
     length (gshare_errors p) = 4 \<and> ghr p < 2 ^ 16 \<and>
     (\<forall>t \<in> set (bimodal p) \<union> set (gshare p). \<forall>k. t k \<le> 3)"

lemma counter_update_le: "c \<le> 3 \<Longrightarrow> counter_update t c \<le> 3"
  by (auto simp: counter_update_def word_le_nat_alt word_less_nat_alt unat_word_ariths unat_sub_if_size split: if_splits)

lemma masked_index_less:
  assumes "sz \<noteq> 0"
  shows "unat (x AND (sz - 1) :: u32) < unat sz"
proof -
  have "unat (x AND (sz - 1)) \<le> unat (sz - 1)"
    by (simp add: word_le_nat_alt [symmetric] word_and_le1)
  also have "\<dots> < unat sz"
    using assms by (simp add: unat_minus_one unat_gt_0)
  finally show ?thesis .
qed

lemma bimodal_sizes_pos: "i < 4 \<Longrightarrow> bimodal_sizes ! i \<noteq> 0"
proof -
  assume "i < 4"
  then consider "i = 0" | "i = 1" | "i = 2" | "i = 3" by linarith
  then show ?thesis by cases (simp_all add: bimodal_sizes_def)
qed

lemma index_less:
  assumes "i < 4"
  shows "bimodal_index at (bimodal_sizes ! i) < unat (bimodal_sizes ! i)"
    "gshare_index at h (bimodal_sizes ! i) < unat (bimodal_sizes ! i)"
  using masked_index_less [OF bimodal_sizes_pos [OF assms]]
  by (simp_all add: bimodal_index_def gshare_index_def)

lemma ghr_less: "(x AND 0xFFFF :: u32) < 2 ^ 16"
proof -
  have "x AND 0xFFFF \<le> (0xFFFF :: u32)" by (rule word_and_le1)
  also have "\<dots> < 2 ^ 16" by simp
  finally show ?thesis .
qed

lemma predict_wf: "wf_pred p \<Longrightarrow> wf_pred (predict at tgt t p)"
  using ghr_less by (auto simp: wf_pred_def predict_def Let_def counter_update_le nth_mem)

lemma init_predictors_wf: "wf_pred init_predictors"
  by (auto simp: wf_pred_def init_predictors_def)

section \<open>Reference predictors\<close>

record branch_event =
  address :: u32
  target :: i32
  outcome :: bool

text \<open>A table of counters fed with a sequence of indices and outcomes.\<close>

definition counter_after :: "(nat \<times> bool) list \<Rightarrow> nat \<Rightarrow> u8" where
  "counter_after xs k = foldl (\<lambda>c t. counter_update t c) 2 (map snd (filter (\<lambda>x. fst x = k) xs))"

definition misses :: "(nat \<times> bool) list \<Rightarrow> nat" where
  "misses xs = length (filter (\<lambda>n. (2 \<le> counter_after (take n xs) (fst (xs ! n))) \<noteq> snd (xs ! n)) [0..<length xs])"

definition bimodal_trace :: "nat \<Rightarrow> branch_event list \<Rightarrow> (nat \<times> bool) list" where
  "bimodal_trace i es = map (\<lambda>e. (bimodal_index (address e) (bimodal_sizes ! i), outcome e)) es"

text \<open>The global history as a number: the most recent of the last sixteen outcomes is its low bit.\<close>

definition history :: "bool list \<Rightarrow> u32" where
  "history os = horner_sum of_bool 2 (take 16 (rev os))"

definition gshare_trace :: "nat \<Rightarrow> branch_event list \<Rightarrow> (nat \<times> bool) list" where
  "gshare_trace i es = map (\<lambda>n. (gshare_index (address (es ! n)) (history (map outcome (take n es))) (bimodal_sizes ! i),
     outcome (es ! n))) [0..<length es]"

definition run_predictors :: "branch_event list \<Rightarrow> predictors" where
  "run_predictors es = foldl (\<lambda>p e. predict (address e) (target e) (outcome e) p) init_predictors es"

lemma counter_after_snoc:
  "counter_after (xs @ [(k, t)]) j = (if j = k then counter_update t (counter_after xs j) else counter_after xs j)"
  by (simp add: counter_after_def)

lemma misses_snoc: "misses (xs @ [(k, t)]) = misses xs + (if (2 \<le> counter_after xs k) \<noteq> t then 1 else 0)"
proof -
  have "filter (\<lambda>n. (2 \<le> counter_after (take n (xs @ [(k, t)])) (fst ((xs @ [(k, t)]) ! n))) \<noteq> snd ((xs @ [(k, t)]) ! n)) [0..<length xs] =
    filter (\<lambda>n. (2 \<le> counter_after (take n xs) (fst (xs ! n))) \<noteq> snd (xs ! n)) [0..<length xs]"
    by (rule filter_cong) (auto simp: nth_append)
  then show ?thesis by (simp add: misses_def)
qed

lemma history_snoc: "history (os @ [t]) = (push_bit 1 (history os) OR (if t then 1 else 0)) AND 0xFFFF"
proof -
  have "bit (history os) n \<longleftrightarrow> n < 16 \<and> n < length os \<and> rev os ! n" for os n
    by (auto simp: history_def bit_horner_sum_bit_word_iff)
  moreover have "x AND 0xFFFF = take_bit 16 x" for x :: u32
    by (simp add: take_bit_eq_mask mask_eq_exp_minus_1)
  ultimately show ?thesis
    by (intro bit_word_eqI) (auto simp: bit_simps bit_times_2 nth_Cons split: nat.splits)
qed

lemma trace_snoc:
  "bimodal_trace i (es @ [e]) = bimodal_trace i es @ [(bimodal_index (address e) (bimodal_sizes ! i), outcome e)]"
  "gshare_trace i (es @ [e]) = gshare_trace i es @
     [(gshare_index (address e) (history (map outcome es)) (bimodal_sizes ! i), outcome e)]"
  by (simp_all add: bimodal_trace_def gshare_trace_def nth_append)

lemma run_predictors_snoc:
  "run_predictors (es @ [e]) = predict (address e) (target e) (outcome e) (run_predictors es)"
  by (simp add: run_predictors_def)

lemma run_predictors_wf: "wf_pred (run_predictors es)"
  by (induction es rule: rev_induct) (simp_all add: run_predictors_snoc predict_wf, simp add: run_predictors_def init_predictors_wf)

lemma predict_sel:
  "ghr (predict at tgt t p) = (push_bit 1 (ghr p) OR (if t then 1 else 0)) AND 0xFFFF"
  "nt_errors (predict at tgt t p) = nt_errors p + (if t then 1 else 0)"
  "btfnt_errors (predict at tgt t p) = btfnt_errors p + (if t \<noteq> (sint (tgt - at) < 0) then 1 else 0)"
  "i < 4 \<Longrightarrow> bimodal (predict at tgt t p) ! i = (let k = bimodal_index at (bimodal_sizes ! i) in
     (bimodal p ! i)(k := counter_update t ((bimodal p ! i) k)))"
  "i < 4 \<Longrightarrow> gshare (predict at tgt t p) ! i = (let k = gshare_index at (ghr p) (bimodal_sizes ! i) in
     (gshare p ! i)(k := counter_update t ((gshare p ! i) k)))"
  "i < 4 \<Longrightarrow> bimodal_errors (predict at tgt t p) ! i = bimodal_errors p ! i +
     (if (2 \<le> (bimodal p ! i) (bimodal_index at (bimodal_sizes ! i))) \<noteq> t then 1 else 0)"
  "i < 4 \<Longrightarrow> gshare_errors (predict at tgt t p) ! i = gshare_errors p ! i +
     (if (2 \<le> (gshare p ! i) (gshare_index at (ghr p) (bimodal_sizes ! i))) \<noteq> t then 1 else 0)"
  by (simp_all add: predict_def Let_def del: upt_Suc)

lemma run_predictors_state:
  assumes i: "i < 4"
  shows "ghr (run_predictors es) = history (map outcome es) \<and>
    bimodal (run_predictors es) ! i = counter_after (bimodal_trace i es) \<and>
    gshare (run_predictors es) ! i = counter_after (gshare_trace i es) \<and>
    bimodal_errors (run_predictors es) ! i = misses (bimodal_trace i es) \<and>
    gshare_errors (run_predictors es) ! i = misses (gshare_trace i es)"
proof (induction es rule: rev_induct)
  case Nil
  then show ?case
    using i by (auto simp: run_predictors_def init_predictors_def history_def bimodal_trace_def
      gshare_trace_def counter_after_def misses_def nth_Cons split: nat.splits)
next
  case (snoc e es)
  then show ?case
    by (simp add: run_predictors_snoc predict_sel i trace_snoc misses_snoc history_snoc Let_def)
      (auto simp: fun_eq_iff counter_after_snoc)
qed


section \<open>The predictors beside the program\<close>

text \<open>The branches of a run, in order.\<close>

definition step_event :: "sim \<Rightarrow> branch_event list" where
  "step_event s =
     (case memory_rd_w (mem s) (pc s) of
        Inl e \<Rightarrow> []
      | Inr (m, inst) \<Rightarrow>
          let c = snd (exec_control inst (regs s ! unat (get_rs1 inst)) (regs s ! unat (get_rs2 inst)) s) in
          if is_branch c then [\<lparr>address = pc s, target = branch_target c, outcome = taken c\<rparr>] else [])"

fun loop_events :: "bool \<Rightarrow> nat \<Rightarrow> sim \<Rightarrow> branch_event list" where
  "loop_events logging 0 s = []"
| "loop_events logging (Suc n) s = step_event s @
     (case sim_step logging s of Inr (s', False) \<Rightarrow> loop_events logging n s' | _ \<Rightarrow> [])"

text \<open>Only \<open>predict\<close> touches the predictors and only branches are counted.\<close>

lemma exec_control_pred:
  "pred (fst (exec_control i v w s)) = pred s" "pc (fst (exec_control i v w s)) = pc s"
  "insns (fst (exec_control i v w s)) = insns s"
  "branch_count (fst (exec_control i v w s)) = branch_count s + (if is_branch (snd (exec_control i v w s)) then 1 else 0)"
  by (auto simp: exec_control_def set_reg_def Let_def)

lemma exec_control_mem: "snd (exec_control i v w (s\<lparr>mem := m, insns := n\<rparr>)) = snd (exec_control i v w s)"
  by (auto simp: exec_control_def set_reg_def Let_def)

lemma exec_data_pred:
  assumes "exec_data logging i v w s = Inr (s', stop)"
  shows "pred s' = pred s \<and> branch_count s' = branch_count s \<and> insns s' = insns s"
  using assms
  by (auto simp: exec_data_def exec_load_def exec_store_def write_back_def set_reg_def handle_ecall_def Let_def
      rbind_eq_Inr split_def split: if_splits option.splits sum.splits list.splits)

lemma sim_step_counts:
  assumes "sim_step logging s = Inr (s', stop)"
  shows "pred s' = foldl (\<lambda>p e. predict (address e) (target e) (outcome e) p) (pred s) (step_event s)"
    and "branch_count s' = branch_count s + length (step_event s)"
    and "insns s' = insns s + 1"
proof -
  from assms obtain m inst where m: "memory_rd_w (mem s) (pc s) = Inr (m, inst)"
    by (auto simp: sim_step_def split: sum.splits)
  let ?s = "s\<lparr>mem := m, insns := insns s + 1\<rparr>"
  let ?v = "regs s ! unat (get_rs1 inst)" and ?w = "regs s ! unat (get_rs2 inst)"
  let ?c = "snd (exec_control inst ?v ?w ?s)"
  let ?t = "fst (exec_control inst ?v ?w ?s)"
  let ?u = "if is_branch ?c then ?t\<lparr>pred := predict (pc ?t) (branch_target ?c) (taken ?c) (pred ?t)\<rparr> else ?t"
  from assms m obtain q where q: "exec_data logging inst ?v ?w (log_insn logging (pc ?u) inst ?c ?u) = Inr (q, stop)"
      "pred s' = pred q" "branch_count s' = branch_count q" "insns s' = insns q"
    by (auto simp: sim_step_def exec_inst_def Let_def rbind_eq_Inr split_def split: if_splits)
  note e = exec_control_pred [of inst ?v ?w ?s]
  have u: "pred q = pred ?u \<and> branch_count q = branch_count ?u \<and> insns q = insns ?u"
    using exec_data_pred [OF q(1)] by (simp add: log_insn_def)
  show "pred s' = foldl (\<lambda>p e. predict (address e) (target e) (outcome e) p) (pred s) (step_event s)"
    "branch_count s' = branch_count s + length (step_event s)" "insns s' = insns s + 1"
    using u q e by (auto simp: step_event_def m exec_control_mem Let_def)
qed

lemma sim_loop_counts:
  assumes "sim_loop logging n s = Some (Inr s')"
  shows "pred s' = foldl (\<lambda>p e. predict (address e) (target e) (outcome e) p) (pred s) (loop_events logging n s) \<and>
    branch_count s' = branch_count s + length (loop_events logging n s)"
  using assms
proof (induction n arbitrary: s)
  case (Suc n)
  then obtain s1 stop where s1: "sim_step logging s = Inr (s1, stop)"
    by (auto split: sum.splits)
  with Suc sim_step_counts [OF s1] show ?case
    by (cases stop) (auto simp: foldl_append)
qed simp

section \<open>Properties\<close>

text \<open>
  The predictors never index their tables out of range: for every branch address and
  history each of the four indices is below the size the table was allocated with; and whatever
  branches they see, the counters stay within 0 to 3 and the history within sixteen bits.
\<close>

theorem predictors_in_range:
  "wf_pred (run_predictors es) \<and>
   list_all (\<lambda>i. bimodal_index at (bimodal_sizes ! i) < unat (bimodal_sizes ! i) \<and>
                 gshare_index at h (bimodal_sizes ! i) < unat (bimodal_sizes ! i)) [0..<length bimodal_sizes]"
  using run_predictors_wf index_less
  by (simp add: list_all_iff bimodal_sizes_def [THEN arg_cong, of length])

lemma static_counts:
  "nt_errors (run_predictors es) = length (filter outcome es)"
  "btfnt_errors (run_predictors es) = length (filter (\<lambda>e. outcome e \<noteq> (sint (target e - address e) < 0)) es)"
  by (induction es rule: rev_induct)
    (simp_all add: run_predictors_snoc predict_sel, simp_all add: run_predictors_def init_predictors_def)

text \<open>
  C36: The summary of a run that ends counts what it claims to count. Over the branches the run
  executed: their number; the mispredictions of always-not-taken and of backward-taken; and for
  each table size those of a table of independent two-bit counters indexed by the address, and
  by the address combined with the last sixteen outcomes.
\<close>

theorem simulate_summary_correct:
  "case simulate n logging m start_addr inp of
     Some (Inr (s, summary)) \<Rightarrow>
       (let es = loop_events logging n (init_sim m start_addr inp) in
        map snd summary =
          [[insns s], [length es], [length (filter outcome es)],
           [length (filter (\<lambda>e. outcome e \<noteq> (sint (target e - address e) < 0)) es)]] @
          map (\<lambda>i. [unat (bimodal_sizes ! i), misses (bimodal_trace i es)]) [0..<4] @
          map (\<lambda>i. [unat (bimodal_sizes ! i), misses (gshare_trace i es)]) [0..<4])
   | _ \<Rightarrow> True"
proof (cases "sim_loop logging n (init_sim m start_addr inp)")
  case None
  then show ?thesis by (simp add: simulate_def)
next
  case (Some r)
  show ?thesis
  proof (cases r)
    case (Inl e)
    with Some show ?thesis by (simp add: simulate_def)
  next
    case (Inr s)
    define es where "es = loop_events logging n (init_sim m start_addr inp)"
    have "pred s = run_predictors es" "branch_count s = length es"
      using sim_loop_counts [OF Some [unfolded Inr]]
      by (simp_all add: run_predictors_def init_sim_def es_def)
    moreover have "bimodal_errors (run_predictors es) ! i = misses (bimodal_trace i es)"
      "gshare_errors (run_predictors es) ! i = misses (gshare_trace i es)" if "i < 4" for i
      using run_predictors_state [OF that, of es] by simp_all
    ultimately show ?thesis
      using Some Inr
      by (simp add: simulate_def print_summary_def static_counts Let_def es_def [symmetric] del: upt_Suc)
  qed
qed

end
