(* ===== verification/Disassemble_Text.thy ===== *)
theory Disassemble_Text
  imports Disassemble Riscv_Spec
begin

text \<open>
  The text in the disassembler's buffer. \<open>tx n t u\<close> is a buffer of \<open>n\<close> characters with the text
  \<open>t\<close> and behind it what is left over of an operand that a handler removed, \<open>u\<close>. Each part
  of the disassembler is described by the texts it makes of such a buffer.
\<close>

section \<open>Buffers as texts\<close>

text \<open>
  A buffer of \<open>n\<close> characters that holds the text \<open>t\<close>, written, then \<open>u\<close>, left over from before, and
  NUL characters to its end.
\<close>

definition tx :: "nat \<Rightarrow> string \<Rightarrow> string \<Rightarrow> string" where
  "tx n t u = t @ u @ replicate (n - length t - length u) nul"

definition ln :: "string \<Rightarrow> nat" where
  "ln t = length t"

lemma put_tx:
  assumes "length t + length s \<le> n" "length t + length u \<le> n"
  shows "put s (ln t) (tx n t u) = Inr (tx n (t @ s) (drop (length s) u))"
proof -
  have "length s - length u + (n - length t - length s - (length u - length s)) = n - length t - length u"
    "length u \<le> length s \<or> length u - length s + length s = length u"
    using assms by auto
  then show ?thesis
    using assms by (auto simp: put_def algebra_simps ln_def tx_def)
qed

lemma tx_split: "tx n (p @ a @ q) u = (p @ a @ q) @ u @ replicate (n - length (p @ a @ q) - length u) nul"
  by (simp add: tx_def)

lemma put_over:
  assumes "length a = length s"
  shows "put s (length p) (tx n (p @ a @ q) u) = Inr (tx n (p @ s @ q) u)"
  using assms by (simp add: put_def tx_def)

lemma tx_shift: "tx n (t @ s) [] = tx n t s"
  by (simp add: tx_def)

lemma strcmp_at_tx:
  assumes "length t + length u < n" "nul \<notin> set t" "nul \<notin> set u" "nul \<notin> set lit" "k + length lit = length t"
  shows "strcmp_at (tx n t u) k lit = Inr (drop k t = lit \<and> u = [])"
  using assms(4,5)
proof (induction lit arbitrary: k)
  case Nil
  have "u \<noteq> [] \<Longrightarrow> (u @ replicate (n - length t - length u) nul) ! 0 \<noteq> nul" using assms(3) by (cases u) auto
  with Nil assms(1) show ?case by (cases "u = []") (simp_all add: nth_append tx_def)
next
  case (Cons c cs)
  then have k: "k < length t" and d: "drop k t = t ! k # drop (Suc k) t" by (simp_all add: Cons_nth_drop_Suc)
  have "tx n t u ! k = t ! k" "k < length (tx n t u)" using k by (simp_all add: nth_append tx_def)
  then show ?case using Cons.IH [of "Suc k"] Cons.prems k by (simp add: d)
qed

lemma strcmp_before_tx:
  assumes "length t + length u < n" "nul \<notin> set t" "nul \<notin> set u" "nul \<notin> set lit" "length lit \<le> length t"
  shows "strcmp_before (tx n t u) (ln t) lit = Inr (drop (length t - length lit) t = lit \<and> u = [])"
  using strcmp_at_tx [OF assms(1-4), of "length t - length lit"] assms(5) by (simp add: strcmp_before_def ln_def)

lemma cstr_tx:
  assumes "length t + length u < n" "nul \<notin> set t" "nul \<notin> set u"
  shows "cstr (tx n t u) = t @ u"
proof -
  obtain k where k: "n - length t - length u = Suc k" using assms(1) by (cases "n - length t - length u") auto
  have "cstr ((t @ u) @ nul # replicate k nul) = t @ u"
    unfolding cstr_def by (rule span_append) (use assms in simp)
  then show ?thesis unfolding tx_def k by simp
qed

lemma starts_with_tx:
  assumes "length t + length u < n" "nul \<notin> set t" "nul \<notin> set u"
  shows "starts_with (tx n t u) lit = Inr (take (length lit) (t @ u) = lit)"
  using assms cstr_tx [OF assms] by (auto simp: starts_with_def tx_def)

section \<open>Register names\<close>

definition abi_name :: "nat \<Rightarrow> string" where
  "abi_name r =
     (if r = 0 then ''zero'' else if r = 1 then ''ra'' else if r = 2 then ''sp'' else if r = 3 then ''gp''
      else if r = 4 then ''tp'' else if r \<le> 7 then ''t'' @ digits_of (r - 5)
      else if r \<le> 9 then ''s'' @ digits_of (r - 8) else if r \<le> 17 then ''a'' @ digits_of (r - 10)
      else if r \<le> 27 then ''s'' @ digits_of (r - 16) else ''t'' @ digits_of (r - 25))"

lemma all_less_32_regs: "(\<forall>r < 32. P r) \<longleftrightarrow> (\<forall>r \<in> set [0..<32]. P (r::nat))"
  by auto

lemma convert_registry_abi: "r < 32 \<Longrightarrow> convert_registry r = Inr (abi_name r)"
proof -
  have "\<forall>r < 32. convert_registry r = Inr (abi_name r)"
    unfolding all_less_32_regs by code_simp
  then show "r < 32 \<Longrightarrow> convert_registry r = Inr (abi_name r)" by blast
qed

lemma abi_name_facts:
  assumes "r < 32"
  shows "2 \<le> length (abi_name r) \<and> length (abi_name r) \<le> 4 \<and> nul \<notin> set (abi_name r) \<and>
    (r \<noteq> 0 \<longrightarrow> length (abi_name r) \<le> 3 \<and> last (abi_name r) \<noteq> CHR ''o'')"
proof -
  have "\<forall>r < 32. 2 \<le> length (abi_name r) \<and> length (abi_name r) \<le> 4 \<and> nul \<notin> set (abi_name r) \<and>
    (r \<noteq> 0 \<longrightarrow> length (abi_name r) \<le> 3 \<and> last (abi_name r) \<noteq> CHR ''o'')"
    unfolding all_less_32_regs by code_simp
  with assms show ?thesis by blast
qed


lemmas abi_length = abi_name_facts [THEN conjunct1] abi_name_facts [THEN conjunct2, THEN conjunct1]
lemmas abi_nul = abi_name_facts [THEN conjunct2, THEN conjunct2, THEN conjunct1]

lemma abi_name_ends:
  assumes "r < 32"
  shows "last (abi_name r) = CHR ''o'' \<longleftrightarrow> r = 0" "last (abi_name r) = CHR ''a'' \<longleftrightarrow> r = 1"
proof -
  have "\<forall>r < 32. (last (abi_name r) = CHR ''o'' \<longleftrightarrow> r = 0) \<and> (last (abi_name r) = CHR ''a'' \<longleftrightarrow> r = 1)"
    unfolding all_less_32_regs by code_simp
  with assms show "last (abi_name r) = CHR ''o'' \<longleftrightarrow> r = 0" "last (abi_name r) = CHR ''a'' \<longleftrightarrow> r = 1" by blast+
qed

text \<open>Looking back at the operands that were written.\<close>

lemma drop_suffix_iff: "length s \<le> length t \<Longrightarrow> drop (length t - length s) t = s \<longleftrightarrow> (\<exists>p. t = p @ s)"
proof
  assume "drop (length t - length s) t = s"
  then show "\<exists>p. t = p @ s" by (metis append_take_drop_id)
qed auto

lemma ends_zero:
  assumes "r < 32"
  shows "(\<exists>q. p @ abi_name r @ '','' = q @ ''zero,'') \<longleftrightarrow> r = 0"
proof
  assume "\<exists>q. p @ abi_name r @ '','' = q @ ''zero,''"
  then obtain q where "(p @ abi_name r) @ '','' = (q @ ''zero'') @ '',''" by auto
  then have "p @ abi_name r = q @ ''zero''" by (simp only: append_same_eq)
  moreover have "abi_name r \<noteq> []" using abi_length(1) [OF assms] by auto
  ultimately have "last (abi_name r) = CHR ''o''" by (metis last_appendR last_ConsR last_ConsL list.distinct(1))
  then show "r = 0" using abi_name_ends [OF assms] by simp
qed (auto simp: abi_name_def)

lemma ends_zero_ra:
  assumes "r < 32" "r' < 32"
  shows "(\<exists>q. p @ abi_name r @ '','' @ abi_name r' @ '','' = q @ ''zero,ra,'') \<longleftrightarrow> r = 0 \<and> r' = 1"
proof
  assume "\<exists>q. p @ abi_name r @ '','' @ abi_name r' @ '','' = q @ ''zero,ra,''"
  then obtain q where "(p @ abi_name r @ '','' @ abi_name r') @ '','' = (q @ ''zero,ra'') @ '',''" by auto
  then have e: "p @ abi_name r @ '','' @ abi_name r' = q @ ''zero,ra''" by (simp only: append_same_eq)
  moreover have "abi_name r' \<noteq> []" using abi_length(1) [OF assms(2)] by auto
  ultimately have "last (abi_name r') = CHR ''a''" by (metis append_assoc last_appendR last_ConsR last_ConsL list.distinct(1))
  then have r': "r' = 1" using abi_name_ends [OF assms(2)] by simp
  with e have "(p @ abi_name r @ '','') @ ''ra'' = (q @ ''zero,'') @ ''ra''" by (simp add: abi_name_def)
  then have "p @ abi_name r @ '','' = q @ ''zero,''" by (simp only: append_same_eq)
  with r' ends_zero [OF assms(1), of p] show "r = 0 \<and> r' = 1" by blast
qed (auto simp: abi_name_def)

section \<open>The parts of the disassembler on texts\<close>

lemma reg_field_eq:
  "unat (reg_field i REGISTER_RD) = field 7 5 i" "unat (reg_field i REGISTER_RS1) = field 15 5 i"
  "unat (reg_field i REGISTER_RS2) = field 20 5 i"
proof -
  have "reg_field i REGISTER_RD = take_bit 5 (drop_bit 7 i)" "reg_field i REGISTER_RS1 = take_bit 5 (drop_bit 15 i)"
    "reg_field i REGISTER_RS2 = take_bit 5 (drop_bit 20 i)"
    by (simp_all add: reg_field_def word32_eq_iff word_bits_less bit_simps)
  then show "unat (reg_field i REGISTER_RD) = field 7 5 i" "unat (reg_field i REGISTER_RS1) = field 15 5 i"
    "unat (reg_field i REGISTER_RS2) = field 20 5 i"
    by (simp_all only: unat_take_drop)
qed

definition reg_text :: "u32 \<Rightarrow> register \<Rightarrow> string" where
  "reg_text i r = abi_name (unat (reg_field i r))"

lemma reg_field_less: "unat (reg_field i r) < 32"
  by (cases r) (simp_all add: reg_field_eq field_less)

lemma reg_text_facts:
  "2 \<le> length (reg_text i r)" "length (reg_text i r) \<le> 4" "nul \<notin> set (reg_text i r)"
  using abi_name_facts [OF reg_field_less [of i r]] by (simp_all add: reg_text_def)

lemma ln_append: "ln t + length s = ln (t @ s)"
  by (simp add: ln_def)

lemma decode_registre_tx:
  assumes "length t + 6 < n" "length t + length u < n"
  shows "decode_registre i r True n (tx n t u, ln t) =
      Inr (tx n (t @ reg_text i r @ '','') (drop (Suc (length (reg_text i r))) u), ln (t @ reg_text i r @ '',''))"
    and "decode_registre i r False n (tx n t u, ln t) =
      Inr (tx n (t @ reg_text i r) (drop (length (reg_text i r)) u), ln (t @ reg_text i r))"
proof -
  let ?r = "reg_text i r"
  note r = reg_text_facts [of i r] convert_registry_abi [OF reg_field_less, folded reg_text_def]
  have a: "put ?r (ln t) (tx n t u) = Inr (tx n (t @ ?r) (drop (length ?r) u))"
    using assms r by (intro put_tx) auto
  have b: "put '','' (ln (t @ ?r)) (tx n (t @ ?r) (drop (length ?r) u)) =
      Inr (tx n ((t @ ?r) @ '','') (drop (length '','') (drop (length ?r) u)))"
    using assms r by (intro put_tx) auto
  have fit: "ln t + length ?r < n" "ln (t @ ?r) + 1 < n" using assms r by (simp_all add: ln_def)
  have "ln (t @ ?r) + 1 = ln (t @ ?r @ '','')" by (simp add: ln_def)
  then show "decode_registre i r True n (tx n t u, ln t) =
      Inr (tx n (t @ ?r @ '','') (drop (Suc (length ?r)) u), ln (t @ ?r @ '',''))"
    using a b fit r(4) by (simp add: decode_registre_def ln_append Let_def)
  show "decode_registre i r False n (tx n t u, ln t) = Inr (tx n (t @ ?r) (drop (length ?r) u), ln (t @ ?r))"
    using a fit r(4) by (simp add: decode_registre_def ln_append Let_def)
qed

definition pad :: "string \<Rightarrow> string" where
  "pad m = m @ replicate (8 - length m) (CHR '' '')"

lemma length_pad: "length m \<le> 8 \<Longrightarrow> length (pad m) = 8"
  by (simp add: pad_def)

lemma nul_pad: "nul \<notin> set m \<Longrightarrow> nul \<notin> set (pad m)"
  by (auto simp: pad_def nul_def)

text \<open>Writing a name at the start, over nothing or over another name.\<close>

lemma add_mnemonic_over:
  assumes "length m \<le> 8" "length m' \<le> 8" "8 < n"
  shows "add_mnemonic m n (tx n (pad m' @ t) u, 0) = Inr (tx n (pad m @ t) u, 8)"
proof -
  let ?b = "drop (length m) (pad m')"
  have "put m 0 (tx n (pad m' @ t) u) = Inr (tx n (m @ ?b @ t) u)"
    using assms length_pad [of m'] by (simp add: put_def tx_def)
  moreover have "put (replicate (8 - length m) CHR '' '') (length m) (tx n (m @ ?b @ t) u) =
      Inr (tx n (m @ replicate (8 - length m) CHR '' '' @ t) u)"
    by (rule put_over) (use assms length_pad in simp)
  ultimately show ?thesis
    using assms by (simp add: add_mnemonic_def) (simp add: pad_def)
qed

lemma clear_tx: "length t + length u \<le> n \<Longrightarrow> clear_buffer (tx n t u) = tx n [] []"
  by (simp add: clear_buffer_def tx_def)

lemma add_mnemonic_start:
  assumes "length m \<le> 8" "8 < n"
  shows "add_mnemonic m n (tx n [] [], 0) = Inr (tx n (pad m) [], ln (pad m))"
proof -
  have "put m (ln []) (tx n [] []) = Inr (tx n ([] @ m) (drop (length m) []))"
    "put (replicate (8 - length m) CHR '' '') (ln m) (tx n m []) =
      Inr (tx n (m @ replicate (8 - length m) CHR '' '') (drop (length (replicate (8 - length m) CHR '' '')) []))"
    using assms by (intro put_tx; simp)+
  then show ?thesis using assms by (simp add: add_mnemonic_def pad_def ln_def)
qed

lemma convert_imm_tx:
  assumes "length (format_text f w) \<le> 10" "length t + length (format_text f w) < n" "length t + length u \<le> n"
  shows "convert_imm_to_str w f n (tx n t u, ln t) =
    Inr (tx n (t @ format_text f w) (drop (length (format_text f w)) u), ln (t @ format_text f w))"
  using assms put_tx [of t "format_text f w" n u] by (simp add: convert_imm_to_str_def Let_def ln_append) (simp add: ln_def)

lemma put_char_tx:
  assumes "length t < n" "length t + length u \<le> n"
  shows "put_char c (tx n t u, ln t) = Inr (tx n (t @ [c]) (tl u), ln (t @ [c]))"
  using assms put_tx [of t "[c]" n u] by (simp add: put_char_def drop_Suc) (simp add: ln_def)

lemma rename_and_cut_tx:
  assumes "length m \<le> 8" "length m' \<le> 8" "length t + 9 \<le> n" "8 < n"
  shows "rename_and_cut m n (tx n (pad m' @ t @ [c]) [], ln (pad m' @ t @ [c])) = Inr (tx n (pad m @ t) [], ln (pad m @ t))"
proof -
  have "tx n (pad m @ t @ [c]) [] = tx n (pad m @ t) [c]" by (simp add: tx_def)
  moreover have "put [nul] (ln (pad m @ t)) (tx n (pad m @ t) [c]) = Inr (tx n ((pad m @ t) @ [nul]) (drop (length [nul]) [c]))"
    using assms length_pad [of m] by (intro put_tx) auto
  moreover have "tx n ((pad m @ t) @ [nul]) [] = tx n (pad m @ t) []"
    using assms length_pad [of m] by (simp add: tx_def replicate_Suc [symmetric] del: replicate_Suc)
  ultimately show ?thesis
    using assms add_mnemonic_over [of m m' n "t @ [c]" "[]"] length_pad [of m] length_pad [of m']
    by (simp add: rename_and_cut_def) (simp add: ln_def)
qed

lemma put_end_tx:
  assumes "length t + length s < n"
  shows "put (s @ [nul]) (ln t) (tx n t []) = Inr (tx n (t @ s) [])"
proof -
  have "put (s @ [nul]) (ln t) (tx n t []) = Inr (tx n (t @ (s @ [nul])) (drop (length (s @ [nul])) []))"
    using assms by (intro put_tx) auto
  moreover have "tx n (t @ s @ [nul]) [] = tx n (t @ s) []"
    using assms by (simp add: tx_def replicate_Suc [symmetric] del: replicate_Suc)
  ultimately show ?thesis by simp
qed


section \<open>Handlers\<close>

lemma handle_u_type_text:
  assumes "length t = 8" "64 \<le> n" "length (alt_hex_text (unat (drop_bit 12 (i AND 0xFFFFF000)))) \<le> 10"
  shows "handle_u_type i n (tx n t [], ln t) =
    Inr (tx n (t @ reg_text i REGISTER_RD @ '','' @ alt_hex_text (unat (drop_bit 12 (i AND 0xFFFFF000)))) [],
         ln (t @ reg_text i REGISTER_RD @ '',''))"
  using assms reg_text_facts [of i REGISTER_RD]
  by (simp add: handle_u_type_def decode_registre_tx put_end_tx Let_def)

lemma handle_i_type_shift_text:
  assumes "length t = 8" "64 \<le> n" "length (alt_hex_text (unat (reg_field i REGISTER_RS2))) \<le> 10"
  shows "\<exists>k. handle_i_type_shift i n (tx n t [], ln t) =
    Inr (tx n (t @ reg_text i REGISTER_RD @ '','' @ reg_text i REGISTER_RS1 @ '','' @
           alt_hex_text (unat (reg_field i REGISTER_RS2))) [], k)"
  using assms reg_text_facts [of i REGISTER_RD] reg_text_facts [of i REGISTER_RS1]
  by (simp add: handle_i_type_shift_def decode_registre_tx put_end_tx Let_def reg_field_def)

lemma handle_i_type_load_text:
  assumes "length t = 8" "64 \<le> n" "length (format_text Format_i (i_type_immediat_decode i)) \<le> 10"
  shows "\<exists>k. handle_i_type_load i n (tx n t [], ln t) =
    Inr (tx n (t @ reg_text i REGISTER_RD @ '','' @ format_text Format_i (i_type_immediat_decode i) @ ''('' @
           reg_text i REGISTER_RS1 @ '')'') [], k)"
  using assms reg_text_facts [of i REGISTER_RD] reg_text_facts [of i REGISTER_RS1]
  by (simp add: handle_i_type_load_def decode_registre_tx convert_imm_tx put_char_tx)


lemma reg_zero: "(\<exists>q. p @ reg_text i r @ '','' = q @ ''zero,'') \<longleftrightarrow> unat (reg_field i r) = 0"
  unfolding reg_text_def by (rule ends_zero [OF reg_field_less])

text \<open>The tests of the text written so far.\<close>

lemma last_is_zero:
  assumes "length p = 8" "nul \<notin> set p" "64 \<le> n" "length q \<le> 5" "nul \<notin> set q" "length u \<le> 5" "nul \<notin> set u"
  shows "strcmp_before (tx n (p @ q @ reg_text i r @ '','') u) (ln (p @ q @ reg_text i r @ '','')) ''zero,'' =
    Inr (unat (reg_field i r) = 0 \<and> u = [])"
proof -
  let ?t = "p @ q @ reg_text i r @ '',''"
  have "strcmp_before (tx n ?t u) (ln ?t) ''zero,'' = Inr (drop (length ?t - length ''zero,'') ?t = ''zero,'' \<and> u = [])"
    by (rule strcmp_before_tx) (use assms reg_text_facts [of i r] in \<open>auto simp: nul_def\<close>)
  moreover have "drop (length ?t - length ''zero,'') ?t = ''zero,'' \<longleftrightarrow> (\<exists>q'. ?t = q' @ ''zero,'')"
    by (rule drop_suffix_iff) (use assms in simp)
  ultimately show ?thesis using reg_zero [of "p @ q" i r] by simp
qed

lemma last_is_zero_ra:
  assumes "length p = 8" "nul \<notin> set p" "64 \<le> n"
  shows "strcmp_before (tx n (p @ reg_text i r @ '','' @ reg_text i r' @ '','') []) (ln (p @ reg_text i r @ '','' @ reg_text i r' @ '','')) ''zero,ra,'' =
    Inr (unat (reg_field i r) = 0 \<and> unat (reg_field i r') = 1)"
proof -
  let ?t = "p @ reg_text i r @ '','' @ reg_text i r' @ '',''"
  have "strcmp_before (tx n ?t []) (ln ?t) ''zero,ra,'' = Inr (drop (length ?t - length ''zero,ra,'') ?t = ''zero,ra,'' \<and> [] = ([]::string))"
    by (rule strcmp_before_tx) (use assms reg_text_facts [of i r] reg_text_facts [of i r'] in \<open>auto simp: nul_def\<close>)
  moreover have "drop (length ?t - length ''zero,ra,'') ?t = ''zero,ra,'' \<longleftrightarrow> (\<exists>q'. ?t = q' @ ''zero,ra,'')"
    by (rule drop_suffix_iff) (use assms in simp)
  ultimately show ?thesis
    using ends_zero_ra [OF reg_field_less [of i r] reg_field_less [of i r'], of p] by (simp add: reg_text_def)
qed

lemma starts_with_pad:
  assumes "length p = 8" "nul \<notin> set p" "64 \<le> n" "length q \<le> 20" "nul \<notin> set q" "length u \<le> 5" "nul \<notin> set u" "length lit \<le> 8"
  shows "starts_with (tx n (p @ q) u) lit = Inr (take (length lit) p = lit)"
  using starts_with_tx [of "p @ q" u n lit] assms by simp

definition named_as :: "string \<Rightarrow> string \<Rightarrow> bool" where
  "named_as lit m \<longleftrightarrow> take (length lit) (pad m) = lit"

definition i_text :: "string \<Rightarrow> u32 \<Rightarrow> i32 \<Rightarrow> string" where
  "i_text m i imm =
     (let rd = reg_text i REGISTER_RD; rs1 = reg_text i REGISTER_RS1; r1 = unat (reg_field i REGISTER_RS1) in
      if r1 = 0 then pad ''li'' @ rd @ '','' @ print_int (sint imm)
      else if imm = 0 \<and> unat (reg_field i REGISTER_RD) = 0 \<and> r1 = 1 then pad ''ret''
      else if imm = 0 \<and> named_as ''addi'' m then pad ''mv'' @ rd @ '','' @ rs1
      else if imm = 255 then pad ''zext.b'' @ rd @ '','' @ rs1
      else if imm = - 1 \<and> named_as ''xori'' m then pad ''not'' @ rd @ '','' @ rs1
      else pad m @ rd @ '','' @ rs1 @ '','' @ print_int (sint imm))"

lemma handle_i_type_text:
  assumes m: "length m \<le> 8" "nul \<notin> set m" and n: "64 \<le> n"
    and f: "length (print_int (sint (i_type_immediat_decode i))) \<le> 10"
  shows "\<exists>k. handle_i_type i n (tx n (pad m) [], ln (pad m)) = Inr (tx n (i_text m i (i_type_immediat_decode i)) [], k)"
proof -
  let ?rd = "reg_text i REGISTER_RD" and ?rs1 = "reg_text i REGISTER_RS1" and ?imm = "i_type_immediat_decode i"
  let ?r1 = "unat (reg_field i REGISTER_RS1)"
  let ?t = "pad m @ ?rd @ '','' @ ?rs1 @ '',''"
  note facts = reg_text_facts [of i REGISTER_RD] reg_text_facts [of i REGISTER_RS1] length_pad [OF m(1)] nul_pad [OF m(2)] n
  have zero: "strcmp_before (tx n ?t []) (ln ?t) ''zero,'' = Inr (?r1 = 0)"
    using last_is_zero [of "pad m" n "?rd @ '',''" "[]" i REGISTER_RS1] facts by (simp add: nul_def)
  have ra: "strcmp_before (tx n ?t []) (ln ?t) ''zero,ra,'' = Inr (unat (reg_field i REGISTER_RD) = 0 \<and> ?r1 = 1)"
    by (rule last_is_zero_ra) (use facts in auto)
  have st: "starts_with (tx n ?t []) lit = Inr (named_as lit m)" if "length lit \<le> 8" for lit
    unfolding named_as_def by (rule starts_with_pad) (use facts that in \<open>auto simp: nul_def\<close>)
  have cut: "rename_and_cut m' n (tx n ?t [], ln ?t) = Inr (tx n (pad m' @ ?rd @ '','' @ ?rs1) [], ln (pad m' @ ?rd @ '','' @ ?rs1))"
    if "length m' \<le> 8" for m'
    using rename_and_cut_tx [OF that m(1), of "?rd @ '','' @ ?rs1" n "CHR '',''"] facts by simp
  have fmt: "convert_imm_to_str ?imm Format_i n (tx n s [], ln s) =
      Inr (tx n (s @ print_int (sint ?imm)) [], ln (s @ print_int (sint ?imm)))" if "length s \<le> 20" for s
    using convert_imm_tx [of Format_i ?imm s n "[]"] that f n by (simp add: format_text_def)
  have read: "decode_registre i REGISTER_RD True n (tx n (pad m) [], ln (pad m)) = Inr (tx n (pad m @ ?rd @ '','') [], ln (pad m @ ?rd @ '',''))"
      "decode_registre i REGISTER_RS1 True n (tx n (pad m @ ?rd @ '','') [], ln (pad m @ ?rd @ '','')) = Inr (tx n ?t [], ln ?t)"
    using decode_registre_tx [of "pad m" n "[]"] decode_registre_tx [of "pad m @ ?rd @ '',''" n "[]"] facts by simp_all
  show ?thesis
  proof (cases "?r1 = 0")
    case True
    have "decode_registre i REGISTER_RD True n (tx n (pad ''li'') [], ln (pad ''li'')) = Inr (tx n (pad ''li'' @ ?rd @ '','') [], ln (pad ''li'' @ ?rd @ '',''))"
      using decode_registre_tx [of "pad ''li''" n "[]"] facts length_pad [of "''li''"] by simp
    moreover have "convert_imm_to_str ?imm Format_i n (tx n (pad ''li'' @ ?rd @ '','') [], ln (pad ''li'' @ ?rd @ '','')) =
        Inr (tx n ((pad ''li'' @ ?rd @ '','') @ print_int (sint ?imm)) [], ln ((pad ''li'' @ ?rd @ '','') @ print_int (sint ?imm)))"
      by (rule fmt) (use facts length_pad [of "''li''"] in simp)
    moreover have "clear_buffer (tx n ?t []) = tx n [] []" by (rule clear_tx) (use facts in simp)
    ultimately show ?thesis
      using True add_mnemonic_start [of "''li''" n] n read zero
      by (auto simp: handle_i_type_def Let_def i_text_def)
  next
    case False
    have "convert_imm_to_str ?imm Format_i n (tx n ?t [], ln ?t) = Inr (tx n (?t @ print_int (sint ?imm)) [], ln (?t @ print_int (sint ?imm)))"
      by (rule fmt) (use facts in simp)
    moreover have "clear_buffer (tx n ?t []) = tx n [] []" by (rule clear_tx) (use facts in simp)
    ultimately show ?thesis
      using False add_mnemonic_start [of "''ret''" n] n read zero ra st [of "''addi''"] st [of "''xori''"]
        cut [of "''mv''"] cut [of "''zext.b''"] cut [of "''not''"]
      by (auto simp: handle_i_type_def Let_def i_text_def)
  qed
qed

lemma handle_i_type_imm_text:
  assumes m: "length m \<le> 8" "nul \<notin> set m" and n: "64 \<le> n"
  shows "\<exists>k. handle_i_type_imm i n (tx n (pad m) [], ln (pad m)) =
    Inr (tx n (if unat (reg_field i REGISTER_RS1) = 0 then pad ''neg'' @ reg_text i REGISTER_RD @ '','' @ reg_text i REGISTER_RS2
               else pad m @ reg_text i REGISTER_RD @ '','' @ reg_text i REGISTER_RS1 @ '','' @ reg_text i REGISTER_RS2) [], k)"
proof -
  let ?rd = "reg_text i REGISTER_RD" and ?rs1 = "reg_text i REGISTER_RS1" and ?rs2 = "reg_text i REGISTER_RS2"
  let ?r1 = "unat (reg_field i REGISTER_RS1)"
  let ?t = "pad m @ ?rd @ '','' @ ?rs1 @ '',''"
  note facts = reg_text_facts [of i REGISTER_RD] reg_text_facts [of i REGISTER_RS1] length_pad [OF m(1)] nul_pad [OF m(2)] n
  have zero: "strcmp_before (tx n ?t []) (ln ?t) ''zero,'' = Inr (?r1 = 0)"
    using last_is_zero [of "pad m" n "?rd @ '',''" "[]" i REGISTER_RS1] facts by (simp add: nul_def)
  have read: "decode_registre i REGISTER_RD True n (tx n (pad m) [], ln (pad m)) = Inr (tx n (pad m @ ?rd @ '','') [], ln (pad m @ ?rd @ '',''))"
      "decode_registre i REGISTER_RS1 True n (tx n (pad m @ ?rd @ '','') [], ln (pad m @ ?rd @ '','')) = Inr (tx n ?t [], ln ?t)"
      "decode_registre i REGISTER_RS2 False n (tx n ?t [], ln ?t) = Inr (tx n (?t @ ?rs2) [], ln (?t @ ?rs2))"
    using decode_registre_tx [of "pad m" n "[]"] decode_registre_tx [of "pad m @ ?rd @ '',''" n "[]"] decode_registre_tx [of ?t n "[]"] facts by simp_all
  show ?thesis
  proof (cases "?r1 = 0")
    case True
    let ?s = "pad ''neg'' @ ?rd @ '',''"
    have rs1: "?rs1 = ''zero''" using True by (simp add: reg_text_def abi_name_def)
    have s: "length ?s \<le> 13" using facts length_pad [of "''neg''"] by simp
    have "add_mnemonic ''neg'' n (tx n ?t [], 0) = Inr (tx n (?s @ ''zero,'') [], 8)"
      using add_mnemonic_over [of "''neg''" m n "?rd @ '','' @ ?rs1 @ '',''" "[]"] m n by (simp add: rs1)
    moreover have "put (replicate 5 nul) (ln ?s) (tx n ?s ''zero,'') = Inr (tx n (?s @ replicate 5 nul) (drop (length (replicate 5 nul)) ''zero,''))"
      by (rule put_tx) (use s n in auto)
    moreover have "tx n (?s @ replicate 5 nul) [] = tx n ?s []"
      using s n replicate_add [of 5 "n - length ?s - 5" nul] by (simp add: tx_def)
    moreover have "ln ?t - 5 = ln ?s" using facts length_pad [of "''neg''"] by (simp add: ln_def rs1)
    moreover have "decode_registre i REGISTER_RS2 False n (tx n ?s [], ln ?s) = Inr (tx n (?s @ ?rs2) [], ln (?s @ ?rs2))"
      using decode_registre_tx [of ?s n "[]"] s n by simp
    ultimately show ?thesis
      using True read zero tx_shift [of n ?s "''zero,''"] by (simp add: handle_i_type_imm_def)
  next
    case False
    then show ?thesis using read zero by (simp add: handle_i_type_imm_def)
  qed
qed


lemma handle_s_type_text:
  assumes "length t = 8" "64 \<le> n" "length (print_int (sint (isa_imm_S i))) \<le> 10"
    and imm: "(let imm = drop_bit 20 (i AND 0xFE000000) OR drop_bit 7 (i AND 0xF80)
      in if imm AND 0x800 = 0x800 then (imm AND 0x7FF) OR 0xFFFFF800 else imm) = isa_imm_S i"
  shows "\<exists>k. handle_s_type i n (tx n t [], ln t) =
    Inr (tx n (t @ reg_text i REGISTER_RS2 @ '','' @ print_int (sint (isa_imm_S i)) @ ''('' @ reg_text i REGISTER_RS1 @ '')'') [], k)"
  using assms(1-3) reg_text_facts [of i REGISTER_RS2] reg_text_facts [of i REGISTER_RS1]
  unfolding handle_s_type_def imm [unfolded Let_def] Let_def
  by (simp add: decode_registre_tx convert_imm_tx put_char_tx format_text_def)

definition renamed :: "(string \<times> string) list \<Rightarrow> string \<Rightarrow> string" where
  "renamed rs m = (case find (\<lambda>(old, new). named_as old m) rs of None \<Rightarrow> m | Some (_, new) \<Rightarrow> new)"

lemma rename_first_tx:
  assumes "length m \<le> 8" "nul \<notin> set m" "64 \<le> n" "length q \<le> 20" "nul \<notin> set q" "length u \<le> 5" "nul \<notin> set u"
    and "\<forall>(old, new) \<in> set rs. length old \<le> 8 \<and> length new \<le> 8"
  shows "rename_first rs n (tx n (pad m @ q) u) = Inr (tx n (pad (renamed rs m) @ q) u)"
  using assms(8)
proof (induction rs)
  case (Cons r rs)
  obtain old new where r: "r = (old, new)" by (cases r)
  have "starts_with (tx n (pad m @ q) u) old = Inr (named_as old m)"
    unfolding named_as_def by (rule starts_with_pad) (use assms Cons.prems r length_pad nul_pad in auto)
  moreover have "add_mnemonic new n (tx n (pad m @ q) u, 0) = Inr (tx n (pad new @ q) u, 8)"
    by (rule add_mnemonic_over) (use assms Cons.prems r in auto)
  ultimately show ?case
    using Cons by (simp add: r renamed_def)
qed (simp add: renamed_def)

lemma drop_zero_operand_tx:
  assumes m: "length m \<le> 8" "nul \<notin> set m" and n: "64 \<le> n" and q: "length q \<le> 5" "nul \<notin> set q"
    and u: "length u \<le> 5" "nul \<notin> set u"
    and rs: "\<forall>(old, new) \<in> set rs. length old \<le> 8 \<and> length new \<le> 8"
  shows "drop_zero_operand rs n (tx n (pad m @ q @ reg_text i r @ '','') u, ln (pad m @ q @ reg_text i r @ '','')) =
    Inr (if unat (reg_field i r) = 0 \<and> u = [] then (tx n (pad (renamed rs m) @ q) ''zero,'', ln (pad m @ q))
         else (tx n (pad m @ q @ reg_text i r @ '','') u, ln (pad m @ q @ reg_text i r @ '','')))"
proof -
  let ?t = "pad m @ q @ reg_text i r @ '',''"
  have test: "strcmp_before (tx n ?t u) (ln ?t) ''zero,'' = Inr (unat (reg_field i r) = 0 \<and> u = [])"
    by (rule last_is_zero) (use assms length_pad nul_pad in auto)
  show ?thesis
  proof (cases "unat (reg_field i r) = 0 \<and> u = []")
    case True
    then have "reg_text i r = ''zero''" by (simp add: reg_text_def abi_name_def)
    moreover from this have "ln ?t - 5 = ln (pad m @ q)" by (simp add: ln_def)
    moreover have "rename_first rs n (tx n (pad m @ (q @ ''zero,'')) []) = Inr (tx n (pad (renamed rs m) @ (q @ ''zero,'')) [])"
      by (rule rename_first_tx) (use assms in \<open>auto simp: nul_def\<close>)
    ultimately show ?thesis
      using True test tx_shift [of n "pad (renamed rs m) @ q" "''zero,''"] by (simp add: drop_zero_operand_def)
  qed (use test in \<open>auto simp: drop_zero_operand_def\<close>)
qed

lemma length_renamed:
  assumes "length m \<le> 8" "\<forall>(old, new) \<in> set rs. length old \<le> 8 \<and> length new \<le> 8"
  shows "length (renamed rs m) \<le> 8"
  using assms by (auto simp: renamed_def find_Some_iff split: option.split) (metis case_prod_conv nth_mem)

lemma nul_renamed:
  assumes "nul \<notin> set m" "\<forall>(old, new) \<in> set rs. nul \<notin> set new"
  shows "nul \<notin> set (renamed rs m)"
  using assms by (auto simp: renamed_def find_Some_iff split: option.split) (metis case_prod_conv nth_mem)

definition left_renames :: "(string \<times> string) list" where
  "left_renames = [(''bge'', ''blez''), (''blt'', ''bgtz'')]"

definition right_renames :: "(string \<times> string) list" where
  "right_renames = [(''beq'', ''beqz''), (''bne'', ''bnez''), (''bge'', ''bgez''), (''blt'', ''bltz'')]"

lemma renames_short:
  "\<forall>(old, new) \<in> set left_renames. length old \<le> 8 \<and> length new \<le> 8"
  "\<forall>(old, new) \<in> set right_renames. length old \<le> 8 \<and> length new \<le> 8"
  "\<forall>(old, new) \<in> set left_renames. nul \<notin> set new" "\<forall>(old, new) \<in> set right_renames. nul \<notin> set new"
  by (simp_all add: left_renames_def right_renames_def nul_def)

definition branch_offset :: "u32 \<Rightarrow> u32" where
  "branch_offset i =
     (let imm = drop_bit 7 ((i AND 0xF80) AND 0xF00) OR drop_bit 20 ((i AND 0xFE000000) AND 0x7E000000) OR
                push_bit 4 ((i AND 0xF80) AND 0x80)
      in if i AND 0x80000000 = 0x80000000 then imm OR 0xFFFFF000 else imm)"

definition b_text :: "string \<Rightarrow> u32 \<Rightarrow> string \<Rightarrow> string" where
  "b_text m i s =
     (let rs1 = reg_text i REGISTER_RS1; rs2 = reg_text i REGISTER_RS2;
          r1 = unat (reg_field i REGISTER_RS1); r2 = unat (reg_field i REGISTER_RS2);
          m1 = (if r1 = 0 then renamed left_renames m else m);
          m2 = (if r2 = 0 then renamed right_renames m1 else m1) in
      pad m2 @ (if r1 = 0 then [] else rs1 @ '','') @ (if r2 = 0 then [] else rs2 @ '','') @ s @
      drop (length s) (if r2 = 0 then ''zero,'' else if r1 = 0 then drop (Suc (length rs2)) ''zero,'' else []))"

lemma handle_b_type_text:
  fixes addr i :: u32
  defines "s \<equiv> hex_text (unat (branch_offset i + addr))"
  assumes m: "length m \<le> 8" "nul \<notin> set m" and n: "64 \<le> n" and s: "length s \<le> 8"
  shows "\<exists>k. handle_b_type addr i n (tx n (pad m) [], ln (pad m)) = Inr (tx n (b_text m i s) [], k)"
proof -
  let ?rs1 = "reg_text i REGISTER_RS1" and ?rs2 = "reg_text i REGISTER_RS2"
  let ?r1 = "unat (reg_field i REGISTER_RS1)" and ?r2 = "unat (reg_field i REGISTER_RS2)"
  let ?m1 = "if ?r1 = 0 then renamed left_renames m else m"
  let ?q = "if ?r1 = 0 then [] else ?rs1 @ '',''" and ?u = "if ?r1 = 0 then ''zero,'' else []"
  note facts = reg_text_facts [of i REGISTER_RS1] reg_text_facts [of i REGISTER_RS2] n
  have m1: "length ?m1 \<le> 8" "nul \<notin> set ?m1"
    using m length_renamed [OF m(1) renames_short(1)] nul_renamed [OF m(2) renames_short(3)] by auto
  have m2: "length (renamed right_renames ?m1) \<le> 8" by (rule length_renamed [OF m1(1) renames_short(2)])
  note pads = length_pad [OF m(1)] length_pad [OF m1(1)] length_pad [OF m2]
  have 1: "decode_registre i REGISTER_RS1 True n (tx n (pad m) [], ln (pad m)) = Inr (tx n (pad m @ ?rs1 @ '','') [], ln (pad m @ ?rs1 @ '',''))"
    using decode_registre_tx [of "pad m" n "[]"] pads n by simp
  have 2: "drop_zero_operand left_renames n (tx n (pad m @ ?rs1 @ '','') [], ln (pad m @ ?rs1 @ '','')) =
      Inr (tx n (pad ?m1 @ ?q) ?u, ln (pad ?m1 @ ?q))"
    using drop_zero_operand_tx [OF m n, of "[]" "[]" left_renames i REGISTER_RS1] renames_short(1) pads
    by (auto simp: ln_def)
  have 3: "decode_registre i REGISTER_RS2 True n (tx n (pad ?m1 @ ?q) ?u, ln (pad ?m1 @ ?q)) =
      Inr (tx n (pad ?m1 @ ?q @ ?rs2 @ '','') (drop (Suc (length ?rs2)) ?u), ln (pad ?m1 @ ?q @ ?rs2 @ '',''))"
    using decode_registre_tx [of "pad ?m1 @ ?q" n ?u i REGISTER_RS2] facts pads by simp
  have q: "length ?q \<le> 5" "nul \<notin> set ?q" using facts by (auto simp: nul_def)
  let ?v = "drop (Suc (length ?rs2)) ?u"
  have v: "length ?v \<le> 5" "nul \<notin> set ?v" "?r2 = 0 \<Longrightarrow> ?v = []"
    using in_set_dropD [of nul "Suc (length ?rs2)" ?u]
    by (auto simp: nul_def reg_text_def abi_name_def split: if_splits)
  let ?m2 = "if ?r2 = 0 then renamed right_renames ?m1 else ?m1"
  let ?t = "pad ?m2 @ ?q @ (if ?r2 = 0 then [] else ?rs2 @ '','')" and ?w = "if ?r2 = 0 then ''zero,'' else ?v"
  have 4: "drop_zero_operand right_renames n (tx n (pad ?m1 @ ?q @ ?rs2 @ '','') ?v, ln (pad ?m1 @ ?q @ ?rs2 @ '','')) =
      Inr (tx n ?t ?w, ln ?t)"
    using drop_zero_operand_tx [OF m1 n q v(1,2) renames_short(2), of i REGISTER_RS2] v(3) pads by (auto simp: ln_def)
  have fmt: "format_text Format_x (branch_offset i + addr) = s" by (simp add: s_def format_text_def)
  have "convert_imm_to_str (branch_offset i + addr) Format_x n (tx n ?t ?w, ln ?t) =
      Inr (tx n (?t @ s) (drop (length s) ?w), ln (?t @ s))"
    using convert_imm_tx [of Format_x "branch_offset i + addr" ?t n ?w, unfolded fmt] s pads q facts v(1) by simp
  moreover have "tx n (?t @ s) (drop (length s) ?w) = tx n (b_text m i s) []"
    unfolding tx_shift [of n "?t @ s" "drop (length s) ?w", symmetric] by (simp add: b_text_def Let_def)
  ultimately have 5: "convert_imm_to_str (branch_offset i + addr) Format_x n (tx n ?t ?w, ln ?t) =
      Inr (tx n (b_text m i s) [], ln (?t @ s))" by simp
  show ?thesis
    unfolding handle_b_type_def left_renames_def [symmetric] right_renames_def [symmetric] Let_def
      branch_offset_def [unfolded Let_def, symmetric] 1 rbind.simps 2 3 4 5 by blast
qed

lemma put_name_tx:
  assumes "length t + length s < n" "length u \<le> Suc (length s)"
  shows "put (s @ [nul]) (ln t) (tx n t u) = Inr (tx n (t @ s) [])"
proof -
  have "put (s @ [nul]) (ln t) (tx n t u) = Inr (tx n (t @ (s @ [nul])) (drop (length (s @ [nul])) u))"
    using assms by (intro put_tx) auto
  moreover have "tx n (t @ s @ [nul]) [] = tx n (t @ s) []"
    using assms by (simp add: tx_def replicate_Suc [symmetric] del: replicate_Suc)
  ultimately show ?thesis using assms by simp
qed

definition j_text :: "u32 \<Rightarrow> string \<Rightarrow> string \<Rightarrow> string" where
  "j_text i s name =
     (if unat (reg_field i REGISTER_RD) = 0
      then pad ''j'' @ s @ (if name = [] then drop (length s) ''zero,'' else name)
      else pad ''jal'' @ reg_text i REGISTER_RD @ '','' @ s @ name)"

definition sym_at :: "symbols \<Rightarrow> u32 \<Rightarrow> dis_error + string option" where
  "sym_at symbols addr =
     (case symbols_value_to_sym symbols addr of
        None \<Rightarrow> Inr None | Some off \<Rightarrow> rbind (sym_name symbols off) (\<lambda>sym. Inr (Some sym)))"

definition suffix_text :: "string option \<Rightarrow> string" where
  "suffix_text lbl = (case lbl of None \<Rightarrow> [] | Some s \<Rightarrow> '' <'' @ s @ ''>'')"

lemma handle_j_type_text:
  fixes addr i :: u32 and lbl :: "string option"
  defines "s \<equiv> hex_text (unat (jal_offset i + addr))" and "name \<equiv> suffix_text lbl"
  assumes n: "length name + 22 \<le> n" "64 \<le> n" and s: "length s \<le> 8" "s \<noteq> []" and sym: "sym_at symbols addr = Inr lbl"
  shows "\<exists>k. handle_j_type addr i n symbols (tx n (pad ''jal'') [], ln (pad ''jal'')) = Inr (tx n (j_text i s name) [], k)"
proof -
  let ?rd = "reg_text i REGISTER_RD" and ?r = "unat (reg_field i REGISTER_RD)"
  let ?t = "pad ''jal'' @ ?rd @ '',''"
  let ?t' = "if ?r = 0 then pad ''j'' else ?t" and ?u = "if ?r = 0 then ''zero,'' else []"
  have p: "length (pad ''jal'') = 8" "nul \<notin> set (pad ''jal'')" "length (pad ''j'') = 8"
    by (simp_all add: pad_def nul_def)
  note facts = reg_text_facts [of i REGISTER_RD] p n
  have 1: "decode_registre i REGISTER_RD True n (tx n (pad ''jal'') [], ln (pad ''jal'')) = Inr (tx n ?t [], ln ?t)"
    using decode_registre_tx [of "pad ''jal''" n "[]"] facts by simp
  have 2: "strcmp_before (tx n ?t []) (ln ?t) ''zero,'' = Inr (?r = 0)"
    using last_is_zero [of "pad ''jal''" n "[]" "[]" i REGISTER_RD] facts by simp
  have 3: "(if ?r = 0 then rbind (put '' '' 1 (tx n ?t [])) (\<lambda>result. rbind (put '' '' 2 result) (\<lambda>result. Inr (result, ln ?t - 5)))
       else Inr (tx n ?t [], ln ?t)) = Inr (tx n ?t' ?u, ln ?t')"
  proof (cases "?r = 0")
    case True
    then have "?rd = ''zero''" by (simp add: reg_text_def abi_name_def)
    then show ?thesis using True n by (simp add: tx_def ln_def put_def pad_def numeral_eq_Suc)
  qed simp
  have fmt: "format_text Format_x (jal_offset i + addr) = s" by (simp add: s_def format_text_def)
  have 4: "convert_imm_to_str (jal_offset i + addr) Format_x n (tx n ?t' ?u, ln ?t') =
      Inr (tx n (?t' @ s) (drop (length s) ?u), ln (?t' @ s))"
    using convert_imm_tx [of Format_x "jal_offset i + addr" ?t' n ?u, unfolded fmt] s facts by simp
  show ?thesis
  proof (cases "symbols_value_to_sym symbols addr")
    case None
    with sym have "name = []" by (simp add: sym_at_def name_def suffix_text_def)
    then have "tx n (?t' @ s) (drop (length s) ?u) = tx n (j_text i s name) []"
      unfolding tx_shift [of n "?t' @ s" "drop (length s) ?u", symmetric] by (simp add: j_text_def)
    then show ?thesis
      unfolding handle_j_type_def 1 rbind.simps prod.case 2 3 4 None option.case by auto
  next
    case (Some off)
    with sym obtain sy where sy: "sym_name symbols off = Inr sy" "name = '' <'' @ sy @ ''>''"
      by (auto simp: sym_at_def name_def suffix_text_def rbind_eq_Inr)
    have "length (drop (length s) ?u) \<le> 4" using s(2) by (cases s) auto
    then have "put (name @ [nul]) (ln (?t' @ s)) (tx n (?t' @ s) (drop (length s) ?u)) = Inr (tx n ((?t' @ s) @ name) [])"
      using facts s by (intro put_name_tx) (auto simp: sy(2))
    then have "put ('' <'' @ sy @ ''>'' @ [nul]) (ln (?t' @ s)) (tx n (?t' @ s) (drop (length s) ?u)) = Inr (tx n (j_text i s name) [])"
      by (simp add: sy(2) j_text_def)
    then show ?thesis
      unfolding handle_j_type_def 1 rbind.simps prod.case 2 3 4 Some option.case sy by auto
  qed
qed

end
