(* ===== verification/Disassemble_Correct.thy ===== *)
theory Disassemble_Correct
  imports Disassemble_Text
begin

text \<open>
  The disassembler against a reference: \<open>asm_text\<close> writes an instruction of the specification as
  assembly text. The text in the buffer is that of the reference on \<open>well_printed\<close> instructions;
  jumps are described on all.
\<close>

section \<open>Numbers\<close>

declare hex_text.simps [simp del]

lemma hex_digit_not_nul: "d < 16 \<Longrightarrow> hex_digit d \<noteq> nul"
proof -
  have "\<forall>d \<in> set [0..<16]. hex_digit d \<noteq> nul" by code_simp
  then show "d < 16 \<Longrightarrow> hex_digit d \<noteq> nul" by auto
qed

lemma hex_text_facts: "hex_text k \<noteq> []" "nul \<notin> set (hex_text k)"
proof (induction k rule: hex_text.induct)
  case (1 k)
  { case 1 show ?case by (simp add: hex_text.simps [of k]) }
  { case 2 then show ?case using 1 by (cases "k < 16") (simp_all add: hex_text.simps [of k] hex_digit_not_nul [THEN not_sym]) }
qed

lemma length_hex_text: "0 < d \<Longrightarrow> length (hex_text k) \<le> d \<longleftrightarrow> k < 16 ^ d"
proof (induction k arbitrary: d rule: hex_text.induct)
  case (1 k)
  show ?case
  proof (cases "k < 16")
    case True
    moreover have "(16::nat) ^ 1 \<le> 16 ^ d" using 1(2) by (intro power_increasing) auto
    ultimately show ?thesis using 1(2) by (simp add: hex_text.simps [of k])
  next
    case False
    obtain d' where d: "d = Suc d'" using 1(2) by (cases d) auto
    show ?thesis
    proof (cases "d' = 0")
      case True
      with False show ?thesis using hex_text_facts(1) [of "k div 16"] by (simp add: d hex_text.simps [of k])
    next
      case nz: False
      have "length (hex_text (k div 16)) \<le> d' \<longleftrightarrow> k div 16 < 16 ^ d'" using 1(1) [OF False] nz by simp
      moreover have "k div 16 < 16 ^ d' \<longleftrightarrow> k < 16 ^ d" by (simp add: d div_less_iff_less_mult mult.commute)
      ultimately show ?thesis using False by (simp add: d hex_text.simps [of k])
    qed
  qed
qed

lemma length_hex_word: "length (hex_text (unat (w :: u32))) \<le> 8"
  using length_hex_text [of 8 "unat w"] unat_less [of w] by simp

lemma length_alt_hex: "length (alt_hex_text (unat (w :: u32))) \<le> 10" "nul \<notin> set (alt_hex_text k)"
  using length_hex_word [of w] hex_text_facts [of k] by (auto simp: alt_hex_text_def nul_def)

lemma length_digits_of: "0 < d \<Longrightarrow> k < 10 ^ d \<Longrightarrow> length (digits_of k) \<le> d"
proof (induction k arbitrary: d rule: digits_of.induct)
  case (1 k)
  show ?case
  proof (cases "k < 10")
    case True with 1(2) show ?thesis by (simp add: digits_of.simps [of k])
  next
    case False
    obtain d' where d: "d = Suc d'" using 1(2) by (cases d) auto
    have "d' \<noteq> 0" using False 1(3) d by (cases d') auto
    moreover have "k div 10 < 10 ^ d'" using 1(3) by (simp add: d div_less_iff_less_mult mult.commute)
    ultimately show ?thesis using 1(1) [OF False, of d'] False by (simp add: d digits_of.simps [of k])
  qed
qed

lemma print_int_facts:
  assumes "- 10000 < k" "k < 10000"
  shows "length (print_int k) \<le> 10" "nul \<notin> set (print_int k)"
proof -
  have "length (digits_of (nat \<bar>k\<bar>)) \<le> 4" using assms by (intro length_digits_of) auto
  then show "length (print_int k) \<le> 10" by (auto simp: print_int_def)
  have "nul \<notin> set (digits_of j)" for j
    using digits_of_digits [of j] by (auto simp: list_all_iff isdigit_def nul_def)
  then show "nul \<notin> set (print_int k)" by (auto simp: print_int_def nul_def)
qed

section \<open>Immediates\<close>

lemma test_bit_11: "w AND 0x800 = 0x800 \<longleftrightarrow> bit w 11" for w :: u32
  by (simp add: word32_eq_iff word_bits_less bit_simps)

lemma test_bit_31: "w AND 0x80000000 = 0x80000000 \<longleftrightarrow> bit w 31" for w :: u32
  by (simp add: word32_eq_iff word_bits_less bit_simps)

lemma test_bit_30: "w AND 0x40000000 = 0x40000000 \<longleftrightarrow> bit w 30" for w :: u32
  by (simp add: word32_eq_iff word_bits_less bit_simps)

lemma test_bit_25: "w AND 0x2000000 = 0x2000000 \<longleftrightarrow> bit w 25" for w :: u32
  by (simp add: word32_eq_iff word_bits_less bit_simps)

lemma i_type_immediat_eq: "i_type_immediat_decode i = isa_imm_I i"
  by (cases "bit i 31")
    (simp_all add: i_type_immediat_decode_def Let_def test_bit_11 isa_imm_I_def word32_eq_iff word_bits_less bit_simps)

lemma s_type_immediate_eq:
  "(let imm = drop_bit 20 (i AND 0xFE000000) OR drop_bit 7 (i AND 0xF80)
    in if imm AND 0x800 = 0x800 then (imm AND 0x7FF) OR 0xFFFFF800 else imm) = isa_imm_S i"
  by (cases "bit i 31")
    (simp_all add: Let_def test_bit_11 isa_imm_S_def word32_eq_iff word_bits_less bit_simps)

lemma branch_offset_eq: "branch_offset i = isa_imm_B i"
  by (cases "bit i 31")
    (simp_all add: branch_offset_def Let_def test_bit_31 isa_imm_B_def word32_eq_iff word_bits_less bit_simps)

text \<open>The offset of a jump: bits 12 to 19 are lost when it is negative.\<close>

lemma jal_offset_eq: "jal_offset i = (if bit i 31 then isa_imm_J i OR 0xFFFFF000 else isa_imm_J i)"
  by (cases "bit i 31")
    (simp_all add: jal_offset_def Let_def test_bit_31 isa_imm_J_def word32_eq_iff word_bits_less bit_simps)

lemma sint_imm_bound:
  fixes w :: i32
  assumes "\<And>k. 11 \<le> k \<Longrightarrow> k < 32 \<Longrightarrow> bit w k = bit w 31"
  shows "- 10000 < sint w" "sint w < 10000"
proof -
  have "sint w = signed_take_bit 11 (sint w)"
  proof (rule bit_eqI)
    fix k :: nat
    have "bit w (min 31 k) = bit w (min 31 (min k 11))"
      using assms [of 11] assms [of "min 31 k"] by (cases "k < 11") (simp_all add: min_def)
    then show "bit (sint w) k = bit (signed_take_bit 11 (sint w)) k"
      by (simp add: bit_signed_take_bit_iff bit_signed_iff min.commute)
  qed
  moreover have "- (2 ^ 11) \<le> signed_take_bit 11 (sint w)" "signed_take_bit 11 (sint w) < 2 ^ 11"
    by (rule signed_take_bit_int_greater_eq_minus_exp signed_take_bit_int_less_exp)+
  ultimately show "- 10000 < sint w" "sint w < 10000" by simp_all
qed


lemma imm_texts:
  "length (print_int (sint (isa_imm_I i))) \<le> 10" "nul \<notin> set (print_int (sint (isa_imm_I i)))"
  "length (print_int (sint (isa_imm_S i))) \<le> 10" "nul \<notin> set (print_int (sint (isa_imm_S i)))"
proof -
  have "bit (isa_imm_I i) k = bit (isa_imm_I i) 31" "bit (isa_imm_S i) k = bit (isa_imm_S i) 31" if "11 \<le> k" "k < 32" for k
    using that by (simp_all add: isa_imm_I_def isa_imm_S_def)
  note b = sint_imm_bound [of "isa_imm_I i", OF this(1)] sint_imm_bound [of "isa_imm_S i", OF this(2)]
  show "length (print_int (sint (isa_imm_I i))) \<le> 10" "nul \<notin> set (print_int (sint (isa_imm_I i)))"
    "length (print_int (sint (isa_imm_S i))) \<le> 10" "nul \<notin> set (print_int (sint (isa_imm_S i)))"
    by (simp_all add: print_int_facts b)
qed

lemma near_jump_offset:
  assumes "- 4096 \<le> sint (isa_imm_J i)"
  shows "jal_offset i = isa_imm_J i"
proof (cases "bit i 31")
  case True
  let ?w = "isa_imm_J i"
  have "bit ?w 31" using True by (simp add: isa_imm_J_def)
  then have "sint ?w < 0" using bit_last_iff [of ?w] by simp
  with assms have "(sint ?w + 4096) div 4096 = 0" by (intro div_pos_pos_trivial) auto
  then have "sint ?w div 4096 = - 1" by (simp only: div_add_self2 [OF zero_neq_numeral [THEN not_sym]] eq_neg_iff_add_eq_0)
  then have m1: "drop_bit 12 (sint ?w) = - 1" by (simp add: drop_bit_eq_div)
  have high: "bit ?w k" if "12 \<le> k" "k < 32" for k
  proof -
    have "bit (sint ?w) k" using that arg_cong [OF m1, of "\<lambda>x. bit x (k - 12)"] by (simp add: bit_drop_bit_eq)
    moreover have "min 31 k = k" using that by simp
    ultimately show ?thesis by (simp add: bit_signed_iff)
  qed
  have e: "0xFFFFF000 = (NOT (mask 12) :: u32)" by (simp add: mask_eq_exp_minus_1)
  have "?w OR 0xFFFFF000 = ?w" unfolding e using high by (auto intro!: bit_word_eqI simp: bit_simps)
  then show ?thesis using True by (simp add: jal_offset_eq)
qed (simp add: jal_offset_eq)

section \<open>Assembly text\<close>

text \<open>
  The reference: an instruction of the specification as assembly text, with the usual names for
  special cases. Names of branches, loads and so on are those of the instruction set manual.
\<close>

fun branch_name :: "branch_op \<Rightarrow> string" where
  "branch_name BEQ = ''beq''" | "branch_name BNE = ''bne''" | "branch_name BLT = ''blt''"
| "branch_name BGE = ''bge''" | "branch_name BLTU = ''bltu''" | "branch_name BGEU = ''bgeu''"

fun load_name :: "load_op \<Rightarrow> string" where
  "load_name LB = ''lb''" | "load_name LH = ''lh''" | "load_name LW = ''lw''" | "load_name LBU = ''lbu''"
| "load_name LHU = ''lhu''"

fun store_name :: "store_op \<Rightarrow> string" where
  "store_name SB = ''sb''" | "store_name SH = ''sh''" | "store_name SW = ''sw''"

fun imm_name :: "imm_op \<Rightarrow> string" where
  "imm_name ADDI = ''addi''" | "imm_name SLTI = ''slti''" | "imm_name SLTIU = ''sltiu''"
| "imm_name XORI = ''xori''" | "imm_name ORI = ''ori''" | "imm_name ANDI = ''andi''"

fun shift_name :: "shift_op \<Rightarrow> string" where
  "shift_name SLLI = ''slli''" | "shift_name SRLI = ''srli''" | "shift_name SRAI = ''srai''"

fun reg_name :: "reg_op \<Rightarrow> string" where
  "reg_name ADD = ''add''" | "reg_name SUB = ''sub''" | "reg_name SLL = ''sll''" | "reg_name SLT = ''slt''"
| "reg_name SLTU = ''sltu''" | "reg_name XOR_R = ''xor''" | "reg_name SRL = ''srl''" | "reg_name SRA = ''sra''"
| "reg_name OR_R = ''or''" | "reg_name AND_R = ''and''" | "reg_name MUL = ''mul''" | "reg_name MULH = ''mulh''"
| "reg_name MULHSU = ''mulhsu''" | "reg_name MULHU = ''mulhu''" | "reg_name DIV = ''div''"
| "reg_name DIVU = ''divu''" | "reg_name REM = ''rem''" | "reg_name REMU = ''remu''"

definition zero_branch :: "branch_op \<Rightarrow> nat \<Rightarrow> nat \<Rightarrow> (string \<times> nat) option" where
  "zero_branch b rs1 rs2 =
     (if rs2 = 0 then
        (case b of BEQ \<Rightarrow> Some (''beqz'', rs1) | BNE \<Rightarrow> Some (''bnez'', rs1) | BGE \<Rightarrow> Some (''bgez'', rs1)
                 | BLT \<Rightarrow> Some (''bltz'', rs1) | _ \<Rightarrow> None)
      else if rs1 = 0 then (case b of BGE \<Rightarrow> Some (''blez'', rs2) | BLT \<Rightarrow> Some (''bgtz'', rs2) | _ \<Rightarrow> None)
      else None)"

fun asm_text :: "u32 \<Rightarrow> instr \<Rightarrow> string" where
  "asm_text addr (LUI rd imm) = pad ''lui'' @ abi_name rd @ '','' @ alt_hex_text (unat imm div 4096)"
| "asm_text addr (AUIPC rd imm) = pad ''auipc'' @ abi_name rd @ '','' @ alt_hex_text (unat imm div 4096)"
| "asm_text addr (JAL rd imm) =
     (if rd = 0 then pad ''j'' else pad ''jal'' @ abi_name rd @ '','') @ hex_text (unat (addr + imm))"
| "asm_text addr (JALR rd rs1 imm) =
     (if rd = 0 \<and> rs1 = 1 \<and> imm = 0 then pad ''ret''
      else pad ''jalr'' @ abi_name rd @ '','' @ abi_name rs1 @ '','' @ print_int (sint imm))"
| "asm_text addr (Branch b rs1 rs2 imm) =
     (case zero_branch b rs1 rs2 of
        Some (name, r) \<Rightarrow> pad name @ abi_name r
      | None \<Rightarrow> pad (branch_name b) @ abi_name rs1 @ '','' @ abi_name rs2) @ '','' @ hex_text (unat (addr + imm))"
| "asm_text addr (Load l rd rs1 imm) =
     pad (load_name l) @ abi_name rd @ '','' @ print_int (sint imm) @ ''('' @ abi_name rs1 @ '')''"
| "asm_text addr (Store st rs1 rs2 imm) =
     pad (store_name st) @ abi_name rs2 @ '','' @ print_int (sint imm) @ ''('' @ abi_name rs1 @ '')''"
| "asm_text addr (OpImm x rd rs1 imm) =
     (if x = ADDI \<and> rs1 = 0 then pad ''li'' @ abi_name rd @ '','' @ print_int (sint imm)
      else if x = ADDI \<and> imm = 0 then pad ''mv'' @ abi_name rd @ '','' @ abi_name rs1
      else if x = ANDI \<and> imm = 255 then pad ''zext.b'' @ abi_name rd @ '','' @ abi_name rs1
      else if x = XORI \<and> imm = - 1 then pad ''not'' @ abi_name rd @ '','' @ abi_name rs1
      else pad (imm_name x) @ abi_name rd @ '','' @ abi_name rs1 @ '','' @ print_int (sint imm))"
| "asm_text addr (Shift x rd rs1 k) =
     pad (shift_name x) @ abi_name rd @ '','' @ abi_name rs1 @ '','' @ alt_hex_text k"
| "asm_text addr (Op x rd rs1 rs2) =
     (if x = SUB \<and> rs1 = 0 then pad ''neg'' @ abi_name rd
      else pad (reg_name x) @ abi_name rd @ '','' @ abi_name rs1) @ '','' @ abi_name rs2"
| "asm_text addr ECALL = pad ''ecall''"

text \<open>
  The instructions that are printed as in the reference. Left out are: an operand \<open>zero\<close> or the
  immediate 255 where the code takes one instruction for another; jumps back by more than 4096 bytes;
  and, where an operand \<open>zero\<close> is dropped, targets of less than five digits, which do not cover
  it.
\<close>

fun well_printed :: "u32 \<Rightarrow> instr \<Rightarrow> bool" where
  "well_printed addr (JAL rd imm) \<longleftrightarrow> - 4096 \<le> sint imm \<and> (rd = 0 \<longrightarrow> 0x10000 \<le> addr + imm)"
| "well_printed addr (JALR rd rs1 imm) \<longleftrightarrow> rs1 \<noteq> 0 \<and> imm \<noteq> 255"
| "well_printed addr (Branch b rs1 rs2 imm) \<longleftrightarrow>
     (rs1 = 0 \<or> rs2 = 0 \<longrightarrow> 0x10000 \<le> addr + imm \<and> zero_branch b rs1 rs2 \<noteq> None \<and> (rs1 \<noteq> 0 \<or> rs2 \<noteq> 0))"
| "well_printed addr (OpImm x rd rs1 imm) \<longleftrightarrow>
     (rs1 = 0 \<longrightarrow> x = ADDI) \<and> (imm = 255 \<longrightarrow> x = ANDI \<or> rs1 = 0) \<and> \<not> (rd = 0 \<and> rs1 = 1 \<and> imm = 0)"
| "well_printed addr (Op x rd rs1 rs2) \<longleftrightarrow> (rs1 = 0 \<longrightarrow> x = SUB)"
| "well_printed addr _ \<longleftrightarrow> True"


section \<open>Whole instructions\<close>

lemma opcode_field: "i AND 0x7F = numeral k \<longleftrightarrow> field 0 7 i = unat (numeral k :: u32)"
  by (metis and_masks(1) drop_bit_0 id_apply unat_take_drop word_unat_eq_iff)

lemma func3_field: "func3_of i = field 12 3 i"
proof -
  have "drop_bit 12 (i AND 0x7000) = take_bit 3 (drop_bit 12 i)"
    by (simp add: word32_eq_iff word_bits_less bit_simps)
  then show ?thesis by (simp only: func3_of_def unat_take_drop)
qed

lemma bits_of_f7: "bit i 30 \<longleftrightarrow> odd (field 25 7 i div 32)" "bit i 25 \<longleftrightarrow> odd (field 25 7 i)"
proof -
  have "bit (unat (take_bit 7 (drop_bit 25 i))) 5 \<longleftrightarrow> bit i 30" "bit (unat (take_bit 7 (drop_bit 25 i))) 0 \<longleftrightarrow> bit i 25"
    by (simp_all only: bit_unsigned_iff) (simp_all add: bit_simps)
  then show "bit i 30 \<longleftrightarrow> odd (field 25 7 i div 32)" "bit i 25 \<longleftrightarrow> odd (field 25 7 i)"
    by (simp_all only: unat_take_drop bit_iff_odd) simp_all
qed

lemma named_tx:
  assumes "\<exists>k. handler (tx n (pad m) [], ln (pad m)) = Inr (tx n t [], k)" "length m \<le> 8" "64 \<le> n"
  shows "named (Some m) handler n (tx n [] [], 0) = Inr (tx n t [], False)"
  using assms add_mnemonic_start [OF assms(2), of n] by (auto simp: named_def)

lemma mnemonics_eq:
  "branch_mnemonic f3 = map_option branch_name (decode_branch f3)"
  "load_mnemonic f3 = map_option load_name (decode_load f3)"
  "store_mnemonic f3 = map_option store_name (decode_store f3)"
  "imm_mnemonic f3 = map_option imm_name (decode_imm f3)"
  by (simp_all add: branch_mnemonic_def decode_branch_def load_mnemonic_def decode_load_def
      store_mnemonic_def decode_store_def imm_mnemonic_def decode_imm_def)

lemma numeric_mnemonic_eq:
  assumes "decode_reg (field 12 3 i) (field 25 7 i) = Some x"
  shows "numeric_mnemonic (field 12 3 i) i = Some (reg_name x)"
  using assms unfolding numeric_mnemonic_def test_bit_30 test_bit_25 bits_of_f7
  by (auto simp: decode_reg_def Let_def split: if_splits)

lemma branch_name_short: "length (branch_name b) \<le> 8 \<and> nul \<notin> set (branch_name b)"
  by (cases b) (simp_all add: nul_def)

lemma load_name_short: "length (load_name l) \<le> 8"
  by (cases l) simp_all

lemma store_name_short: "length (store_name st) \<le> 8"
  by (cases st) simp_all

lemma imm_name_short: "length (imm_name x) \<le> 8 \<and> nul \<notin> set (imm_name x)"
  by (cases x) (simp_all add: nul_def)

lemma shift_name_short: "length (shift_name x) \<le> 8"
  by (cases x) simp_all

lemma reg_name_short: "length (reg_name x) \<le> 8 \<and> nul \<notin> set (reg_name x)"
  by (cases x) (simp_all add: nul_def)

lemmas reg_texts = reg_text_def reg_field_eq
lemmas dis_defs = dis_opcode_def Let_def opcode_field func3_field mnemonics_eq

lemma dis_Load:
  assumes "64 \<le> n" "field 0 7 i = 3" "decode_load (field 12 3 i) = Some l"
  shows "dis_opcode addr i n symbols (tx n [] [], 0) =
    Inr (tx n (asm_text addr (Load l (field 7 5 i) (field 15 5 i) (isa_imm_I i))) [], False)"
proof -
  have "named (Some (load_name l)) (handle_i_type_load i n) n (tx n [] [], 0) =
    Inr (tx n (asm_text addr (Load l (field 7 5 i) (field 15 5 i) (isa_imm_I i))) [], False)"
    using handle_i_type_load_text [of "pad (load_name l)" n i] assms(1) imm_texts(1) [of i] length_pad [OF load_name_short]
    by (intro named_tx load_name_short) (auto simp: format_text_def i_type_immediat_eq reg_texts)
  with assms show ?thesis by (simp add: dis_defs)
qed

lemma dis_Store:
  assumes "64 \<le> n" "field 0 7 i = 0x23" "decode_store (field 12 3 i) = Some st"
  shows "dis_opcode addr i n symbols (tx n [] [], 0) =
    Inr (tx n (asm_text addr (Store st (field 15 5 i) (field 20 5 i) (isa_imm_S i))) [], False)"
proof -
  have "named (Some (store_name st)) (handle_s_type i n) n (tx n [] [], 0) =
    Inr (tx n (asm_text addr (Store st (field 15 5 i) (field 20 5 i) (isa_imm_S i))) [], False)"
    using handle_s_type_text [OF length_pad [OF store_name_short [of st]] assms(1) imm_texts(3) s_type_immediate_eq] assms(1)
    by (intro named_tx store_name_short) (auto simp: reg_texts)
  with assms show ?thesis by (simp add: dis_defs)
qed

lemma upper_immediate: "unat (drop_bit 12 (i AND 0xFFFFF000)) = unat (isa_imm_U i) div 4096"
proof -
  have "i AND 0xFFFFF000 = isa_imm_U i" by (simp add: isa_imm_U_def word32_eq_iff word_bits_less bit_simps)
  then show ?thesis by (simp only: unat_drop_bit_eq) (simp add: drop_bit_eq_div)
qed

lemma dis_upper:
  assumes "64 \<le> n" "length m \<le> 8"
  shows "named (Some m) (handle_u_type i n) n (tx n [] [], 0) =
    Inr (tx n (pad m @ abi_name (field 7 5 i) @ '','' @ alt_hex_text (unat (isa_imm_U i) div 4096)) [], False)"
  using handle_u_type_text [OF length_pad [OF assms(2)] assms(1) length_alt_hex(1), of i, unfolded upper_immediate] assms
  by (intro named_tx) (auto simp: reg_texts)

lemma dis_Shift:
  assumes "64 \<le> n" "field 0 7 i = 0x13" "decode_shift (field 12 3 i) (field 25 7 i) = Some x"
  shows "dis_opcode addr i n symbols (tx n [] [], 0) =
    Inr (tx n (asm_text addr (Shift x (field 7 5 i) (field 15 5 i) (field 20 5 i))) [], False)"
proof -
  have "named (Some (shift_name x)) (handle_i_type_shift i n) n (tx n [] [], 0) =
    Inr (tx n (asm_text addr (Shift x (field 7 5 i) (field 15 5 i) (field 20 5 i))) [], False)"
    using handle_i_type_shift_text [OF length_pad [OF shift_name_short [of x]] assms(1) length_alt_hex(1)] assms(1)
    by (intro named_tx shift_name_short) (auto simp: reg_texts)
  with assms show ?thesis
    by (auto simp: dis_defs test_bit_30 bits_of_f7 decode_shift_def split: if_splits)
qed

lemma dis_Op:
  assumes "64 \<le> n" "field 0 7 i = 0x33" "decode_reg (field 12 3 i) (field 25 7 i) = Some x"
    "well_printed addr (Op x (field 7 5 i) (field 15 5 i) (field 20 5 i))"
  shows "dis_opcode addr i n symbols (tx n [] [], 0) =
    Inr (tx n (asm_text addr (Op x (field 7 5 i) (field 15 5 i) (field 20 5 i))) [], False)"
proof -
  have "named (Some (reg_name x)) (handle_i_type_imm i n) n (tx n [] [], 0) =
    Inr (tx n (asm_text addr (Op x (field 7 5 i) (field 15 5 i) (field 20 5 i))) [], False)"
    using handle_i_type_imm_text [OF conjunct1 [OF reg_name_short [of x]] conjunct2 [OF reg_name_short [of x]] assms(1), of i] assms(1,4)
    by (intro named_tx conjunct1 [OF reg_name_short]) (auto simp: reg_texts split: if_splits)
  with assms show ?thesis by (simp add: dis_defs numeric_mnemonic_eq)
qed

lemma i_type_named:
  assumes "64 \<le> n" "length m \<le> 8" "nul \<notin> set m"
  shows "named (Some m) (handle_i_type i n) n (tx n [] [], 0) = Inr (tx n (i_text m i (isa_imm_I i)) [], False)"
  using handle_i_type_text [OF assms(2,3,1), of i] imm_texts(1) [of i] assms
  by (intro named_tx) (auto simp: i_type_immediat_eq)

lemma dis_OpImm:
  assumes "64 \<le> n" "field 0 7 i = 0x13" "field 12 3 i \<noteq> 1" "field 12 3 i \<noteq> 5" "decode_imm (field 12 3 i) = Some x"
    "well_printed addr (OpImm x (field 7 5 i) (field 15 5 i) (isa_imm_I i))"
  shows "dis_opcode addr i n symbols (tx n [] [], 0) =
    Inr (tx n (asm_text addr (OpImm x (field 7 5 i) (field 15 5 i) (isa_imm_I i))) [], False)"
proof -
  have "named_as ''addi'' (imm_name x) \<longleftrightarrow> x = ADDI" "named_as ''xori'' (imm_name x) \<longleftrightarrow> x = XORI"
    by (cases x; simp add: named_as_def pad_def)+
  then have "i_text (imm_name x) i (isa_imm_I i) = asm_text addr (OpImm x (field 7 5 i) (field 15 5 i) (isa_imm_I i))"
    using assms(6) by (auto simp: i_text_def Let_def reg_texts)
  with i_type_named [OF assms(1) conjunct1 [OF imm_name_short] conjunct2 [OF imm_name_short], of x i] assms(2-5) show ?thesis
    by (simp add: dis_defs)
qed

lemma dis_JALR:
  assumes "64 \<le> n" "field 0 7 i = 0x67" "field 12 3 i = 0" "well_printed addr (JALR (field 7 5 i) (field 15 5 i) (isa_imm_I i))"
  shows "dis_opcode addr i n symbols (tx n [] [], 0) =
    Inr (tx n (asm_text addr (JALR (field 7 5 i) (field 15 5 i) (isa_imm_I i))) [], False)"
proof -
  have "\<not> named_as ''addi'' ''jalr''" "\<not> named_as ''xori'' ''jalr''" by (simp_all add: named_as_def pad_def)
  then have "i_text ''jalr'' i (isa_imm_I i) = asm_text addr (JALR (field 7 5 i) (field 15 5 i) (isa_imm_I i))"
    using assms(4) by (auto simp: i_text_def Let_def reg_texts)
  with i_type_named [OF assms(1), of "''jalr''" i] assms(2,3) show ?thesis
    by (simp add: dis_defs nul_def)
qed

lemma renamed_left:
  "renamed left_renames (branch_name b) =
     (case b of BLT \<Rightarrow> ''bgtz'' | BLTU \<Rightarrow> ''bgtz'' | BGE \<Rightarrow> ''blez'' | BGEU \<Rightarrow> ''blez'' | _ \<Rightarrow> branch_name b)"
  by (cases b) (simp_all add: renamed_def left_renames_def named_as_def pad_def)

lemma renamed_right:
  "renamed right_renames (branch_name b) =
     (case b of BEQ \<Rightarrow> ''beqz'' | BNE \<Rightarrow> ''bnez'' | BLT \<Rightarrow> ''bltz'' | BLTU \<Rightarrow> ''bltz'' | BGE \<Rightarrow> ''bgez'' | BGEU \<Rightarrow> ''bgez'')"
  by (cases b) (simp_all add: renamed_def right_renames_def named_as_def pad_def)

lemma dis_Branch:
  assumes "64 \<le> n" "field 0 7 i = 0x63" "decode_branch (field 12 3 i) = Some b"
    "well_printed addr (Branch b (field 15 5 i) (field 20 5 i) (isa_imm_B i))"
  shows "dis_opcode addr i n symbols (tx n [] [], 0) =
    Inr (tx n (asm_text addr (Branch b (field 15 5 i) (field 20 5 i) (isa_imm_B i))) [], False)"
proof -
  let ?s = "hex_text (unat (branch_offset i + addr))"
  have s: "?s = hex_text (unat (addr + isa_imm_B i))" by (simp add: branch_offset_eq add.commute)
  have long: "5 \<le> length ?s" if "0x10000 \<le> addr + isa_imm_B i"
    using that length_hex_text [of 4 "unat (addr + isa_imm_B i)"] unfolding s by (simp add: word_le_nat_alt)
  have "b_text (branch_name b) i ?s = asm_text addr (Branch b (field 15 5 i) (field 20 5 i) (isa_imm_B i))"
  proof (cases "field 15 5 i = 0"; cases "field 20 5 i = 0")
    assume "field 15 5 i \<noteq> 0" "field 20 5 i \<noteq> 0"
    then show ?thesis by (simp add: b_text_def Let_def reg_texts zero_branch_def s)
  next
    assume z: "field 15 5 i \<noteq> 0" "field 20 5 i = 0"
    then have "drop (length ?s) ''zero,'' = []" "zero_branch b (field 15 5 i) 0 \<noteq> None" using long assms(4) by auto
    with z renamed_right [of b] show ?thesis
      by (cases b) (simp_all add: b_text_def Let_def reg_texts zero_branch_def s)
  next
    assume z: "field 15 5 i = 0" "field 20 5 i \<noteq> 0"
    then have "5 \<le> length ?s + length (abi_name (field 20 5 i))" "zero_branch b 0 (field 20 5 i) \<noteq> None"
      using long assms(4) by auto
    with z renamed_left [of b] show ?thesis
      by (cases b) (simp_all add: b_text_def Let_def reg_texts zero_branch_def s)
  qed (use assms(4) in simp)
  moreover have "named (Some (branch_name b)) (handle_b_type addr i n) n (tx n [] [], 0) = Inr (tx n (b_text (branch_name b) i ?s) [], False)"
    using assms(1) branch_name_short [of b] length_hex_word handle_b_type_text by (intro named_tx) auto
  ultimately show ?thesis using assms(2,3) by (simp add: dis_defs)
qed

lemma dis_JAL:
  assumes "64 \<le> n" "length (suffix_text lbl) + 22 \<le> n" "field 0 7 i = 0x6F" "sym_at symbols addr = Inr lbl"
    "well_printed addr (JAL (field 7 5 i) (isa_imm_J i))"
  shows "dis_opcode addr i n symbols (tx n [] [], 0) =
    Inr (tx n (asm_text addr (JAL (field 7 5 i) (isa_imm_J i)) @ suffix_text lbl) [], False)"
proof -
  let ?s = "hex_text (unat (jal_offset i + addr))"
  have s: "?s = hex_text (unat (addr + isa_imm_J i))" using assms(5) by (simp add: near_jump_offset add.commute)
  have long: "5 \<le> length ?s" if "0x10000 \<le> addr + isa_imm_J i"
    using that length_hex_text [of 4 "unat (addr + isa_imm_J i)"] unfolding s by (simp add: word_le_nat_alt)
  have "j_text i ?s (suffix_text lbl) = asm_text addr (JAL (field 7 5 i) (isa_imm_J i)) @ suffix_text lbl"
    using assms(5) long by (auto simp: j_text_def reg_texts s)
  moreover have "named (Some ''jal'') (handle_j_type addr i n symbols) n (tx n [] [], 0) = Inr (tx n (j_text i ?s (suffix_text lbl)) [], False)"
    using assms(1,2) hex_text_facts(1) length_hex_word handle_j_type_text [OF assms(2,1) length_hex_word hex_text_facts(1) assms(4)]
    by (intro named_tx) auto
  ultimately show ?thesis using assms(3) by (simp add: dis_defs)
qed


definition jump_label :: "instr \<Rightarrow> string option \<Rightarrow> string" where
  "jump_label ins lbl = (case ins of JAL _ _ \<Rightarrow> suffix_text lbl | _ \<Rightarrow> [])"

lemma dis_ECALL:
  assumes "64 \<le> n"
  shows "dis_opcode addr 0x73 n symbols (tx n [] [], 0) = Inr (tx n (asm_text addr ECALL) [], False)"
proof -
  have "named (Some ''ecall'') Inr n (tx n [] [], 0) = Inr (tx n (pad ''ecall'') [], False)"
    using assms by (intro named_tx) auto
  then show ?thesis by (simp add: dis_opcode_def)
qed

lemma dis_opcode_correct:
  assumes "isa_decode i = Some ins" "well_printed addr ins" "64 \<le> n" "length (suffix_text lbl) + 22 \<le> n"
    "sym_at symbols addr = Inr lbl"
  shows "dis_opcode addr i n symbols (tx n [] [], 0) = Inr (tx n (asm_text addr ins @ jump_label ins lbl) [], False)"
proof -
  note prem = assms(3)
  show ?thesis
    using assms(1,2) prem
    unfolding isa_decode_def Let_def
    apply (simp split: if_splits)
    subgoal using dis_upper [OF prem, of "''lui''" i] by (auto simp: dis_defs jump_label_def)
    subgoal using dis_upper [OF prem, of "''auipc''" i] by (auto simp: dis_defs jump_label_def)
    subgoal using dis_JAL [OF prem assms(4) _ assms(5), of i] by (auto simp: jump_label_def)
    subgoal using dis_JALR [OF prem, of i addr symbols] by (auto simp: jump_label_def)
    subgoal using dis_Branch [OF prem, of i _ addr symbols] by (auto simp: jump_label_def)
    subgoal using dis_Load [OF prem, of i _ addr symbols] by (auto simp: jump_label_def)
    subgoal using dis_Store [OF prem, of i _ addr symbols] by (auto simp: jump_label_def)
    subgoal using dis_Shift [OF prem, of i _ addr symbols] by (auto simp: jump_label_def)
    subgoal using dis_OpImm [OF prem, of i _ addr symbols] by (auto simp: jump_label_def)
    subgoal using dis_Op [OF prem, of i _ addr symbols] by (auto simp: jump_label_def)
    subgoal using dis_ECALL [OF prem, of addr symbols] by (auto simp: jump_label_def)
    done
qed


lemma decode_parts:
  assumes "isa_decode i = Some ins"
  shows "case ins of
      LUI rd imm \<Rightarrow> rd = field 7 5 i \<and> imm = isa_imm_U i
    | AUIPC rd imm \<Rightarrow> rd = field 7 5 i \<and> imm = isa_imm_U i
    | JAL rd imm \<Rightarrow> rd = field 7 5 i
    | JALR rd rs1 imm \<Rightarrow> rd = field 7 5 i \<and> rs1 = field 15 5 i \<and> imm = isa_imm_I i
    | Branch b rs1 rs2 imm \<Rightarrow> rs1 = field 15 5 i \<and> rs2 = field 20 5 i
    | Load l rd rs1 imm \<Rightarrow> rd = field 7 5 i \<and> rs1 = field 15 5 i \<and> imm = isa_imm_I i
    | Store st rs1 rs2 imm \<Rightarrow> rs1 = field 15 5 i \<and> rs2 = field 20 5 i \<and> imm = isa_imm_S i
    | OpImm x rd rs1 imm \<Rightarrow> rd = field 7 5 i \<and> rs1 = field 15 5 i \<and> imm = isa_imm_I i
    | Shift x rd rs1 k \<Rightarrow> rd = field 7 5 i \<and> rs1 = field 15 5 i \<and> k = field 20 5 i
    | Op x rd rs1 rs2 \<Rightarrow> rd = field 7 5 i \<and> rs1 = field 15 5 i \<and> rs2 = field 20 5 i
    | ECALL \<Rightarrow> True"
  using assms unfolding isa_decode_def Let_def by (auto split: if_splits)

definition fits :: "nat \<Rightarrow> string \<Rightarrow> bool" where
  "fits k s \<longleftrightarrow> length s \<le> k \<and> nul \<notin> set s"

lemma fits_append: "fits k s \<Longrightarrow> fits l t \<Longrightarrow> fits (k + l) (s @ t)"
  by (auto simp: fits_def)

lemma fits_mono: "fits k s \<Longrightarrow> k \<le> l \<Longrightarrow> fits l s"
  by (auto simp: fits_def)

lemma fits_Cons: "fits (Suc k) (c # s) \<longleftrightarrow> c \<noteq> nul \<and> fits k s"
  by (auto simp: fits_def)

lemma fits_pad: "length m \<le> 8 \<Longrightarrow> nul \<notin> set m \<Longrightarrow> fits 8 (pad m)"
  by (simp add: fits_def length_pad nul_pad)

lemma fits_parts:
  "fits 4 (abi_name (field lo 5 i))" "fits 10 (print_int (sint (isa_imm_I i)))" "fits 10 (print_int (sint (isa_imm_S i)))"
  "fits 8 (hex_text (unat (w :: u32)))" "fits 10 (alt_hex_text (unat (isa_imm_U i) div 4096))"
  "fits 10 (alt_hex_text (field lo 5 i))"
proof -
  have alt: "fits 10 (alt_hex_text (unat v))" for v :: u32 using length_alt_hex by (simp add: fits_def)
  show "fits 10 (alt_hex_text (unat (isa_imm_U i) div 4096))" "fits 10 (alt_hex_text (field lo 5 i))"
    using alt [of "drop_bit 12 (i AND 0xFFFFF000)"] alt [of "take_bit 5 (drop_bit lo i)"]
    unfolding upper_immediate unat_take_drop .
qed (use abi_name_facts [OF field_less, of lo i] imm_texts [of i] length_hex_word hex_text_facts in \<open>auto simp: fits_def\<close>)

lemma zero_branch_parts:
  "zero_branch b rs1 rs2 = Some (m, r) \<Longrightarrow> fits 8 (pad m) \<and> (r = rs1 \<or> r = rs2)"
  by (auto simp: zero_branch_def nul_def intro!: fits_pad split: if_splits branch_op.splits)

lemma name_pads:
  "fits 8 (pad (branch_name b))" "fits 8 (pad (load_name l))" "fits 8 (pad (store_name st))"
  "fits 8 (pad (imm_name y))" "fits 8 (pad (shift_name z))" "fits 8 (pad (reg_name x))"
proof -
  show "fits 8 (pad (branch_name b))" by (cases b) (auto simp: nul_def intro!: fits_pad)
  show "fits 8 (pad (load_name l))" by (cases l) (auto simp: nul_def intro!: fits_pad)
  show "fits 8 (pad (store_name st))" by (cases st) (auto simp: nul_def intro!: fits_pad)
  show "fits 8 (pad (imm_name y))" by (cases y) (auto simp: nul_def intro!: fits_pad)
  show "fits 8 (pad (shift_name z))" by (cases z) (auto simp: nul_def intro!: fits_pad)
  show "fits 8 (pad (reg_name x))" by (cases x) (auto simp: nul_def intro!: fits_pad)
qed

lemma literal_pads:
  "fits 8 (pad ''lui'')" "fits 8 (pad ''auipc'')" "fits 8 (pad ''j'')" "fits 8 (pad ''jal'')" "fits 8 (pad ''ret'')"
  "fits 8 (pad ''jalr'')" "fits 8 (pad ''li'')" "fits 8 (pad ''mv'')" "fits 8 (pad ''zext.b'')" "fits 8 (pad ''not'')"
  "fits 8 (pad ''neg'')" "fits 8 (pad ''ecall'')"
  by (rule fits_pad; simp add: nul_def)+

lemma fits_if: "fits k s \<Longrightarrow> fits l t \<Longrightarrow> fits (max k l) (if P then s else t)"
  by (auto simp: fits_def)

lemma fits_signs: "fits 1 '',''" "fits 1 ''(''" "fits 1 '')''"
  by (simp_all add: fits_def nul_def)

lemma fits_zero_branch:
  assumes "fits k (abi_name rs1)" "fits k (abi_name rs2)" "fits l s"
  shows "fits (max (8 + k) l) (case zero_branch b rs1 rs2 of Some (name, r) \<Rightarrow> pad name @ abi_name r | None \<Rightarrow> s)"
proof (cases "zero_branch b rs1 rs2")
  case None
  then show ?thesis using assms(3) by (auto intro: fits_mono)
next
  case (Some q)
  obtain m r where q: "q = (m, r)" by (cases q)
  with Some zero_branch_parts [of b rs1 rs2 m r] assms have "fits (8 + k) (pad m @ abi_name r)"
    by (auto intro!: fits_append)
  then show ?thesis using Some q by (auto intro: fits_mono)
qed

lemmas fits_all = fits_parts literal_pads name_pads fits_signs fits_zero_branch

lemma asm_text_fits:
  assumes "isa_decode i = Some ins"
  shows "fits 40 (asm_text addr ins)"
  using decode_parts [OF assms]
  apply (cases ins; simp only: asm_text.simps instr.case; (clarify)?)
  apply (rule fits_mono, (rule fits_append fits_if fits_all)+, simp)+
  done

lemma asm_text_nonempty: "asm_text addr ins \<noteq> []"
proof -
  have "length (pad m) \<noteq> 0" for m by (simp add: pad_def)
  then have "pad m \<noteq> []" for m by auto
  then show ?thesis by (cases ins) (auto split: option.split)
qed

lemma sym_at_nul: "sym_at symbols addr = Inr lbl \<Longrightarrow> nul \<notin> set (suffix_text lbl)"
proof -
  have "nul \<noteq> char_of (unat b)" if "b \<noteq> 0" for b :: u8
  proof
    assume "nul = char_of (unat b)"
    then have "(of_char nul :: nat) = of_char (char_of (unat b) :: char)" by (rule arg_cong)
    moreover have "unat b < 256" by (rule order.strict_trans2 [OF unsigned_less]) simp
    ultimately have "unat b = 0" by (simp add: nul_def)
    with that show False by (simp add: unsigned_eq_0_iff)
  qed
  moreover have "nul \<notin> set '' <>''" by (simp add: nul_def)
  ultimately show "sym_at symbols addr = Inr lbl \<Longrightarrow> nul \<notin> set (suffix_text lbl)"
    by (auto simp: sym_at_def sym_name_def suffix_text_def rbind_eq_Inr Let_def
        split: option.splits if_splits dest!: set_takeWhileD)
qed

lemma disassemble_text:
  assumes "dis_opcode addr i (length result) symbols (tx (length result) [] [], 0) = Inr (tx (length result) t [], False)"
    "sym_at symbols addr = Inr lbl" "nul \<notin> set t" "t \<noteq> []" "length t < length result"
  shows "\<exists>out. disassemble addr i result (length result) symbols = Inr (out, map_option (Pair addr) lbl) \<and> cstr out = t"
proof -
  let ?n = "length result"
  have "cstr (tx ?n t []) = t" using cstr_tx [of t "[]" ?n] assms(3,5) by simp
  moreover have "tx ?n t [] \<noteq> []" "tx ?n t [] ! 0 \<noteq> nul"
    using assms(3,4) by (cases t; auto simp: tx_def)+
  moreover have "tx ?n [] [] = replicate ?n nul" by (simp add: tx_def)
  moreover have "(case symbols_value_to_sym symbols addr of None \<Rightarrow> Inr None
      | Some off \<Rightarrow> rbind (sym_name symbols off) (\<lambda>sym. Inr (Some (addr, sym)))) = Inr (map_option (Pair addr) lbl)"
    using assms(2) by (auto simp: sym_at_def rbind_eq_Inr split: option.splits)
  ultimately show ?thesis using assms(1) by (simp add: disassemble_def)
qed

section \<open>Properties\<close>

text \<open>
  C17: The text that \<open>disassemble\<close> leaves in the buffer for an instruction is that of the reference,
  for all \<open>well_printed\<close> instructions, at every address and for buffers of at least 64 characters
  more than the symbol's name needs; for a jump it is followed by the symbol at the address. The
  buffer is never overrun. The line printed before it names the symbol at the address, if there is
  one.
\<close>

theorem disassemble_correct:
  assumes "isa_decode i = Some ins" "well_printed addr ins" "sym_at symbols addr = Inr lbl"
    "64 + length (suffix_text lbl) \<le> length result"
  shows "\<exists>out. disassemble addr i result (length result) symbols = Inr (out, map_option (Pair addr) lbl) \<and>
    cstr out = asm_text addr ins @ jump_label ins lbl"
proof (rule disassemble_text [OF _ assms(3)])
  let ?n = "length result" and ?t = "asm_text addr ins @ jump_label ins lbl"
  show "dis_opcode addr i ?n symbols (tx ?n [] [], 0) = Inr (tx ?n ?t [], False)"
    by (rule dis_opcode_correct [OF assms(1,2)]) (use assms(3,4) in auto)
  show "nul \<notin> set ?t" "?t \<noteq> []" "length ?t < ?n"
    using asm_text_fits [OF assms(1), of addr] asm_text_nonempty [of addr ins] sym_at_nul [OF assms(3)] assms(4)
    by (auto simp: fits_def jump_label_def split: instr.split)
qed

definition no_symbols :: symbols where
  "no_symbols = \<lparr>strtab = [], syms = [], num_symbols = 0\<rparr>"

lemma sym_at_none: "sym_at no_symbols addr = Inr None"
  by (simp add: sym_at_def symbols_value_to_sym_def no_symbols_def)

theorem disassemble_correct_witness:
  "\<exists>out. disassemble 0x10074 0xfe842783 (replicate 100 nul) 100 no_symbols = Inr (out, None) \<and>
     cstr out = ''lw      a5,-24(s0)''"
proof -
  have dec: "isa_decode 0xfe842783 = Some (Load LW 15 8 (- 24))"
    by (simp add: isa_decode_def field_def i_type_immediat_eq [symmetric] i_type_immediat_decode_def decode_load_def)
  have "pad ''lw'' @ abi_name 15 @ '','' @ print_int (- 24) @ ''('' @ abi_name 8 @ '')'' = ''lw      a5,-24(s0)''"
    by code_simp
  then have "asm_text 0x10074 (Load LW 15 8 (- 24)) = ''lw      a5,-24(s0)''" by simp
  with dec show ?thesis
    using disassemble_correct [of "0xfe842783" _ "0x10074" no_symbols None "replicate 100 nul"] sym_at_none
    by (simp add: suffix_text_def jump_label_def del: asm_text.simps)
qed

lemma negative_offset:
  assumes "sint (isa_imm_J i) < - 4096"
  shows "bit i 31" "isa_imm_J i OR 0xFFFFF000 \<noteq> isa_imm_J i"
proof -
  let ?w = "isa_imm_J i"
  have "bit ?w 31" using assms bit_last_iff [of ?w] by simp
  then show "bit i 31" by (simp add: isa_imm_J_def)
  show "?w OR 0xFFFFF000 \<noteq> ?w"
  proof
    assume e: "?w OR 0xFFFFF000 = ?w"
    have m: "0xFFFFF000 = (NOT (mask 12) :: u32)" by (simp add: mask_eq_exp_minus_1)
    have "bit (?w OR NOT (mask 12)) k" if "12 \<le> k" "k < 32" for k using that by (simp add: bit_simps)
    then have high: "bit ?w k" if "12 \<le> k" "k < 32" for k using that e unfolding m by simp
    have "drop_bit 12 (sint ?w) = - 1"
      by (rule bit_eqI) (use high in \<open>simp add: bit_drop_bit_eq bit_signed_iff\<close>)
    then have "sint ?w div 4096 = - 1" by (simp add: drop_bit_eq_div)
    then have "- 4096 \<le> sint ?w" using div_mult_mod_eq [of "sint ?w" 4096] pos_mod_sign [of 4096 "sint ?w"] by simp
    with assms show False by simp
  qed
qed

definition printed_offset :: "i32 \<Rightarrow> i32" where
  "printed_offset imm = (if sint imm < - 4096 then imm OR 0xFFFFF000 else imm)"

lemma jal_offset_printed: "jal_offset i = printed_offset (isa_imm_J i)"
  using near_jump_offset [of i] negative_offset [of i] by (auto simp: printed_offset_def jal_offset_eq)

lemma j_text_fits:
  fixes w :: u32
  assumes "nul \<notin> set l"
  shows "length (j_text i (hex_text (unat w)) l) \<le> 25 + length l" "nul \<notin> set (j_text i (hex_text (unat w)) l)"
    "j_text i (hex_text (unat w)) l \<noteq> []"
proof -
  have r: "fits 4 (abi_name (field 7 5 i))" and h: "fits 8 (hex_text (unat w))" by (rule fits_parts)+
  have z: "nul \<notin> set (drop k ''zero,'')" for k using in_set_dropD [of nul k "''zero,''"] by (auto simp: nul_def)
  show "length (j_text i (hex_text (unat w)) l) \<le> 25 + length l" "nul \<notin> set (j_text i (hex_text (unat w)) l)"
    "j_text i (hex_text (unat w)) l \<noteq> []"
    using r h z assms literal_pads(3,4) hex_text_facts(1) by (auto simp: j_text_def reg_texts fits_def nul_def)
qed

text \<open>
  The text of every jump. The offset that is added to the address is the right one unless the
  jump goes back by more than 4096 bytes: then it is another one, with bits 12 to 19 set. A jump
  that stores no return address is written over the name \<open>zero\<close> of the register, whose last
  letters stay behind a target of less than five digits. A symbol is printed for the address of the
  jump and not for its target.
\<close>

theorem jump_text_exact:
  assumes "isa_decode i = Some (JAL rd imm)" "sym_at symbols addr = Inr lbl" "64 + length (suffix_text lbl) \<le> length result"
  shows "(\<exists>out. disassemble addr i result (length result) symbols = Inr (out, map_option (Pair addr) lbl) \<and>
     (let s = hex_text (unat (addr + printed_offset imm)) in
      cstr out = (if rd = 0 then pad ''j'' @ s @ (if lbl = None then drop (length s) ''zero,'' else suffix_text lbl)
                  else pad ''jal'' @ abi_name rd @ '','' @ s @ suffix_text lbl))) \<and>
    (printed_offset imm = imm \<longleftrightarrow> - 4096 \<le> sint imm)"
proof
  let ?n = "length result" and ?s = "hex_text (unat (jal_offset i + addr))"
  have i: "field 0 7 i = 0x6F" "rd = field 7 5 i" "imm = isa_imm_J i"
    using assms(1) unfolding isa_decode_def Let_def by (auto split: if_splits)
  have s: "?s = hex_text (unat (addr + printed_offset imm))" by (simp add: i jal_offset_printed add.commute)
  let ?t = "j_text i ?s (suffix_text lbl)"
  have "named (Some ''jal'') (handle_j_type addr i ?n symbols) ?n (tx ?n [] [], 0) = Inr (tx ?n ?t [], False)"
    using handle_j_type_text [OF _ _ length_hex_word hex_text_facts(1) assms(2), where n = ?n and i = i] assms(3) by (intro named_tx) auto
  then have "dis_opcode addr i ?n symbols (tx ?n [] [], 0) = Inr (tx ?n ?t [], False)"
    using i by (simp add: dis_defs)
  moreover have "nul \<notin> set ?t" "?t \<noteq> []" "length ?t < ?n"
    using j_text_fits [of "suffix_text lbl" i "jal_offset i + addr"] sym_at_nul [OF assms(2)] assms(3) by auto
  ultimately obtain out where out: "disassemble addr i result ?n symbols = Inr (out, map_option (Pair addr) lbl)" "cstr out = ?t"
    using disassemble_text [OF _ assms(2)] by blast
  have "suffix_text lbl = [] \<longleftrightarrow> lbl = None" by (cases lbl) (simp_all add: suffix_text_def)
  with out i show "\<exists>out. disassemble addr i result ?n symbols = Inr (out, map_option (Pair addr) lbl) \<and>
     (let s = hex_text (unat (addr + printed_offset imm)) in
      cstr out = (if rd = 0 then pad ''j'' @ s @ (if lbl = None then drop (length s) ''zero,'' else suffix_text lbl)
                  else pad ''jal'' @ abi_name rd @ '','' @ s @ suffix_text lbl))"
    by (auto simp: j_text_def reg_texts s Let_def suffix_text_def)
  show "printed_offset imm = imm \<longleftrightarrow> - 4096 \<le> sint imm"
    using negative_offset [of i] i by (auto simp: printed_offset_def)
qed

theorem jump_text_exact_witness:
  "\<exists>out. disassemble 0x10 0x0080006f (replicate 100 nul) 100 no_symbols = Inr (out, None) \<and>
     cstr out = ''j       18ro,''"
proof -
  have "isa_imm_J 0x0080006f = 8" by (simp add: isa_imm_J_def word32_eq_iff word_bits_less)
  then have "isa_decode 0x0080006f = Some (JAL 0 8)" by (simp add: isa_decode_def field_def)
  moreover have "pad ''j'' @ hex_text 0x18 @ drop (length (hex_text 0x18)) ''zero,'' = ''j       18ro,''" by code_simp
  moreover have po: "printed_offset 8 = 8" by (simp add: printed_offset_def)
  ultimately show ?thesis
    using jump_text_exact [of "0x0080006f" 0 8 no_symbols "0x10" None "replicate 100 nul"] sym_at_none
    by (simp add: suffix_text_def Let_def po)
qed

end
