(* ===== verification/Records.thy ===== *)
theory Records
  imports C_Lib
begin

text \<open>
  Reading the OpenStreetMap place names, \<open>Opgave2/src/common/record.c\<close>: a header line, then one
  tab-separated record per line. A file is its contents; \<open>None\<close> stands for one that cannot be
  opened. A freshly allocated record holds arbitrary values, which the model carries explicitly,
  because \<open>read_record\<close> leaves a field alone when its column is missing.
\<close>

record place =
  name :: string
  alternative_names :: string
  osm_type :: string
  osm_id :: int
  class_of :: string
  type_of :: string
  lon :: rat
  lat :: rat
  place_rank :: int
  importance :: rat
  street :: string
  city :: string
  county :: string
  state :: string
  country :: string
  country_code :: string
  display_name :: string
  west :: rat
  south :: rat
  east :: rat
  north :: rat
  wikidata :: string
  wikipedia :: string
  housenumbers :: string

definition columns :: "string list" where
  "columns = [''name'', ''alternative_names'', ''osm_type'', ''osm_id'', ''class'', ''type'', ''lon'', ''lat'',
     ''place_rank'', ''importance'', ''street'', ''city'', ''county'', ''state'', ''country'', ''country_code'',
     ''display_name'', ''west'', ''south'', ''east'', ''north'', ''wikidata'', ''wikipedia'', ''housenumbers'']"

fun join_tabs :: "string list \<Rightarrow> string" where
  "join_tabs [] = []"
| "join_tabs [s] = s"
| "join_tabs (s # t # ss) = s @ tab # join_tabs (t # ss)"

text \<open>\<open>input_looks_ok\<close> returns \<open>- 1\<close>, 1 or 0 and the rest of the file.\<close>

definition input_looks_ok :: "string \<Rightarrow> int \<times> string" where
  "input_looks_ok f =
     (case getline f of
        None \<Rightarrow> (- 1, f)
      | Some (line, rest) \<Rightarrow> (if cstr line = join_tabs columns @ [newline] then 1 else 0, rest))"

text \<open>One \<open>if ((end = strstr(start, "\t")))\<close> block: the field before the next tab, if there is one.\<close>

definition next_field :: "(string \<Rightarrow> place \<Rightarrow> place) \<Rightarrow> place \<times> string \<Rightarrow> place \<times> string" where
  "next_field assign = (\<lambda>(r, start).
     case split_at tab start of
       None \<Rightarrow> (r, start)
     | Some (text, rest) \<Rightarrow> (assign text r, rest))"

text \<open>The blocks in the order of the source; the nineteenth assigns \<open>west\<close> again.\<close>

definition field_blocks :: "(string \<Rightarrow> place \<Rightarrow> place) list" where
  "field_blocks =
     [\<lambda>s r. r\<lparr>name := s\<rparr>, \<lambda>s r. r\<lparr>alternative_names := s\<rparr>, \<lambda>s r. r\<lparr>osm_type := s\<rparr>,
      \<lambda>s r. r\<lparr>osm_id := atol s\<rparr>, \<lambda>s r. r\<lparr>class_of := s\<rparr>, \<lambda>s r. r\<lparr>type_of := s\<rparr>,
      \<lambda>s r. r\<lparr>lon := atof s\<rparr>, \<lambda>s r. r\<lparr>lat := atof s\<rparr>, \<lambda>s r. r\<lparr>place_rank := atoi s\<rparr>,
      \<lambda>s r. r\<lparr>importance := atof s\<rparr>, \<lambda>s r. r\<lparr>street := s\<rparr>, \<lambda>s r. r\<lparr>city := s\<rparr>,
      \<lambda>s r. r\<lparr>county := s\<rparr>, \<lambda>s r. r\<lparr>state := s\<rparr>, \<lambda>s r. r\<lparr>country := s\<rparr>,
      \<lambda>s r. r\<lparr>country_code := s\<rparr>, \<lambda>s r. r\<lparr>display_name := s\<rparr>, \<lambda>s r. r\<lparr>west := atof s\<rparr>,
      \<lambda>s r. r\<lparr>west := atof s\<rparr>, \<lambda>s r. r\<lparr>east := atof s\<rparr>, \<lambda>s r. r\<lparr>north := atof s\<rparr>,
      \<lambda>s r. r\<lparr>wikidata := s\<rparr>, \<lambda>s r. r\<lparr>wikipedia := s\<rparr>, \<lambda>s r. r\<lparr>housenumbers := s\<rparr>]"

text \<open>\<open>None\<close> is the return value \<open>- 1\<close>.\<close>

definition read_record :: "place \<Rightarrow> string \<Rightarrow> (place \<times> string) option" where
  "read_record r f =
     (case getline f of
        None \<Rightarrow> None
      | Some (line, rest) \<Rightarrow> Some (fst (fold next_field field_blocks (r, cstr line)), rest))"

text \<open>
  The loop of \<open>read_records\<close>: the array \<open>rs\<close> has \<open>capacity\<close> elements and grows by doubling;
  \<open>fresh i\<close> is what the allocator leaves in element \<open>i\<close>. Writing past the array is an error.
\<close>

function read_loop :: "(nat \<Rightarrow> place) \<Rightarrow> nat \<Rightarrow> nat \<Rightarrow> place list \<Rightarrow> string \<Rightarrow> array_error + place list \<times> nat" where
  "read_loop fresh capacity i rs f =
     (if length rs \<le> i then Inl OutOfBounds
      else case read_record (rs ! i) f of
             None \<Rightarrow> Inr (rs, i)
           | Some (r, rest) \<Rightarrow>
               let rs = rs[i := r]; i = i + 1 in
               if i = capacity then
                 read_loop fresh (2 * capacity) i (rs @ map fresh [capacity..<2 * capacity]) rest
               else read_loop fresh capacity i rs rest)"
  by pat_completeness auto
termination
  by (relation "measure (\<lambda>(fresh, capacity, i, rs, f). length f)")
    (auto simp: read_record_def dest: getline_shorter split: option.splits)

declare read_loop.simps [simp del]

text \<open>The result: \<open>None\<close> for NULL, otherwise the first \<open>n\<close> elements of the array.\<close>

definition read_records :: "(nat \<Rightarrow> place) \<Rightarrow> string option \<Rightarrow> array_error + place list option" where
  "read_records fresh file =
     (case file of
        None \<Rightarrow> Inr None
      | Some f \<Rightarrow>
          let (ok, rest) = input_looks_ok f in
          if ok = 0 then Inr None
          else rbind (read_loop fresh 100 0 (map fresh [0..<100]) rest) (\<lambda>(rs, n). Inr (Some (take n rs))))"

section \<open>Lemmas\<close>

text \<open>What the records are: one per line of the file, each read into its fresh element.\<close>

function parse_all :: "(nat \<Rightarrow> place) \<Rightarrow> nat \<Rightarrow> string \<Rightarrow> place list" where
  "parse_all fresh i f =
     (case read_record (fresh i) f of None \<Rightarrow> [] | Some (r, rest) \<Rightarrow> r # parse_all fresh (i + 1) rest)"
  by pat_completeness auto
termination
  by (relation "measure (\<lambda>(fresh, i, f). length f)")
    (auto simp: read_record_def dest: getline_shorter split: option.splits)

declare parse_all.simps [simp del]

lemma read_loop_parse:
  assumes "length rs = capacity" "i < capacity" "\<And>j. i \<le> j \<Longrightarrow> j < capacity \<Longrightarrow> rs ! j = fresh j"
  shows "\<exists>rs'. read_loop fresh capacity i rs f = Inr (rs', i + length (parse_all fresh i f)) \<and>
    take (i + length (parse_all fresh i f)) rs' = take i rs @ parse_all fresh i f"
  using assms
proof (induction fresh capacity i rs f rule: read_loop.induct)
  case (1 fresh capacity i rs f)
  show ?case
  proof (cases "read_record (rs ! i) f")
    case None
    with 1 show ?thesis by (simp add: read_loop.simps [of fresh capacity i rs f] parse_all.simps [of fresh i f])
  next
    case (Some p)
    obtain r rest where p: "p = (r, rest)" by (cases p)
    let ?rs = "rs[i := r]"
    have tk: "take (Suc i) ?rs = take i rs @ [r]"
      using 1(3,4) by (simp add: take_Suc_conv_app_nth)
    have pa: "parse_all fresh i f = r # parse_all fresh (i + 1) rest"
      using Some p 1(4,5) by (simp add: parse_all.simps [of fresh i f])
    show ?thesis
    proof (cases "i + 1 = capacity")
      case True
      let ?rs2 = "?rs @ map fresh [capacity..<2 * capacity]"
      have fr: "?rs2 ! j = fresh j" if "i + 1 \<le> j" "j < 2 * capacity" for j
        using that True 1(3) by (auto simp: nth_append)
      from 1(1)[OF _ Some p [symmetric] refl refl True] 1(3,4) fr True
      obtain rs' where "read_loop fresh (2 * capacity) (i + 1) ?rs2 rest =
          Inr (rs', i + 1 + length (parse_all fresh (i + 1) rest))"
        "take (i + 1 + length (parse_all fresh (i + 1) rest)) rs' = take (i + 1) ?rs2 @ parse_all fresh (i + 1) rest"
        by force
      moreover have "read_loop fresh capacity i rs f = read_loop fresh (2 * capacity) (i + 1) ?rs2 rest"
        using True Some p 1(3,4) by (subst read_loop.simps) (simp add: Let_def)
      moreover have "take (i + 1) ?rs2 = take i rs @ [r]"
        using tk 1(3,4) by simp
      ultimately show ?thesis by (simp add: pa)
    next
      case False
      from 1(2)[OF _ Some p [symmetric] refl refl False] 1(3-5) False
      obtain rs' where "read_loop fresh capacity (i + 1) ?rs rest =
          Inr (rs', i + 1 + length (parse_all fresh (i + 1) rest))"
        "take (i + 1 + length (parse_all fresh (i + 1) rest)) rs' = take (i + 1) ?rs @ parse_all fresh (i + 1) rest"
        by force
      with False Some p 1(3,4) tk show ?thesis
        by (simp add: read_loop.simps [of fresh capacity i rs f] pa Let_def)
    qed
  qed
qed

lemma split_join:
  assumes "tab \<notin> set s"
  shows "split_at tab (join_tabs (s # t # ss) @ rest) = Some (s, join_tabs (t # ss) @ rest)"
    "tab \<notin> set rest \<Longrightarrow> split_at tab (s @ rest) = None"
  using assms by (simp_all add: split_at_append split_at_None)

text \<open>Feeding the blocks a line: each block but the ones past the last tab takes its column.\<close>

fun assign_all :: "(string \<Rightarrow> place \<Rightarrow> place) list \<Rightarrow> string list \<Rightarrow> place \<Rightarrow> place" where
  "assign_all (g # gs) (s # t # ss) r = assign_all gs (t # ss) (g s r)"
| "assign_all _ _ r = r"

lemma fold_next_field_stuck: "split_at tab s = None \<Longrightarrow> fold next_field gs (r, s) = (r, s)"
  by (induction gs) (auto simp: next_field_def)

lemma fold_next_field:
  assumes "\<And>s. s \<in> set ss \<Longrightarrow> tab \<notin> set s" "ss \<noteq> []" "tab \<notin> set rest"
  shows "fst (fold next_field gs (r, join_tabs ss @ rest)) = assign_all gs ss r"
  using assms
proof (induction gs ss r rule: assign_all.induct)
  case (1 g gs s t ss r)
  then show ?case by (simp add: next_field_def split_at_append)
qed (simp_all add: fold_next_field_stuck split_at_None)

lemma cstr_no_nul: "nul \<notin> set s \<Longrightarrow> cstr s = s"
  unfolding cstr_def by (rule takeWhile_eq_all_conv [THEN iffD2]) auto

lemma set_join_tabs: "c \<in> set (join_tabs ss) \<Longrightarrow> c = tab \<or> (\<exists>s \<in> set ss. c \<in> set s)"
  by (induction ss rule: join_tabs.induct) auto

lemma read_record_line:
  assumes "\<And>s. s \<in> set ss \<Longrightarrow> tab \<notin> set s \<and> newline \<notin> set s \<and> nul \<notin> set s" "ss \<noteq> []"
  shows "read_record r (join_tabs ss @ newline # rest) = Some (assign_all field_blocks ss r, rest)"
proof -
  have special: "tab \<noteq> newline" "nul \<noteq> newline" "nul \<noteq> tab" by (simp_all add: tab_def newline_def nul_def)
  with assms(1) set_join_tabs [of _ ss] have "newline \<notin> set (join_tabs ss)" "nul \<notin> set (join_tabs ss @ [newline])"
    by fastforce+
  with special show ?thesis
    using fold_next_field [of ss "[newline]" field_blocks r] assms
    by (auto simp: read_record_def getline_append cstr_no_nul)
qed

lemma read_records_value:
  "read_records fresh file =
     Inr (case file of
            None \<Rightarrow> None
          | Some f \<Rightarrow>
              (case getline f of
                 None \<Rightarrow> Some []
               | Some (header, rest) \<Rightarrow>
                   if cstr header = join_tabs columns @ [newline] then Some (parse_all fresh 0 rest) else None))"
proof -
  have "rbind (read_loop fresh 100 0 (map fresh [0..<100]) rest) (\<lambda>(rs, n). Inr (Some (take n rs))) =
      Inr (Some (parse_all fresh 0 rest))" for rest
    using read_loop_parse [of "map fresh [0..<100]" 100 0 fresh rest] by auto
  moreover have "parse_all fresh 0 [] = []"
    by (simp add: parse_all.simps [of fresh 0 "[]"] read_record_def getline_def)
  ultimately show ?thesis
    by (auto simp: read_records_def input_looks_ok_def getline_def split: option.splits list.splits)
qed

lemma read_records_total: "\<exists>v. read_records fresh file = Inr v"
  by (simp add: read_records_value)

section \<open>Properties\<close>


text \<open>
  A line with the 24 columns of the header fills the record from its columns with three
  exceptions: \<open>west\<close> gets the column \<open>south\<close>, the field \<open>south\<close> keeps whatever the
  allocator left there, and so does \<open>housenumbers\<close>, which has no tab after it.
\<close>

theorem read_record_columns:
  assumes "list_all (\<lambda>s. tab \<notin> set s \<and> newline \<notin> set s \<and> nul \<notin> set s)
    [a, b, c, d, e, f, g, h, i, j, k, l, m, n, p, q, t, u, v, w, x, y, z, hn]"
  shows "read_record r (join_tabs [a, b, c, d, e, f, g, h, i, j, k, l, m, n, p, q, t, u, v, w, x, y, z, hn] @ newline # rest) =
    Some (\<lparr>name = a, alternative_names = b, osm_type = c, osm_id = atol d, class_of = e, type_of = f,
      lon = atof g, lat = atof h, place_rank = atoi i, importance = atof j, street = k, city = l,
      county = m, state = n, country = p, country_code = q, display_name = t, west = atof v, south = south r,
      east = atof w, north = atof x, wikidata = y, wikipedia = z, housenumbers = housenumbers r\<rparr>, rest)"
proof -
  have "assign_all field_blocks [a, b, c, d, e, f, g, h, i, j, k, l, m, n, p, q, t, u, v, w, x, y, z, hn] r =
    \<lparr>name = a, alternative_names = b, osm_type = c, osm_id = atol d, class_of = e, type_of = f,
      lon = atof g, lat = atof h, place_rank = atoi i, importance = atof j, street = k, city = l,
      county = m, state = n, country = p, country_code = q, display_name = t, west = atof v, south = south r,
      east = atof w, north = atof x, wikidata = y, wikipedia = z, housenumbers = housenumbers r\<rparr>"
    by (simp add: field_blocks_def)
  then show ?thesis
    using read_record_line [of "[a, b, c, d, e, f, g, h, i, j, k, l, m, n, p, q, t, u, v, w, x, y, z, hn]" r rest] assms
    by (simp only: list_all_iff) blast
qed

definition blank_place :: place where
  "blank_place = \<lparr>name = [], alternative_names = [], osm_type = [], osm_id = 0, class_of = [], type_of = [],
     lon = 0, lat = 0, place_rank = 0, importance = 0, street = [], city = [], county = [], state = [],
     country = [], country_code = [], display_name = [], west = 0, south = 0, east = 0, north = 0,
     wikidata = [], wikipedia = [], housenumbers = []\<rparr>"

theorem read_record_columns_witness:
  "\<exists>r. read_record blank_place
     (join_tabs [''a'', [], [], ''42'', [], [], ''1'', ''2'', [], [], [], [], [], [], [], [], [], ''3'', ''4'', [], [], [], [], ''h''] @ newline # [])
     = Some (r, []) \<and> osm_id r = 42 \<and> west r = 4 \<and> south r = 0 \<and> housenumbers r = []"
  using read_record_columns [of "''a''" "[]" "[]" "''42''" "[]" "[]" "''1''" "''2''" "[]" "[]" "[]" "[]" "[]" "[]" "[]" "[]"
      "[]" "''3''" "''4''" "[]" "[]" "[]" "[]" "''h''" blank_place "[]"]
  by (auto simp: tab_def newline_def nul_def blank_place_def atol_def atof_def isspace_def isdigit_def
    digits_value_def digit_def pow10_def take_exponent_def)

end
