(* ===== verification/Id_Query.thy ===== *)
theory Id_Query
  imports Records
begin

text \<open>
  Looking up places by their identifier: the query loop (\<open>Opgave2/src/common/id_query.c\<close>) over
  an index given by two functions, and three of its implementations
  (\<open>Opgave2/src/Binsort/\<close>): scanning the records, scanning an array of identifiers, and binary
  search in the sorted records. A pointer to a record is modelled by the record it points to.
\<close>

section \<open>The query loop\<close>

datatype answer = Found int string rat rat | NotFound int

datatype loop_error = UsageExit | ReadFailed | Crash array_error

text \<open>
  The answers printed for the lines of the standard input. The timing output is left out; \<open>mk\<close>
  and \<open>lookup\<close> are the function pointers.
\<close>

type_synonym 'i lookup_fn = "'i \<Rightarrow> int \<Rightarrow> array_error + place option"

definition answer_for :: "'i lookup_fn \<Rightarrow> 'i \<Rightarrow> string \<Rightarrow> array_error + answer" where
  "answer_for lookup index line =
     (let needle = atol (cstr line) in
      rbind (lookup index needle) (\<lambda>found. Inr (
        case found of
          Some r \<Rightarrow> Found needle (name r) (lon r) (lat r)
        | None \<Rightarrow> NotFound needle)))"

function query_lines :: "'i lookup_fn \<Rightarrow> 'i \<Rightarrow> string \<Rightarrow> array_error + answer list" where
  "query_lines lookup index inp =
     (case getline inp of
        None \<Rightarrow> Inr []
      | Some (line, rest) \<Rightarrow>
          rbind (answer_for lookup index line) (\<lambda>a.
          rbind (query_lines lookup index rest) (\<lambda>as. Inr (a # as))))"
  by pat_completeness auto
termination
  by (relation "measure (\<lambda>(lookup, index, inp). length inp)") (auto dest: getline_shorter)

declare query_lines.simps [simp del]

definition id_query_loop :: "(nat \<Rightarrow> place) \<Rightarrow> (place list \<Rightarrow> 'i) \<Rightarrow> 'i lookup_fn \<Rightarrow>
    nat \<Rightarrow> string option \<Rightarrow> string \<Rightarrow> loop_error + answer list" where
  "id_query_loop fresh mk_index lookup argc file inp =
     (if argc \<noteq> 2 then Inl UsageExit
      else case read_records fresh file of
             Inl e \<Rightarrow> Inl (Crash e)
           | Inr None \<Rightarrow> Inl ReadFailed
           | Inr (Some rs) \<Rightarrow>
               (case query_lines lookup (mk_index rs) inp of Inl e \<Rightarrow> Inl (Crash e) | Inr as \<Rightarrow> Inr as))"

section \<open>What an index promises\<close>

text \<open>
  The contract of \<open>mk_index_fn\<close> and \<open>lookup_fn\<close>: a lookup in the index of some records stays
  inside its arrays and returns a record among them with the identifier asked for, whenever
  there is one.
\<close>

definition right_record :: "place list \<Rightarrow> int \<Rightarrow> place option \<Rightarrow> bool" where
  "right_record rs x found =
     (case found of
        Some r \<Rightarrow> r \<in> set rs \<and> osm_id r = x
      | None \<Rightarrow> x \<notin> osm_id ` set rs)"

definition right_answer :: "place list \<Rightarrow> string \<Rightarrow> answer \<Rightarrow> bool" where
  "right_answer rs line a =
     (case a of
        Found i s x y \<Rightarrow> i = atol (cstr line) \<and> (\<exists>r \<in> set rs. osm_id r = i \<and> name r = s \<and> lon r = x \<and> lat r = y)
      | NotFound i \<Rightarrow> i = atol (cstr line) \<and> i \<notin> osm_id ` set rs)"

locale id_index =
  fixes mk_index :: "place list \<Rightarrow> 'i"
    and lookup :: "'i lookup_fn"
  assumes lookup_right: "\<exists>found. lookup (mk_index rs) x = Inr found \<and> right_record rs x found"
begin

text \<open>With distinct identifiers the contract determines the result.\<close>

lemma lookup_find:
  assumes "distinct (map osm_id rs)"
  shows "lookup (mk_index rs) x = Inr (find (\<lambda>r. osm_id r = x) rs)"
proof -
  obtain found where f: "lookup (mk_index rs) x = Inr found" "right_record rs x found"
    using lookup_right by blast
  have "found = find (\<lambda>r. osm_id r = x) rs"
  proof (cases "find (\<lambda>r. osm_id r = x) rs")
    case None
    then have "\<forall>r \<in> set rs. osm_id r \<noteq> x" by (simp add: find_None_iff)
    with None f(2) show ?thesis by (auto simp: right_record_def split: option.splits)
  next
    case (Some r)
    then have "r \<in> set rs" "osm_id r = x" by (auto simp: find_Some_iff)
    with Some f(2) assms show ?thesis
      by (auto simp: right_record_def distinct_map inj_on_def split: option.splits)
  qed
  with f(1) show ?thesis by simp
qed

lemma answer_right: "\<exists>a. answer_for lookup (mk_index rs) line = Inr a \<and> right_answer rs line a"
proof -
  obtain found where "lookup (mk_index rs) (atol (cstr line)) = Inr found" "right_record rs (atol (cstr line)) found"
    using lookup_right by blast
  then show ?thesis
    by (auto simp: answer_for_def right_answer_def right_record_def split: option.splits)
qed

text \<open>One right answer per line of input.\<close>

lemma query_lines_right:
  "\<exists>as. query_lines lookup (mk_index rs) inp = Inr as \<and> list_all2 (right_answer rs) (input_lines inp) as"
proof (induction inp rule: input_lines.induct)
  case (1 inp)
  show ?case
  proof (cases "getline inp")
    case None
    then show ?thesis by (simp add: query_lines.simps [of _ _ inp] input_lines.simps [of inp])
  next
    case (Some p)
    obtain l rest where p: "p = (l, rest)" by (cases p)
    from 1 [OF Some p [symmetric]] obtain as where
      "query_lines lookup (mk_index rs) rest = Inr as" "list_all2 (right_answer rs) (input_lines rest) as" by blast
    with Some p answer_right [of rs l] show ?thesis
      by (auto simp: query_lines.simps [of _ _ inp] input_lines.simps [of inp])
  qed
qed

text \<open>A program built on such an index answers every query, given a readable file.\<close>

lemma loop_right:
  "case id_query_loop fresh mk_index lookup argc file inp of
     Inl UsageExit \<Rightarrow> argc \<noteq> 2
   | Inl ReadFailed \<Rightarrow> argc = 2 \<and> read_records fresh file = Inr None
   | Inl (Crash e) \<Rightarrow> False
   | Inr as \<Rightarrow> argc = 2 \<and> (\<exists>rs. read_records fresh file = Inr (Some rs) \<and>
        list_all2 (right_answer rs) (input_lines inp) as)"
  using query_lines_right [of _ inp] read_records_total [of fresh "file"]
  by (auto simp: id_query_loop_def split: sum.split option.splits) (metis Inr_inject sum.distinct(1))+

text \<open>With distinct identifiers, the answers are those of a search through the records.\<close>

lemma query_lines_find:
  assumes "distinct (map osm_id rs)"
  shows "query_lines lookup (mk_index rs) inp = query_lines (\<lambda>rs x. Inr (find (\<lambda>r. osm_id r = x) rs)) rs inp"
proof (induction inp rule: input_lines.induct)
  case (1 inp)
  show ?case
  proof (cases "getline inp")
    case None
    then show ?thesis by (simp add: query_lines.simps [of _ _ inp])
  next
    case (Some p)
    obtain l rest where p: "p = (l, rest)" by (cases p)
    from 1 [OF Some p [symmetric]] Some p assms show ?thesis
      by (simp add: query_lines.simps [of _ _ inp] answer_for_def lookup_find)
  qed
qed

end

section \<open>Scanning the records\<close>

record naive_data =
  nv_rs :: "place list"
  nv_n :: nat

definition mk_naive :: "place list \<Rightarrow> naive_data" where
  "mk_naive rs = \<lparr>nv_rs = rs, nv_n = length rs\<rparr>"

function lookup_naive_from :: "naive_data \<Rightarrow> int \<Rightarrow> nat \<Rightarrow> array_error + place option" where
  "lookup_naive_from data needle i =
     (if i < nv_n data then
        rbind (arr_get (nv_rs data) (int i)) (\<lambda>r.
          if osm_id r = needle then Inr (Some r) else lookup_naive_from data needle (i + 1))
      else Inr None)"
  by pat_completeness auto
termination
  by (relation "measure (\<lambda>(data, needle, i). nv_n data - i)") auto

declare lookup_naive_from.simps [simp del]

definition lookup_naive :: "naive_data lookup_fn" where
  "lookup_naive data needle = lookup_naive_from data needle 0"

lemma lookup_naive_from_find:
  "lookup_naive_from (mk_naive rs) x i = Inr (find (\<lambda>r. osm_id r = x) (drop i rs))"
proof (induction "mk_naive rs" x i rule: lookup_naive_from.induct)
  case (1 x i)
  show ?case
  proof (cases "i < length rs")
    case True
    then have "drop i rs = rs ! i # drop (i + 1) rs" by (simp add: Cons_nth_drop_Suc)
    with True 1 show ?thesis
      by (subst lookup_naive_from.simps) (simp add: mk_naive_def)
  next
    case False
    then show ?thesis by (subst lookup_naive_from.simps) (simp add: mk_naive_def)
  qed
qed

lemma right_record_find: "right_record rs x (find (\<lambda>r. osm_id r = x) rs)"
  by (auto simp: right_record_def find_Some_iff find_None_iff split: option.split)

interpretation naive_index: id_index mk_naive lookup_naive
  by unfold_locales (simp add: lookup_naive_def lookup_naive_from_find right_record_find)

section \<open>Scanning an array of identifiers\<close>

record index_record =
  ix_id :: int
  ix_record :: place

record indexed_data =
  irs :: "index_record list"
  ix_n :: nat

definition mk_indexed :: "place list \<Rightarrow> indexed_data" where
  "mk_indexed rs = \<lparr>irs = map (\<lambda>i. \<lparr>ix_id = osm_id (rs ! i), ix_record = rs ! i\<rparr>) [0..<length rs], ix_n = length rs\<rparr>"

function lookup_indexed_from :: "indexed_data \<Rightarrow> int \<Rightarrow> nat \<Rightarrow> array_error + place option" where
  "lookup_indexed_from data needle i =
     (if i < ix_n data then
        rbind (arr_get (irs data) (int i)) (\<lambda>ir.
          if ix_id ir = needle then Inr (Some (ix_record ir)) else lookup_indexed_from data needle (i + 1))
      else Inr None)"
  by pat_completeness auto
termination
  by (relation "measure (\<lambda>(data, needle, i). ix_n data - i)") auto

declare lookup_indexed_from.simps [simp del]

definition lookup_indexed :: "indexed_data lookup_fn" where
  "lookup_indexed data needle = lookup_indexed_from data needle 0"

lemma lookup_indexed_naive: "lookup_indexed_from (mk_indexed rs) x i = lookup_naive_from (mk_naive rs) x i"
proof (induction "mk_naive rs" x i rule: lookup_naive_from.induct)
  case (1 x i)
  show ?case
  proof (cases "i < length rs")
    case True
    with 1 [of "rs ! i"] show ?thesis
      by (subst lookup_indexed_from.simps, subst lookup_naive_from.simps) (simp add: mk_indexed_def mk_naive_def)
  next
    case False
    then show ?thesis
      by (subst lookup_indexed_from.simps, subst lookup_naive_from.simps) (simp add: mk_indexed_def mk_naive_def)
  qed
qed

interpretation indexed_index: id_index mk_indexed lookup_indexed
  by unfold_locales
    (simp add: lookup_indexed_def lookup_indexed_naive lookup_naive_from_find right_record_find)

section \<open>Binary search\<close>

record binary_sort_data =
  bs_rs :: "place list"
  bs_n :: int

definition comp_record_ID_asc :: "place \<Rightarrow> place \<Rightarrow> int" where
  "comp_record_ID_asc r1 r2 = (if osm_id r1 > osm_id r2 then 1 else if osm_id r1 < osm_id r2 then - 1 else 0)"

text \<open>\<open>qs\<close> is \<open>qsort\<close>; the records are sorted in place.\<close>

definition mk_binary_sort :: "((place \<Rightarrow> place \<Rightarrow> int) \<Rightarrow> place list \<Rightarrow> place list) \<Rightarrow> place list \<Rightarrow> binary_sort_data" where
  "mk_binary_sort qs rs = \<lparr>bs_rs = qs comp_record_ID_asc rs, bs_n = int (length rs)\<rparr>"

function binary_search :: "place list \<Rightarrow> int \<Rightarrow> int \<Rightarrow> int \<Rightarrow> array_error + place option" where
  "binary_search rs needle low high =
     (if low \<le> high then
        let mid = low + (high - low) div 2 in
        rbind (arr_get rs mid) (\<lambda>r.
          if osm_id r = needle then Inr (Some r)
          else if osm_id r < needle then binary_search rs needle (mid + 1) high
          else binary_search rs needle low (mid - 1))
      else Inr None)"
  by pat_completeness auto
termination
  by (relation "measure (\<lambda>(rs, needle, low, high). nat (high - low + 1))") auto

declare binary_search.simps [simp del]

definition binary_lookup :: "binary_sort_data lookup_fn" where
  "binary_lookup data needle = binary_search (bs_rs data) needle 0 (bs_n data - 1)"

lemma comp_record_consistent: "consistent comp_record_ID_asc"
  by (auto simp: consistent_def comp_record_ID_asc_def split: if_splits)

lemma comp_record_le: "comp_record_ID_asc a b \<le> 0 \<longleftrightarrow> osm_id a \<le> osm_id b"
  by (auto simp: comp_record_ID_asc_def)

text \<open>The search returns a match between \<open>low\<close> and \<open>high\<close>, or there is none.\<close>

lemma binary_search_right:
  assumes "sorted (map osm_id rs)" "0 \<le> low" "high < int (length rs)"
  shows "\<exists>found. binary_search rs x low high = Inr found \<and>
    (case found of
       Some r \<Rightarrow> r \<in> set rs \<and> osm_id r = x
     | None \<Rightarrow> \<forall>i. low \<le> int i \<and> int i \<le> high \<longrightarrow> osm_id (rs ! i) \<noteq> x)"
  using assms
proof (induction rs x low high rule: binary_search.induct)
  case (1 rs x low high)
  show ?case
  proof (cases "low \<le> high")
    case False
    then show ?thesis by (subst binary_search.simps) auto
  next
    case True
    define mid where "mid = low + (high - low) div 2"
    have mid: "low \<le> mid" "mid \<le> high" using True by (auto simp: mid_def)
    then have r: "arr_get rs mid = Inr (rs ! nat mid)" using 1(4,5) by simp
    have mono: "osm_id (rs ! i) \<le> osm_id (rs ! j)" if "i \<le> j" "j < length rs" for i j
      using sorted_nth_mono [OF 1(3), of i j] that by simp
    consider "osm_id (rs ! nat mid) = x" | "osm_id (rs ! nat mid) < x" | "osm_id (rs ! nat mid) > x" by linarith
    then show ?thesis
    proof cases
      case 1
      with True r mid \<open>0 \<le> low\<close> \<open>high < int (length rs)\<close> show ?thesis
        by (subst binary_search.simps) (simp add: mid_def [symmetric] nth_mem)
    next
      case 2
      with 1(1) [OF True mid_def r] 1(3-5) mid obtain found where f: "binary_search rs x (mid + 1) high = Inr found"
        "case found of Some r \<Rightarrow> r \<in> set rs \<and> osm_id r = x
          | None \<Rightarrow> \<forall>i. mid + 1 \<le> int i \<and> int i \<le> high \<longrightarrow> osm_id (rs ! i) \<noteq> x" by auto
      have "osm_id (rs ! i) \<noteq> x" if "low \<le> int i" "int i \<le> high" "\<not> mid + 1 \<le> int i" for i
      proof -
        have "i \<le> nat mid" "nat mid < length rs" using that mid 1(4,5) by linarith+
        with mono [of i "nat mid"] 2 show ?thesis by simp
      qed
      with f 2 True r show ?thesis
        by (subst binary_search.simps) (auto simp: mid_def [symmetric] split: option.splits)
    next
      case 3
      with 1(2) [OF True mid_def r] 1(3-5) mid obtain found where f: "binary_search rs x low (mid - 1) = Inr found"
        "case found of Some r \<Rightarrow> r \<in> set rs \<and> osm_id r = x
          | None \<Rightarrow> \<forall>i. low \<le> int i \<and> int i \<le> mid - 1 \<longrightarrow> osm_id (rs ! i) \<noteq> x" by auto
      have "osm_id (rs ! i) \<noteq> x" if "low \<le> int i" "int i \<le> high" "\<not> int i \<le> mid - 1" for i
      proof -
        have "nat mid \<le> i" "i < length rs" using that mid 1(4,5) by linarith+
        with mono [of "nat mid" i] 3 show ?thesis by simp
      qed
      with f 3 True r show ?thesis
        by (subst binary_search.simps) (auto simp: mid_def [symmetric] split: option.splits)
    qed
  qed
qed

locale place_qsort = c_qsort qs for qs :: "(place \<Rightarrow> place \<Rightarrow> int) \<Rightarrow> place list \<Rightarrow> place list"

sublocale place_qsort < binary_index: id_index "mk_binary_sort qs" binary_lookup
proof
  fix rs x
  let ?s = "qs comp_record_ID_asc rs"
  note c = comp_record_consistent
  have "sorted (map osm_id ?s)"
    using qsort_sorted [OF c, of rs] by (simp add: sorted_map comp_record_le)
  from binary_search_right [OF this, of 0 "int (length rs) - 1" x] qsort_length [OF c, of rs]
  obtain found where f: "binary_search ?s x 0 (int (length rs) - 1) = Inr found"
    "case found of Some r \<Rightarrow> r \<in> set ?s \<and> osm_id r = x
      | None \<Rightarrow> \<forall>i. 0 \<le> int i \<and> int i \<le> int (length rs) - 1 \<longrightarrow> osm_id (?s ! i) \<noteq> x" by auto
  have "right_record ?s x found"
    using f(2) qsort_length [OF c, of rs]
    by (auto simp: right_record_def in_set_conv_nth split: option.splits)
  then have "right_record rs x found"
    by (simp add: right_record_def qsort_set [OF c] split: option.splits)
  with f(1) show "\<exists>found. binary_lookup (mk_binary_sort qs rs) x = Inr found \<and> right_record rs x found"
    by (simp add: binary_lookup_def mk_binary_sort_def)
qed

context place_qsort
begin

lemma binary_lookup_right: "\<exists>found. binary_lookup (mk_binary_sort qs rs) x = Inr found \<and> right_record rs x found"
  by (rule binary_index.lookup_right)

lemma binary_query_lines_find:
  "distinct (map osm_id rs) \<Longrightarrow> query_lines binary_lookup (mk_binary_sort qs rs) inp =
     query_lines (\<lambda>rs x. Inr (find (\<lambda>r. osm_id r = x) rs)) rs inp"
  by (rule binary_index.query_lines_find)

end

interpretation place_sort: place_qsort sort_by
  by unfold_locales

end
