(* ===== verification/Eytzinger.thy ===== *)
theory Eytzinger
  imports Id_Query
begin

text \<open>
  The fourth identifier index, \<open>Opgave2/src/eytzinger/\<close>: the sorted identifiers in the order of
  a breadth-first walk through a complete binary search tree (node \<open>k\<close> has the children \<open>2 k\<close>
  and \<open>2 k + 1\<close>, the root is at 1), filled by an in-order walk and searched without branching
  on the comparison. Indices are unbounded: \<open>2 k + 1\<close> stays within \<open>int\<close> for fewer than
  \<open>2 ^ 30\<close> records.
\<close>

section \<open>The code\<close>

record ey_record =
  key :: int
  rec :: place

record eytz_data =
  ey_n :: nat
  ey :: "ey_record list"

text \<open>The recursion is entered with \<open>k = 1\<close>; the counter \<open>*i\<close> is threaded through.\<close>

function build_eytzinger :: "'a list \<Rightarrow> 'a list \<Rightarrow> nat \<Rightarrow> nat \<Rightarrow> nat \<Rightarrow> array_error + 'a list \<times> nat" where
  "build_eytzinger src a k i n =
     (if k \<le> n \<and> k \<noteq> 0 then
        rbind (build_eytzinger src a (2 * k) i n) (\<lambda>(a, i).
        rbind (arr_get src (int i)) (\<lambda>x.
        rbind (arr_set a (int k) x) (\<lambda>a.
          build_eytzinger src a (2 * k + 1) (i + 1) n)))
      else Inr (a, i))"
  by pat_completeness auto
termination
  by (relation "measure (\<lambda>(src, a, k, i, n). n + 1 - k)") auto

declare build_eytzinger.simps [simp del]

function eytzinger_descend :: "ey_record list \<Rightarrow> nat \<Rightarrow> int \<Rightarrow> nat \<Rightarrow> nat \<Rightarrow> array_error + nat" where
  "eytzinger_descend a n x k best =
     (if k \<le> n \<and> k \<noteq> 0 then
        rbind (arr_get a (int k)) (\<lambda>node.
          let cond = (key node \<ge> x) in
          eytzinger_descend a n x (2 * k + (if cond then 0 else 1)) (if cond then k else best))
      else Inr best)"
  by pat_completeness auto
termination
  by (relation "measure (\<lambda>(a, n, x, k, best). n + 1 - k)") auto

declare eytzinger_descend.simps [simp del]

definition eytzinger_lookup :: "eytz_data lookup_fn" where
  "eytzinger_lookup data x =
     rbind (eytzinger_descend (ey data) (ey_n data) x 1 0) (\<lambda>best.
       if best = 0 then Inr None
       else rbind (arr_get (ey data) (int best)) (\<lambda>node.
         if key node \<noteq> x then Inr None else Inr (Some (rec node))))"

definition cmp_index_record :: "ey_record \<Rightarrow> ey_record \<Rightarrow> int" where
  "cmp_index_record ra rb = (if key ra < key rb then - 1 else if key ra > key rb then 1 else 0)"

text \<open>\<open>fresh\<close> is what \<open>aligned_alloc\<close> leaves in the array.\<close>

definition mk_eytzinger :: "((ey_record \<Rightarrow> ey_record \<Rightarrow> int) \<Rightarrow> ey_record list \<Rightarrow> ey_record list) \<Rightarrow>
    (nat \<Rightarrow> ey_record) \<Rightarrow> place list \<Rightarrow> array_error + eytz_data" where
  "mk_eytzinger qs fresh records =
     (let n = length records;
          src = qs cmp_index_record (map (\<lambda>i. \<lparr>key = osm_id (records ! i), rec = records ! i\<rparr>) [0..<n])
      in rbind (build_eytzinger src (map fresh [0..<n + 1]) 1 0 n) (\<lambda>(a, i). Inr \<lparr>ey_n = n, ey = a\<rparr>))"

section \<open>The in-order walk\<close>

function walk :: "nat \<Rightarrow> nat \<Rightarrow> nat list" where
  "walk n k = (if k \<le> n \<and> k \<noteq> 0 then walk n (2 * k) @ [k] @ walk n (2 * k + 1) else [])"
  by pat_completeness auto
termination
  by (relation "measure (\<lambda>(n, k). n + 1 - k)") auto

declare walk.simps [simp del]

text \<open>Node \<open>j\<close> is below node \<open>k\<close> if halving it some number of times gives \<open>k\<close>.\<close>

definition below :: "nat \<Rightarrow> nat \<Rightarrow> bool" where
  "below j k \<longleftrightarrow> (\<exists>d. j div 2 ^ d = k)"

lemma walk_below: "j \<in> set (walk n k) \<Longrightarrow> below j k \<and> 1 \<le> j \<and> j \<le> n"
proof (induction n k rule: walk.induct)
  case (1 n k)
  have up: "below j c \<Longrightarrow> c div 2 = k \<Longrightarrow> below j k" for c
    by (auto simp: below_def div_mult2_eq [symmetric] power_Suc2 [symmetric] simp del: power_Suc
        intro: exI [of _ "Suc _"])
  show ?case
  proof (cases "k \<le> n \<and> k \<noteq> 0")
    case True
    with 1(3) consider "j \<in> set (walk n (2 * k))" | "j = k" | "j \<in> set (walk n (2 * k + 1))"
      by (auto simp: walk.simps [of n k])
    then show ?thesis
    proof cases
      case 1
      then show ?thesis using "1.IH"(1) [OF True] up [of "2 * k"] by auto
    next
      case 2
      then show ?thesis using True by (auto simp: below_def intro: exI [of _ 0])
    next
      case 3
      then show ?thesis using "1.IH"(2) [OF True] up [of "2 * k + 1"] by auto
    qed
  next
    case False
    with 1(3) show ?thesis by (subst (asm) walk.simps) auto
  qed
qed

lemma below_disjoint:
  assumes "below j (2 * k)" "below j (2 * k + 1)" "k \<noteq> 0"
  shows False
proof -
  obtain d e where d: "j div 2 ^ d = 2 * k" and e: "j div 2 ^ e = 2 * k + 1"
    using assms by (auto simp: below_def)
  have less: "(x :: nat) div 2 ^ b \<le> x div 2 ^ a div 2" if "a < b" for x a b
  proof -
    have "x div 2 ^ b = x div 2 ^ a div 2 ^ (b - a)"
      using that by (simp add: div_mult2_eq [symmetric] power_add [symmetric])
    also have "\<dots> \<le> x div 2 ^ a div 2"
      using that by (intro div_le_mono2) (auto simp: self_le_power)
    finally show ?thesis .
  qed
  consider "d = e" | "d < e" | "e < d" by linarith
  then show False
  proof cases
    case 1 with d e show False by simp
  next
    case 2 with less [of d e j] d e assms(3) show False by simp
  next
    case 3 with less [of e d j] d e assms(3) show False by simp
  qed
qed

lemma below_not_self:
  assumes "below k (2 * k + b)" "k \<noteq> 0"
  shows False
proof -
  obtain d where "k div 2 ^ d = 2 * k + b" using assms(1) by (auto simp: below_def)
  moreover have "k div 2 ^ d \<le> k" by simp
  ultimately show False using assms(2) by linarith
qed

lemma distinct_walk: "distinct (walk n k)"
proof (induction n k rule: walk.induct)
  case (1 n k)
  show ?case
  proof (cases "k \<le> n \<and> k \<noteq> 0")
    case True
    then have "distinct (walk n (2 * k))" "distinct (walk n (2 * k + 1))"
      using 1 by auto
    moreover have "k \<notin> set (walk n (2 * k))" "k \<notin> set (walk n (2 * k + 1))"
      "set (walk n (2 * k)) \<inter> set (walk n (2 * k + 1)) = {}"
      using walk_below below_disjoint True below_not_self [of k 0] below_not_self [of k 1] by fastforce+
    ultimately show ?thesis using True by (subst walk.simps) auto
  next
    case False
    then show ?thesis by (subst walk.simps) auto
  qed
qed

lemma walk_child: "k \<in> set (walk n r) \<Longrightarrow> c div 2 = k \<Longrightarrow> c \<le> n \<Longrightarrow> c \<in> set (walk n r)"
proof (induction n r rule: walk.induct)
  case (1 n r)
  have self: "c \<in> set (walk n c)" if "c \<noteq> 0" "c \<le> n" for c
    using that by (subst walk.simps) simp
  show ?case
  proof (cases "r \<le> n \<and> r \<noteq> 0")
    case True
    have c: "c = 2 * k \<or> c = 2 * k + 1" using 1(4) by auto
    from True 1(3) consider "k \<in> set (walk n (2 * r))" | "k = r" | "k \<in> set (walk n (2 * r + 1))"
      by (auto simp: walk.simps [of n r])
    then have "c \<in> set (walk n (2 * r)) \<or> c \<in> set (walk n (2 * r + 1))"
    proof cases
      case 2
      then show ?thesis using c True 1(5) self [of "2 * r"] self [of "2 * r + 1"] by auto
    qed (use 1 True in auto)
    with True show ?thesis by (subst walk.simps) auto
  next
    case False
    with 1(3) show ?thesis by (subst (asm) walk.simps) auto
  qed
qed

lemma set_walk: "set (walk n 1) = {1..n}"
proof -
  have "j \<in> set (walk n 1)" if "1 \<le> j" "j \<le> n" for j
    using that
  proof (induction j rule: less_induct)
    case (less j)
    show ?case
    proof (cases "j = 1")
      case True
      with less show ?thesis by (subst walk.simps) auto
    next
      case False
      with less(2,3) have "1 \<le> j div 2" "j div 2 < j" "j div 2 \<le> n" by auto
      with less have "j div 2 \<in> set (walk n 1)" by auto
      with less(3) show ?thesis using walk_child by blast
    qed
  qed
  then show ?thesis using walk_below by fastforce
qed

lemma length_walk: "length (walk n 1) = n"
proof -
  have "length (walk n 1) = card {1..n}"
    using distinct_card [OF distinct_walk, of n 1] by (simp only: set_walk)
  then show ?thesis by simp
qed

section \<open>Building\<close>

text \<open>The positions are filled in the order of the walk, from the sorted array.\<close>

lemma build_walk:
  assumes "length a = n + 1" "i + length (walk n k) \<le> length src"
  shows "\<exists>a'. build_eytzinger src a k i n = Inr (a', i + length (walk n k)) \<and> length a' = n + 1 \<and>
    (\<forall>m < length (walk n k). a' ! (walk n k ! m) = src ! (i + m)) \<and>
    (\<forall>j. j \<notin> set (walk n k) \<longrightarrow> a' ! j = a ! j)"
  using assms
proof (induction n k arbitrary: a i rule: walk.induct)
  case (1 n k)
  show ?case
  proof (cases "k \<le> n \<and> k \<noteq> 0")
    case False
    then have "walk n k = []" by (subst walk.simps) auto
    moreover have "build_eytzinger src a k i n = Inr (a, i)"
      using False by (subst build_eytzinger.simps) auto
    ultimately show ?thesis using 1 by simp
  next
    case True
    let ?l = "walk n (2 * k)" and ?r = "walk n (2 * k + 1)"
    have w: "walk n k = ?l @ k # ?r" using True by (subst walk.simps) auto
    have d: "distinct (?l @ k # ?r)" using distinct_walk [of n k] w by simp
    from "1.IH"(1) [OF True, of a i] 1(3,4) w obtain a1 where a1: "build_eytzinger src a (2 * k) i n = Inr (a1, i + length ?l)"
      "length a1 = n + 1" "\<forall>m < length ?l. a1 ! (?l ! m) = src ! (i + m)" "\<forall>j. j \<notin> set ?l \<longrightarrow> a1 ! j = a ! j"
      by auto
    let ?i = "i + length ?l"
    let ?a2 = "a1[k := src ! ?i]"
    from "1.IH"(2) [OF True, of ?a2 "?i + 1"] 1(4) w a1(2) obtain a3 where
      a3: "build_eytzinger src ?a2 (2 * k + 1) (?i + 1) n = Inr (a3, ?i + 1 + length ?r)"
      "length a3 = n + 1" "\<forall>m < length ?r. a3 ! (?r ! m) = src ! (?i + 1 + m)" "\<forall>j. j \<notin> set ?r \<longrightarrow> a3 ! j = ?a2 ! j"
      by auto
    have "build_eytzinger src a k i n = Inr (a3, i + length (walk n k))"
      using True a1(1,2) a3(1) 1(4) w by (subst build_eytzinger.simps) (simp add: nat_int_add add.assoc)
    moreover have "a3 ! ((?l @ k # ?r) ! m) = src ! (i + m)" if "m < length (?l @ k # ?r)" for m
    proof -
      consider "m < length ?l" | "m = length ?l" | "length ?l < m" by linarith
      then show ?thesis
      proof cases
        case 1
        then have "?l ! m \<in> set ?l" by simp
        with d have "?l ! m \<notin> set ?r" "?l ! m \<noteq> k" by auto
        with 1 a1(3) a3(4) show ?thesis by (simp add: nth_append)
      next
        case 2
        with d a3(4) a1(2) True show ?thesis by (auto simp: nth_append)
      next
        case 3
        then obtain q where q: "m = length ?l + 1 + q" using less_iff_Suc_add [of "length ?l" m] by auto
        with that a3(3) show ?thesis by (auto simp: nth_append add_ac)
      qed
    qed
    moreover have "a3 ! j = a ! j" if "j \<notin> set (?l @ k # ?r)" for j
      using that a3(4) a1(4) by auto
    ultimately show ?thesis using a3(2) unfolding w by auto
  qed
qed

section \<open>Searching\<close>

text \<open>In a walk whose keys are sorted, the descent finds the first key that is not below \<open>x\<close>.\<close>

lemma descend_first:
  assumes "length a = n + 1" "sorted (map (\<lambda>j. key (a ! j)) (walk n k))"
  shows "eytzinger_descend a n x k best =
    Inr (case find (\<lambda>j. x \<le> key (a ! j)) (walk n k) of Some j \<Rightarrow> j | None \<Rightarrow> best)"
  using assms
proof (induction n k arbitrary: best rule: walk.induct)
  case (1 n k)
  show ?case
  proof (cases "k \<le> n \<and> k \<noteq> 0")
    case False
    then have "walk n k = []" by (subst walk.simps) auto
    moreover have "eytzinger_descend a n x k best = Inr best"
      using False by (subst eytzinger_descend.simps) auto
    ultimately show ?thesis by simp
  next
    case True
    let ?l = "walk n (2 * k)" and ?r = "walk n (2 * k + 1)" and ?P = "\<lambda>j. x \<le> key (a ! j)"
    have w: "walk n k = ?l @ k # ?r" using True by (subst walk.simps) auto
    have s: "sorted (map (\<lambda>j. key (a ! j)) ?l)" "sorted (map (\<lambda>j. key (a ! j)) ?r)"
      "\<forall>j \<in> set ?l. key (a ! j) \<le> key (a ! k)"
      using 1(4) by (auto simp: w sorted_append)
    have find_append: "find P (xs @ ys) = (case find P xs of None \<Rightarrow> find P ys | Some z \<Rightarrow> Some z)" for P xs and ys :: "nat list"
      by (induction xs) auto
    have step: "eytzinger_descend a n x k best = (if ?P k then eytzinger_descend a n x (2 * k) k
        else eytzinger_descend a n x (2 * k + 1) best)"
      using True 1(3) by (subst eytzinger_descend.simps) auto
    show ?thesis
    proof (cases "?P k")
      case P: True
      then show ?thesis
        using "1.IH"(1) [OF True 1(3) s(1), of k] by (simp add: step w find_append split: option.split)
    next
      case False
      then have "find ?P ?l = None" using s(3) by (fastforce simp: find_None_iff)
      with False show ?thesis
        using "1.IH"(2) [OF True 1(3) s(2), of best] by (simp add: step w find_append)
    qed
  qed
qed

lemma cmp_index_consistent: "consistent cmp_index_record"
  by (auto simp: consistent_def cmp_index_record_def split: if_splits)

lemma cmp_index_le: "cmp_index_record a b \<le> 0 \<longleftrightarrow> key a \<le> key b"
  by (auto simp: cmp_index_record_def)

text \<open>Finding the first key that is not below \<open>x\<close> in a sorted list decides membership.\<close>

lemma find_lower_bound:
  fixes ks :: "int list"
  assumes "sorted ks"
  shows "(case find (\<lambda>m. x \<le> ks ! m) [0..<length ks] of Some m \<Rightarrow> m < length ks \<and> (ks ! m = x \<longleftrightarrow> x \<in> set ks) | None \<Rightarrow> x \<notin> set ks)"
proof (cases "find (\<lambda>m. x \<le> ks ! m) [0..<length ks]")
  case None
  then have "\<forall>m < length ks. \<not> x \<le> ks ! m" by (simp add: find_None_iff)
  then have "x \<notin> set ks" by (auto simp: in_set_conv_nth)
  with None show ?thesis by simp
next
  case (Some m)
  then have m: "m < length ks" "x \<le> ks ! m" "\<forall>j < m. ks ! j < x" by (auto simp: find_Some_iff)
  have "ks ! m = x" if "x \<in> set ks"
  proof -
    obtain j where j: "j < length ks" "ks ! j = x" using \<open>x \<in> set ks\<close> by (auto simp: in_set_conv_nth)
    with m(3) have "m \<le> j" by (metis less_irrefl not_le)
    with j sorted_nth_mono [OF assms, of m j] m(2) show ?thesis by simp
  qed
  with Some m show ?thesis by (auto intro: nth_mem)
qed

lemma find_map_upt:
  "find P (map f [0..<n]) = map_option f (find (\<lambda>m. P (f m)) [0..<n])"
proof -
  have "find P (map f xs) = map_option f (find (\<lambda>m. P (f m)) xs)" for xs
    by (induction xs) auto
  then show ?thesis .
qed

text \<open>The whole index: a lookup in an array that holds a sorted list in walk order.\<close>

lemma eytzinger_lookup_sorted:
  assumes "length a = n + 1" "length src = n" "sorted (map key src)"
    and walk: "\<forall>m < n. a ! (walk n 1 ! m) = src ! m"
  shows "\<exists>found. eytzinger_lookup \<lparr>ey_n = n, ey = a\<rparr> x = Inr found \<and>
    (case found of Some r \<Rightarrow> (\<exists>e \<in> set src. key e = x \<and> rec e = r) | None \<Rightarrow> x \<notin> key ` set src)"
proof -
  let ?w = "walk n 1" and ?ks = "map key src"
  have w: "?w = map (\<lambda>m. ?w ! m) [0..<n]"
    using map_nth [of ?w] by (simp add: length_walk del: One_nat_def)
  have ks: "map (\<lambda>j. key (a ! j)) ?w = ?ks"
    using walk assms(2) by (intro nth_equalityI) (simp_all add: length_walk del: One_nat_def)
  have "find (\<lambda>j. x \<le> key (a ! j)) ?w = map_option (\<lambda>m. ?w ! m) (find (\<lambda>m. x \<le> key (a ! (?w ! m))) [0..<n])"
    by (subst w) (simp add: find_map_upt)
  also have "find (\<lambda>m. x \<le> key (a ! (?w ! m))) [0..<n] = find (\<lambda>m. x \<le> ?ks ! m) [0..<n]"
    using walk assms(2) by (intro find_cong) auto
  finally have f: "find (\<lambda>j. x \<le> key (a ! j)) ?w = map_option (\<lambda>m. ?w ! m) (find (\<lambda>m. x \<le> ?ks ! m) [0..<n])" .
  have d: "eytzinger_descend a n x 1 0 = Inr (case find (\<lambda>j. x \<le> key (a ! j)) ?w of Some j \<Rightarrow> j | None \<Rightarrow> 0)"
    using descend_first [OF assms(1), of 1 x 0] ks assms(3) by simp
  note lb = find_lower_bound [OF assms(3), of x]
  show ?thesis
  proof (cases "find (\<lambda>m. x \<le> ?ks ! m) [0..<n]")
    case None
    with d f lb assms(2) show ?thesis by (auto simp: eytzinger_lookup_def)
  next
    case (Some m)
    with lb assms(2) have m: "m < n" "key (src ! m) = x \<longleftrightarrow> x \<in> key ` set src" by auto
    then have "?w ! m \<in> {1..n}" using nth_mem [of m ?w] length_walk set_walk by metis
    then have p: "1 \<le> ?w ! m" "?w ! m < length a" using assms(1) by auto
    moreover have "a ! (?w ! m) = src ! m" using walk m(1) by simp
    ultimately have "eytzinger_lookup \<lparr>ey_n = n, ey = a\<rparr> x =
        Inr (if key (src ! m) \<noteq> x then None else Some (rec (src ! m)))"
      using d f Some by (auto simp: eytzinger_lookup_def)
    with m assms(2) show ?thesis by (auto intro: nth_mem)
  qed
qed

text \<open>The index as the query loop sees it.\<close>

definition eytzinger_query :: "(array_error + eytz_data) lookup_fn" where
  "eytzinger_query index x = rbind index (\<lambda>data. eytzinger_lookup data x)"

locale eytzinger_qsort = c_qsort qs for qs :: "(ey_record \<Rightarrow> ey_record \<Rightarrow> int) \<Rightarrow> ey_record list \<Rightarrow> ey_record list" +
  fixes fresh :: "nat \<Rightarrow> ey_record"

sublocale eytzinger_qsort < eytzinger_index: id_index "mk_eytzinger qs fresh" eytzinger_query
proof
  fix rs :: "place list" and x
  let ?n = "length rs"
  let ?u = "map (\<lambda>i. \<lparr>key = osm_id (rs ! i), rec = rs ! i\<rparr>) [0..<?n]"
  let ?s = "qs cmp_index_record ?u"
  note c = cmp_index_consistent
  have len: "length ?s = ?n" using qsort_length [OF c] by simp
  have "?u = map (\<lambda>r. \<lparr>key = osm_id r, rec = r\<rparr>) rs"
    by (rule nth_equalityI) simp_all
  then have "set ?u = (\<lambda>r. \<lparr>key = osm_id r, rec = r\<rparr>) ` set rs" by simp
  then have set_s: "set ?s = (\<lambda>r. \<lparr>key = osm_id r, rec = r\<rparr>) ` set rs" using qsort_set [OF c] by simp
  have srt: "sorted (map key ?s)"
    using qsort_sorted [OF c, of ?u] by (simp only: sorted_map cmp_index_le)
  obtain a where a: "build_eytzinger ?s (map fresh [0..<?n + 1]) 1 0 ?n = Inr (a, ?n)" "length a = ?n + 1"
    "\<forall>m < ?n. a ! (walk ?n 1 ! m) = ?s ! m"
    using build_walk [of "map fresh [0..<?n + 1]" ?n 0 1 ?s] by (auto simp: length_walk len simp del: One_nat_def)
  from eytzinger_lookup_sorted [OF a(2) len srt a(3), of x] obtain found where
    found: "eytzinger_lookup \<lparr>ey_n = ?n, ey = a\<rparr> x = Inr found"
    "case found of Some r \<Rightarrow> (\<exists>e \<in> set ?s. key e = x \<and> rec e = r) | None \<Rightarrow> x \<notin> key ` set ?s" by blast
  have "right_record rs x found"
    using found(2) unfolding set_s by (auto simp: right_record_def image_image split: option.splits)
  moreover have "mk_eytzinger qs fresh rs = Inr \<lparr>ey_n = ?n, ey = a\<rparr>"
    using a(1) by (simp add: mk_eytzinger_def Let_def del: One_nat_def upt_Suc)
  ultimately show "\<exists>found. eytzinger_query (mk_eytzinger qs fresh rs) x = Inr found \<and> right_record rs x found"
    using found(1) by (simp add: eytzinger_query_def)
qed

context eytzinger_qsort
begin

lemma eytzinger_lookup_right:
  "\<exists>found. eytzinger_query (mk_eytzinger qs fresh rs) x = Inr found \<and> right_record rs x found"
  by (rule eytzinger_index.lookup_right)

lemma eytzinger_query_lines_find:
  "distinct (map osm_id rs) \<Longrightarrow> query_lines eytzinger_query (mk_eytzinger qs fresh rs) inp =
     query_lines (\<lambda>rs x. Inr (find (\<lambda>r. osm_id r = x) rs)) rs inp"
  by (rule eytzinger_index.query_lines_find)

end

interpretation ey_sort: eytzinger_qsort sort_by "\<lambda>_. \<lparr>key = 0, rec = blank_place\<rparr>"
  by unfold_locales

section \<open>The program\<close>

text \<open>
  \<open>EytzingerMain.c\<close> reads integers with \<open>scanf\<close> until that fails, and looks each of them up.
  It does not check whether the records could be read: a NULL pointer comes with \<open>n = 0\<close>.
\<close>

definition scanf_int :: "string \<Rightarrow> (int \<times> string) option" where
  "scanf_int inp =
     (let s = dropWhile isspace inp; (sg, t) = take_sign s in
      if takeWhile isdigit t = [] then None
      else Some (atol s, dropWhile isdigit t))"

lemma take_sign_le: "length (snd (take_sign s)) \<le> length s"
  by (cases s rule: take_sign.cases) auto

lemma scanf_int_shorter: "scanf_int inp = Some (i, rest) \<Longrightarrow> length rest < length inp"
proof -
  assume a: "scanf_int inp = Some (i, rest)"
  define t where "t = snd (take_sign (dropWhile isspace inp))"
  from a have "takeWhile isdigit t \<noteq> []" "rest = dropWhile isdigit t"
    by (auto simp: scanf_int_def t_def Let_def split_def split: if_splits)
  then have "length rest < length t" by (cases t) (auto simp: le_imp_less_Suc length_dropWhile_le split: if_splits)
  also have "\<dots> \<le> length inp"
    using take_sign_le [of "dropWhile isspace inp"] length_dropWhile_le [of isspace inp] by (simp add: t_def)
  finally show ?thesis .
qed

datatype ey_line = Record int string rat rat | NotFoundLine

function eytzinger_answers :: "eytz_data \<Rightarrow> string \<Rightarrow> array_error + ey_line list" where
  "eytzinger_answers data inp =
     (case scanf_int inp of
        None \<Rightarrow> Inr []
      | Some (i, rest) \<Rightarrow>
          rbind (eytzinger_lookup data i) (\<lambda>found.
          rbind (eytzinger_answers data rest) (\<lambda>ls.
            Inr ((case found of
                    Some r \<Rightarrow> Record (osm_id r) (name r) (lon r) (lat r)
                  | None \<Rightarrow> NotFoundLine) # ls))))"
  by pat_completeness auto
termination
  by (relation "measure (\<lambda>(data, inp). length inp)") (auto dest: scanf_int_shorter)

declare eytzinger_answers.simps [simp del]

definition eytzinger_main :: "((ey_record \<Rightarrow> ey_record \<Rightarrow> int) \<Rightarrow> ey_record list \<Rightarrow> ey_record list) \<Rightarrow> (nat \<Rightarrow> ey_record) \<Rightarrow>
    (nat \<Rightarrow> place) \<Rightarrow> nat \<Rightarrow> string option \<Rightarrow> string \<Rightarrow> loop_error + ey_line list" where
  "eytzinger_main qs fresh_ey fresh argc file inp =
     (if argc \<noteq> 2 then Inl UsageExit
      else case rbind (read_records fresh file) (\<lambda>records.
             rbind (mk_eytzinger qs fresh_ey (case records of None \<Rightarrow> [] | Some rs \<Rightarrow> rs)) (\<lambda>data.
               eytzinger_answers data inp)) of
             Inl e \<Rightarrow> Inl (Crash e)
           | Inr ls \<Rightarrow> Inr ls)"

section \<open>Properties\<close>

text \<open>
  C5: Each of the four identifier indexes answers correctly, whatever \<open>qsort\<close> does with equal
  identifiers and whatever memory held before: no array is accessed out of bounds, and the lookup
  returns a record of the data set with the identifier asked for, or NULL exactly when there is none.
\<close>

theorem id_lookups_correct:
  assumes "c_qsort qs" "c_qsort qs'"
  shows "\<exists>a b c d. lookup_naive (mk_naive rs) x = Inr a \<and> right_record rs x a \<and>
    lookup_indexed (mk_indexed rs) x = Inr b \<and> right_record rs x b \<and>
    binary_lookup (mk_binary_sort qs rs) x = Inr c \<and> right_record rs x c \<and>
    eytzinger_query (mk_eytzinger qs' fresh rs) x = Inr d \<and> right_record rs x d"
  using naive_index.lookup_right [of rs x] indexed_index.lookup_right [of rs x]
    place_qsort.binary_lookup_right [OF place_qsort.intro, OF assms(1), of rs x]
    eytzinger_qsort.eytzinger_lookup_right [OF eytzinger_qsort.intro, OF assms(2), of fresh rs x]
  by blast

theorem id_lookups_correct_witness:
  "\<exists>c. binary_lookup (mk_binary_sort sort_by [blank_place]) 0 = Inr c \<and> right_record [blank_place] 0 c"
  using id_lookups_correct [OF insertion_sort.c_qsort_axioms insertion_sort.c_qsort_axioms, of "[blank_place]" 0] by blast

text \<open>
  On a data set with distinct identifiers the four programs are interchangeable: their query
  loops give the same answers to any input, those of a search through the records.
\<close>

theorem id_programs_agree:
  assumes "c_qsort qs" "c_qsort qs'" "distinct (map osm_id rs)"
  shows "query_lines lookup_naive (mk_naive rs) inp = query_lines (\<lambda>rs x. Inr (find (\<lambda>r. osm_id r = x) rs)) rs inp \<and>
    query_lines lookup_indexed (mk_indexed rs) inp = query_lines lookup_naive (mk_naive rs) inp \<and>
    query_lines binary_lookup (mk_binary_sort qs rs) inp = query_lines lookup_naive (mk_naive rs) inp \<and>
    query_lines eytzinger_query (mk_eytzinger qs' fresh rs) inp = query_lines lookup_naive (mk_naive rs) inp"
  using naive_index.query_lines_find [OF assms(3)] indexed_index.query_lines_find [OF assms(3)]
    place_qsort.binary_query_lines_find [OF place_qsort.intro, OF assms(1,3)]
    eytzinger_qsort.eytzinger_query_lines_find [OF eytzinger_qsort.intro, OF assms(2,3)]
  by simp

theorem id_programs_agree_witness:
  "query_lines binary_lookup (mk_binary_sort sort_by [blank_place]) ''0'' =
   query_lines lookup_naive (mk_naive [blank_place]) ''0''"
  using id_programs_agree [OF insertion_sort.c_qsort_axioms insertion_sort.c_qsort_axioms, of "[blank_place]" "''0''"]
  by simp

text \<open>
  A run of the query program on the naive index ends with the usage message, with the message
  about an unreadable file, or with one right answer for every line of input; it never accesses
  memory out of bounds.
\<close>

theorem naive_program_correct:
  "case id_query_loop fresh mk_naive lookup_naive argc file inp of
     Inl UsageExit \<Rightarrow> argc \<noteq> 2
   | Inl ReadFailed \<Rightarrow> argc = 2 \<and> read_records fresh file = Inr None
   | Inl (Crash e) \<Rightarrow> False
   | Inr as \<Rightarrow> argc = 2 \<and> (\<exists>rs. read_records fresh file = Inr (Some rs) \<and>
        list_all2 (right_answer rs) (input_lines inp) as)"
  by (rule naive_index.loop_right)

end
