(* ===== verification/Random_Ids.thy ===== *)
theory Random_Ids
  imports Id_Query
begin

text \<open>
  The program that makes input for the identifier query programs (\<open>Opgave2/src/random_ids.c\<close>): it
  prints the identifiers of records drawn with \<open>rand\<close>, without end. The numbers drawn and whether
  each \<open>printf\<close> succeeds are arguments, and the model runs a number of iterations of the loop.
\<close>

section \<open>The program\<close>

text \<open>How far the program has come: its text so far goes with this.\<close>

datatype random_end = Usage "string option" | Unreadable | Failed array_error | DivisionTrap | LoopLeft | Looping

text \<open>\<open>printf\<close> returns the number of characters written, or a negative number.\<close>

definition printf_result :: "bool \<Rightarrow> string \<Rightarrow> int" where
  "printf_result ok line = (if ok then int (length line) else - 1)"

fun random_loop :: "place list \<Rightarrow> (nat \<Rightarrow> nat) \<Rightarrow> (nat \<Rightarrow> bool) \<Rightarrow> nat \<Rightarrow> nat \<Rightarrow> string \<times> random_end" where
  "random_loop rs random ok i 0 = ([], Looping)"
| "random_loop rs random ok i (Suc k) =
     (if length rs = 0 then ([], DivisionTrap)
      else case arr_get rs (int (random i mod length rs)) of
             Inl e \<Rightarrow> ([], Failed e)
           | Inr r \<Rightarrow>
               let line = print_int (osm_id r) @ [newline];
                   (out, end) = (if printf_result (ok i) line = 0 then ([], LoopLeft) else random_loop rs random ok (i + 1) k)
               in ((if ok i then line else []) @ out, end))"

definition random_ids :: "(nat \<Rightarrow> place) \<Rightarrow> string list \<Rightarrow> string option \<Rightarrow> (nat \<Rightarrow> nat) \<Rightarrow> (nat \<Rightarrow> bool) \<Rightarrow> nat \<Rightarrow> string \<times> random_end" where
  "random_ids fresh argv file random ok k =
     (if length argv \<noteq> 2 then ([], Usage (if 1 < length argv then Some (argv ! 1) else None))
      else case read_records fresh file of
             Inl e \<Rightarrow> ([], Failed e)
           | Inr None \<Rightarrow> ([], Unreadable)
           | Inr (Some rs) \<Rightarrow> random_loop rs random ok 0 k)"

section \<open>Lemmas\<close>

















section \<open>Properties\<close>




text \<open>
  Its other ends: the usage message, which names the argument instead of the program, a file that is
  not read, and a division by zero if the file holds no record.
\<close>

theorem random_ids_errors:
  "length argv \<noteq> 2 \<Longrightarrow> random_ids fresh argv file random ok k = ([], Usage (if 1 < length argv then Some (argv ! 1) else None))"
  "length argv = 2 \<Longrightarrow> read_records fresh file = Inr None \<Longrightarrow> random_ids fresh argv file random ok k = ([], Unreadable)"
  "length argv = 2 \<Longrightarrow> read_records fresh file = Inr (Some []) \<Longrightarrow> random_ids fresh argv file random ok (Suc k) = ([], DivisionTrap)"
  by (simp_all add: random_ids_def)

end
