(* ===== verification/Coord_Query.thy ===== *)
theory Coord_Query
  imports Id_Query
begin

text \<open>
  Looking up the place nearest to a coordinate: the query loop
  (\<open>Opgave2/src/common/coord_query.c\<close>), the search through all records
  (\<open>naive/coord_query_naive.c\<close>) and the two-dimensional search tree
  (\<open>kdtree/coord_query_kdtree.c\<close>). Coordinates are exact numbers.
\<close>

section \<open>The query loop\<close>

datatype coord_answer = Nearest rat rat string rat rat | NotFoundAt rat rat

type_synonym 'i coord_lookup_fn = "'i \<Rightarrow> rat \<Rightarrow> rat \<Rightarrow> array_error + place option"

text \<open>A number as \<open>%lf\<close> reads it: white space is skipped; \<open>None\<close> if there is no digit.\<close>

definition scan_double :: "string \<Rightarrow> (rat \<times> string) option" where
  "scan_double s =
     (let s = dropWhile isspace s;
          t = snd (take_sign s);
          u = dropWhile isdigit t;
          u' = (case u of [] \<Rightarrow> [] | c # v \<Rightarrow> if c = CHR ''.'' then dropWhile isdigit v else u)
      in if u = t \<and> (u' = u \<or> u' = tl u) then None else Some (atof s, u'))"

text \<open>\<open>sscanf\<close> leaves a variable alone if its number is missing: \<open>junk\<close> is what they held.\<close>

definition sscanf_coords :: "rat \<times> rat \<Rightarrow> string \<Rightarrow> rat \<times> rat" where
  "sscanf_coords junk line =
     (case scan_double line of
        None \<Rightarrow> junk
      | Some (x, rest) \<Rightarrow> (case scan_double rest of None \<Rightarrow> (x, snd junk) | Some (y, _) \<Rightarrow> (x, y)))"

definition coord_answer_for :: "'i coord_lookup_fn \<Rightarrow> 'i \<Rightarrow> rat \<Rightarrow> rat \<Rightarrow> array_error + coord_answer" where
  "coord_answer_for lookup index x y =
     rbind (lookup index x y) (\<lambda>found. Inr (
       case found of
         Some r \<Rightarrow> Nearest x y (name r) (lon r) (lat r)
       | None \<Rightarrow> NotFoundAt x y))"

fun coord_query_lines :: "(rat \<times> rat) \<Rightarrow> 'i coord_lookup_fn \<Rightarrow> 'i \<Rightarrow> string list \<Rightarrow> array_error + coord_answer list" where
  "coord_query_lines junk lookup index [] = Inr []"
| "coord_query_lines junk lookup index (line # ls) =
     (let (x, y) = sscanf_coords junk (cstr line) in
      rbind (coord_answer_for lookup index x y) (\<lambda>a.
      rbind (coord_query_lines junk lookup index ls) (\<lambda>as. Inr (a # as))))"

definition coord_query_loop :: "(nat \<Rightarrow> place) \<Rightarrow> (rat \<times> rat) \<Rightarrow> (place list \<Rightarrow> 'i) \<Rightarrow> 'i coord_lookup_fn \<Rightarrow>
    nat \<Rightarrow> string option \<Rightarrow> string \<Rightarrow> loop_error + coord_answer list" where
  "coord_query_loop fresh junk mk_index lookup argc file inp =
     (if argc \<noteq> 2 then Inl UsageExit
      else case read_records fresh file of
             Inl e \<Rightarrow> Inl (Crash e)
           | Inr None \<Rightarrow> Inl ReadFailed
           | Inr (Some rs) \<Rightarrow>
               (case coord_query_lines junk lookup (mk_index rs) (input_lines inp) of
                  Inl e \<Rightarrow> Inl (Crash e) | Inr as \<Rightarrow> Inr as))"

section \<open>Distances\<close>

definition distanceSquared :: "rat \<Rightarrow> rat \<Rightarrow> rat \<Rightarrow> rat \<Rightarrow> rat" where
  "distanceSquared x1 y1 x2 y2 = (let dx = x1 - x2; dy = y1 - y2 in dx * dx + dy * dy)"

abbreviation dist_to :: "rat \<Rightarrow> rat \<Rightarrow> place \<Rightarrow> rat" where
  "dist_to x y r \<equiv> distanceSquared (lon r) (lat r) x y"

section \<open>Searching all records\<close>

record coord_data =
  cn_rs :: "place list"
  cn_n :: nat

definition mk_naive_coord :: "place list \<Rightarrow> coord_data" where
  "mk_naive_coord rs = \<lparr>cn_rs = rs, cn_n = length rs\<rparr>"

function nearest_from :: "coord_data \<Rightarrow> rat \<Rightarrow> rat \<Rightarrow> nat \<Rightarrow> rat \<Rightarrow> place \<Rightarrow> array_error + place" where
  "nearest_from data x y i my_dist closest =
     (if i < cn_n data then
        rbind (arr_get (cn_rs data) (int i)) (\<lambda>r.
          let dx = lon r - x; dy = lat r - y; temp_dist = dx * dx + dy * dy in
          if temp_dist < my_dist then nearest_from data x y (i + 1) temp_dist r
          else nearest_from data x y (i + 1) my_dist closest)
      else Inr closest)"
  by pat_completeness auto
termination
  by (relation "measure (\<lambda>(data, x, y, i, d, c). cn_n data - i)") auto

declare nearest_from.simps [simp del]

definition lookup_naive_coord :: "coord_data coord_lookup_fn" where
  "lookup_naive_coord data x y =
     (if cn_n data = 0 then Inr None
      else rbind (arr_get (cn_rs data) 0) (\<lambda>closest.
        rbind (nearest_from data x y 1
          ((lon closest - x) * (lon closest - x) + (lat closest - y) * (lat closest - y)) closest) (\<lambda>r. Inr (Some r))))"

lemma nearest_from_min:
  assumes "d = dist_to x y c"
  shows "\<exists>r. nearest_from (mk_naive_coord rs) x y i d c = Inr r \<and> r \<in> insert c (set (drop i rs)) \<and>
    (\<forall>q \<in> insert c (set (drop i rs)). dist_to x y r \<le> dist_to x y q)"
  using assms
proof (induction "mk_naive_coord rs" x y i d c rule: nearest_from.induct)
  case (1 x y i d c)
  show ?case
  proof (cases "i < length rs")
    case False
    then show ?thesis by (subst nearest_from.simps) (simp add: mk_naive_coord_def)
  next
    case True
    let ?r = "rs ! i"
    have i: "i < cn_n (mk_naive_coord rs)" and g: "arr_get (cn_rs (mk_naive_coord rs)) (int i) = Inr ?r"
      using True by (simp_all add: mk_naive_coord_def)
    have dr: "drop i rs = ?r # drop (i + 1) rs" using True by (simp add: Cons_nth_drop_Suc)
    have e: "(lon ?r - x) * (lon ?r - x) + (lat ?r - y) * (lat ?r - y) = dist_to x y ?r"
      by (simp add: distanceSquared_def Let_def)
    have step: "nearest_from (mk_naive_coord rs) x y i d c =
        (if dist_to x y ?r < d then nearest_from (mk_naive_coord rs) x y (i + 1) (dist_to x y ?r) ?r
         else nearest_from (mk_naive_coord rs) x y (i + 1) d c)"
      using i g by (subst nearest_from.simps) (simp add: distanceSquared_def Let_def)
    show ?thesis
    proof (cases "dist_to x y ?r < d")
      case lt: True
      with 1(1) [OF i g refl refl refl, unfolded e] obtain r where "nearest_from (mk_naive_coord rs) x y (i + 1) (dist_to x y ?r) ?r = Inr r"
        "r \<in> insert ?r (set (drop (i + 1) rs))" "\<forall>q \<in> insert ?r (set (drop (i + 1) rs)). dist_to x y r \<le> dist_to x y q"
        by blast
      with lt 1(3) step show ?thesis by (auto simp: dr)
    next
      case ge: False
      with 1(2) [OF i g refl refl refl, unfolded e] 1(3) obtain r where "nearest_from (mk_naive_coord rs) x y (i + 1) d c = Inr r"
        "r \<in> insert c (set (drop (i + 1) rs))" "\<forall>q \<in> insert c (set (drop (i + 1) rs)). dist_to x y r \<le> dist_to x y q"
        by blast
      with ge 1(3) step show ?thesis by (auto simp: dr)
    qed
  qed
qed

section \<open>The search tree\<close>

datatype kd_tree = KDNull | KDNode (pt_x: rat) (pt_y: rat) (rec: place) (left: kd_tree) (right: kd_tree)

definition compareX :: "place \<Rightarrow> place \<Rightarrow> int" where
  "compareX r1 r2 = (if lon r1 < lon r2 then - 1 else if lon r1 > lon r2 then 1 else 0)"

definition compareY :: "place \<Rightarrow> place \<Rightarrow> int" where
  "compareY r1 r2 = (if lat r1 < lat r2 then - 1 else if lat r1 > lat r2 then 1 else 0)"

definition newNode :: "place \<Rightarrow> kd_tree \<Rightarrow> kd_tree \<Rightarrow> kd_tree" where
  "newNode r l rt = KDNode (lon r) (lat r) r l rt"

type_synonym qsort_fn = "(place \<Rightarrow> place \<Rightarrow> int) \<Rightarrow> place list \<Rightarrow> place list"

text \<open>
  The recursion sorts the segment of the pointer array it is given and hands its two halves,
  without the median, on. \<open>n\<close> is the length of the segment; \<open>qs\<close> is \<open>qsort\<close>, which permutes.
\<close>

function buildKDTree :: "qsort_fn \<Rightarrow> place list \<Rightarrow> nat \<Rightarrow> nat \<Rightarrow> kd_tree" where
  "buildKDTree qs recs n depth =
     (if n = 0 then KDNull
      else let axis = depth mod 2;
               recs = (if axis = 0 then qs compareX recs else qs compareY recs);
               median = n div 2
           in newNode (recs ! median) (buildKDTree qs (take median recs) median (depth + 1))
                (buildKDTree qs (drop (median + 1) recs) (n - median - 1) (depth + 1)))"
  by pat_completeness auto
termination
  by (relation "measure (\<lambda>(qs, recs, n, depth). n)") auto

declare buildKDTree.simps [simp del]

definition mk_kd :: "qsort_fn \<Rightarrow> place list \<Rightarrow> kd_tree" where
  "mk_kd qs rs = buildKDTree qs rs (length rs) 0"

text \<open>\<open>freeKDTree\<close> frees the nodes in post-order: the model lists their records.\<close>

fun freeKDTree :: "kd_tree \<Rightarrow> place list" where
  "freeKDTree KDNull = []"
| "freeKDTree (KDNode x y r l rt) = freeKDTree l @ freeKDTree rt @ [r]"

fun lookup_tree :: "rat \<Rightarrow> rat \<Rightarrow> kd_tree \<Rightarrow> nat \<Rightarrow> place \<Rightarrow> place" where
  "lookup_tree qx qy KDNull depth closest = closest"
| "lookup_tree qx qy (KDNode px py r l rt) depth closest =
     (let node_dist = distanceSquared px py qx qy;
          closest_dist = distanceSquared (lon closest) (lat closest) qx qy;
          closest = (if node_dist < closest_dist then r else closest);
          axis = depth mod 2;
          di = (if axis = 0 then px - qx else py - qy)
      in if di < 0 then
           let closest = lookup_tree qx qy l (depth + 1) closest in
           if di * di < closest_dist then lookup_tree qx qy rt (depth + 1) closest else closest
         else
           let closest = lookup_tree qx qy rt (depth + 1) closest in
           if di * di < closest_dist then lookup_tree qx qy l (depth + 1) closest else closest)"

definition lookup_kd :: "kd_tree coord_lookup_fn" where
  "lookup_kd index x y =
     Inr (case index of
            KDNull \<Rightarrow> None
          | KDNode _ _ r _ _ \<Rightarrow> Some (lookup_tree x y index 0 r))"

section \<open>The tree that is built\<close>

fun kd_records :: "kd_tree \<Rightarrow> place multiset" where
  "kd_records KDNull = {#}"
| "kd_records (KDNode x y r l rt) = add_mset r (kd_records l + kd_records rt)"

fun kd_points_ok :: "kd_tree \<Rightarrow> bool" where
  "kd_points_ok KDNull = True"
| "kd_points_ok (KDNode x y r l rt) = (x = lon r \<and> y = lat r \<and> kd_points_ok l \<and> kd_points_ok rt)"

definition coord :: "nat \<Rightarrow> place \<Rightarrow> rat" where
  "coord depth r = (if depth mod 2 = 0 then lon r else lat r)"

text \<open>A node splits its subtree along the axis of its depth.\<close>

fun kd_split :: "nat \<Rightarrow> kd_tree \<Rightarrow> bool" where
  "kd_split depth KDNull = True"
| "kd_split depth (KDNode x y r l rt) =
     ((\<forall>q \<in># kd_records l. coord depth q \<le> coord depth r) \<and>
      (\<forall>q \<in># kd_records rt. coord depth r \<le> coord depth q) \<and>
      kd_split (depth + 1) l \<and> kd_split (depth + 1) rt)"

fun kd_height :: "kd_tree \<Rightarrow> nat" where
  "kd_height KDNull = 0"
| "kd_height (KDNode x y r l rt) = 1 + max (kd_height l) (kd_height rt)"

lemma compare_consistent: "consistent compareX" "consistent compareY"
  by (auto simp: consistent_def compareX_def compareY_def split: if_splits)

lemma compare_le: "compareX a b \<le> 0 \<longleftrightarrow> lon a \<le> lon b" "compareY a b \<le> 0 \<longleftrightarrow> lat a \<le> lat b"
  by (auto simp: compareX_def compareY_def)

lemma mset_split_nth:
  assumes "i < length xs"
  shows "mset xs = add_mset (xs ! i) (mset (take i xs) + mset (drop (i + 1) xs))"
  using arg_cong [OF id_take_nth_drop [OF assms], of mset] by simp

lemma kd_records_free: "mset (freeKDTree t) = kd_records t"
  by (induction t) auto

lemma kd_height_bounds:
  fixes m n :: nat
  assumes "n \<noteq> 0" "m = n div 2" "m < 2 ^ a" "n - m - 1 < 2 ^ b"
    and "m \<noteq> 0 \<longrightarrow> 2 ^ a \<le> 2 * m" "n - m - 1 \<noteq> 0 \<longrightarrow> 2 ^ b \<le> 2 * (n - m - 1)" "m = 0 \<longrightarrow> a = 0" "n - m - 1 = 0 \<longrightarrow> b = 0"
  shows "n < 2 ^ Suc (max a b)" "2 ^ Suc (max a b) \<le> 2 * n"
proof -
  have "(2::nat) ^ a \<le> 2 ^ max a b" "(2::nat) ^ b \<le> 2 ^ max a b" by simp_all
  then have "m < 2 ^ max a b" "n - m - 1 < 2 ^ max a b" using assms(3,4) by linarith+
  moreover have "n = m + (n - m - 1) + 1" using assms(1,2) by simp
  ultimately show "n < 2 ^ Suc (max a b)" unfolding power_Suc by linarith
  have "2 ^ a \<le> n \<and> 2 ^ b \<le> n" using assms by (cases "m = 0"; cases "n - m - 1 = 0") auto
  then show "2 ^ Suc (max a b) \<le> 2 * n" by (simp add: max_def)
qed

context place_qsort
begin

lemma build_kd:
  assumes "length recs = n"
  shows "kd_records (buildKDTree qs recs n depth) = mset recs \<and>
     kd_points_ok (buildKDTree qs recs n depth) \<and> kd_split depth (buildKDTree qs recs n depth) \<and>
     n < 2 ^ kd_height (buildKDTree qs recs n depth) \<and>
     (n \<noteq> 0 \<longrightarrow> 2 ^ kd_height (buildKDTree qs recs n depth) \<le> 2 * n)"
  using assms
proof (induction n arbitrary: recs depth rule: less_induct)
  case (less n)
  show ?case
  proof (cases "n = 0")
    case True
    with less show ?thesis by (simp add: buildKDTree.simps)
  next
    case False
    define cmp where "cmp = (if depth mod 2 = 0 then compareX else compareY)"
    define s where "s = qs cmp recs"
    let ?m = "n div 2"
    let ?l = "buildKDTree qs (take ?m s) ?m (depth + 1)" and ?r = "buildKDTree qs (drop (?m + 1) s) (n - ?m - 1) (depth + 1)"
    have c: "consistent cmp" by (simp add: cmp_def compare_consistent)
    have s: "length s = n" "mset s = mset recs" using qsort_length [OF c] qsort_perm [OF c] less(2) by (simp_all add: s_def)
    have "sorted_wrt (\<lambda>a b. cmp a b \<le> 0) s" using qsort_sorted [OF c] by (simp add: s_def)
    then have srt: "sorted_wrt (\<lambda>a b. coord depth a \<le> coord depth b) s"
      by (simp add: cmp_def coord_def compare_le split: if_splits)
    have m: "?m < n" "?m < length s" using False s(1) by auto
    have t: "buildKDTree qs recs n depth = newNode (s ! ?m) ?l ?r"
      using False by (subst buildKDTree.simps) (simp add: Let_def s_def cmp_def)
    note l = less.IH [of ?m "take ?m s" "depth + 1"] and r = less.IH [of "n - ?m - 1" "drop (?m + 1) s" "depth + 1"]
    have lr: "kd_records ?l = mset (take ?m s)" "kd_records ?r = mset (drop (?m + 1) s)"
      using l r m s(1) False by auto
    have le: "coord depth q \<le> coord depth (s ! ?m)" if "q \<in> set (take ?m s)" for q
      using that srt m(2) by (auto simp: in_set_conv_nth sorted_wrt_iff_nth_less)
    have ge: "coord depth (s ! ?m) \<le> coord depth q" if "q \<in> set (drop (?m + 1) s)" for q
      using that srt m(2) by (auto simp: in_set_conv_nth sorted_wrt_iff_nth_less)
    have h: "kd_points_ok ?l" "kd_points_ok ?r" "kd_split (depth + 1) ?l" "kd_split (depth + 1) ?r"
      "?m < 2 ^ kd_height ?l" "n - ?m - 1 < 2 ^ kd_height ?r"
      "?m \<noteq> 0 \<longrightarrow> 2 ^ kd_height ?l \<le> 2 * ?m" "n - ?m - 1 \<noteq> 0 \<longrightarrow> 2 ^ kd_height ?r \<le> 2 * (n - ?m - 1)"
      using l r m s(1) False by auto
    have "kd_records (buildKDTree qs recs n depth) = mset recs"
      using mset_split_nth [OF m(2)] lr s(2) by (simp add: t newNode_def)
    moreover have "kd_split depth (buildKDTree qs recs n depth)"
      using le ge h(3,4) lr by (simp add: t newNode_def)
    moreover have "kd_points_ok (buildKDTree qs recs n depth)"
      using h(1,2) by (simp add: t newNode_def)
    moreover have "n < 2 ^ kd_height (buildKDTree qs recs n depth) \<and> 2 ^ kd_height (buildKDTree qs recs n depth) \<le> 2 * n"
    proof -
      have "kd_height (buildKDTree qs recs n depth) = Suc (max (kd_height ?l) (kd_height ?r))"
        by (simp add: t newNode_def)
      moreover have "?m = 0 \<longrightarrow> kd_height ?l = 0" "n - ?m - 1 = 0 \<longrightarrow> kd_height ?r = 0"
        by (simp_all add: buildKDTree.simps [of qs _ 0])
      ultimately show ?thesis
        using kd_height_bounds [OF False refl h(5-8)] by presburger
    qed
    ultimately show ?thesis by simp
  qed
qed

end

section \<open>What a nearest-place index promises\<close>

definition nearest :: "place list \<Rightarrow> rat \<Rightarrow> rat \<Rightarrow> place option \<Rightarrow> bool" where
  "nearest rs x y found =
     (case found of
        None \<Rightarrow> rs = []
      | Some r \<Rightarrow> r \<in> set rs \<and> (\<forall>q \<in> set rs. dist_to x y r \<le> dist_to x y q))"

definition nearest_answer :: "rat \<times> rat \<Rightarrow> place list \<Rightarrow> string \<Rightarrow> coord_answer \<Rightarrow> bool" where
  "nearest_answer junk rs line a =
     (let (x, y) = sscanf_coords junk (cstr line) in
      case a of
        Nearest x' y' s u v \<Rightarrow> (x', y') = (x, y) \<and>
          (\<exists>r. nearest rs x y (Some r) \<and> name r = s \<and> lon r = u \<and> lat r = v)
      | NotFoundAt x' y' \<Rightarrow> (x', y') = (x, y) \<and> rs = [])"

locale nearest_index =
  fixes mk_index :: "place list \<Rightarrow> 'i"
    and lookup :: "'i coord_lookup_fn"
  assumes lookup_nearest: "\<exists>found. lookup (mk_index rs) x y = Inr found \<and> nearest rs x y found"
begin

lemma coord_lines_right:
  "\<exists>as. coord_query_lines junk lookup (mk_index rs) ls = Inr as \<and> list_all2 (nearest_answer junk rs) ls as"
proof (induction ls)
  case (Cons l ls)
  obtain x y where xy: "sscanf_coords junk (cstr l) = (x, y)" by (cases "sscanf_coords junk (cstr l)")
  obtain found where f: "lookup (mk_index rs) x y = Inr found" "nearest rs x y found"
    using lookup_nearest by blast
  define a where "a = (case found of Some r \<Rightarrow> Nearest x y (name r) (lon r) (lat r) | None \<Rightarrow> NotFoundAt x y)"
  from f xy have "nearest_answer junk rs l a"
    by (cases found) (auto simp: a_def nearest_answer_def nearest_def)
  moreover have "coord_answer_for lookup (mk_index rs) x y = Inr a"
    using f by (simp add: coord_answer_for_def a_def)
  ultimately show ?case using Cons xy by auto
qed simp

lemma coord_loop_right:
  "case coord_query_loop fresh junk mk_index lookup argc file inp of
     Inl UsageExit \<Rightarrow> argc \<noteq> 2
   | Inl ReadFailed \<Rightarrow> argc = 2 \<and> read_records fresh file = Inr None
   | Inl (Crash e) \<Rightarrow> False
   | Inr as \<Rightarrow> argc = 2 \<and> (\<exists>rs. read_records fresh file = Inr (Some rs) \<and>
        list_all2 (nearest_answer junk rs) (input_lines inp) as)"
proof -
  obtain v where v: "read_records fresh file = Inr v" using read_records_total by blast
  show ?thesis
  proof (cases v)
    case None
    with v show ?thesis by (simp add: coord_query_loop_def)
  next
    case (Some rs)
    from coord_lines_right [of junk rs "input_lines inp"] v Some show ?thesis
      by (auto simp: coord_query_loop_def)
  qed
qed

end

interpretation naive_coord: nearest_index mk_naive_coord lookup_naive_coord
proof
  fix rs x y
  show "\<exists>found. lookup_naive_coord (mk_naive_coord rs) x y = Inr found \<and> nearest rs x y found"
  proof (cases rs)
    case Nil
    then show ?thesis by (simp add: lookup_naive_coord_def mk_naive_coord_def nearest_def)
  next
    case (Cons c cs)
    let ?d = "(lon c - x) * (lon c - x) + (lat c - y) * (lat c - y)"
    have "?d = dist_to x y c" by (simp add: distanceSquared_def Let_def)
    from nearest_from_min [OF this, of rs 1] Cons obtain r where
      "nearest_from (mk_naive_coord rs) x y 1 ?d c = Inr r" "r \<in> set rs" "\<forall>q \<in> set rs. dist_to x y r \<le> dist_to x y q"
      by auto
    moreover have "cn_n (mk_naive_coord rs) \<noteq> 0" "arr_get (cn_rs (mk_naive_coord rs)) 0 = Inr c"
      using Cons by (simp_all add: mk_naive_coord_def)
    ultimately show ?thesis by (auto simp: lookup_naive_coord_def nearest_def)
  qed
qed

section \<open>What the tree search gives\<close>

lemma lookup_tree_member:
  "lookup_tree x y t depth c \<in> insert c (set_mset (kd_records t))"
proof (induction t arbitrary: depth c)
  case (KDNode px py r l rt)
  have "lookup_tree x y l d c' \<in> {c, r} \<union> set_mset (kd_records l) \<union> set_mset (kd_records rt)"
    "lookup_tree x y rt d c' \<in> {c, r} \<union> set_mset (kd_records l) \<union> set_mset (kd_records rt)"
    if "c' \<in> {c, r} \<union> set_mset (kd_records l) \<union> set_mset (kd_records rt)" for d c'
    using KDNode [of d c'] that by auto
  then show ?case
    by (simp add: Let_def)
qed simp

lemma lookup_tree_closer:
  "kd_points_ok t \<Longrightarrow> dist_to x y (lookup_tree x y t depth c) \<le> dist_to x y c"
proof (induction t arbitrary: depth c)
  case (KDNode px py r l rt)
  then have p: "px = lon r" "py = lat r" by auto
  let ?c = "if dist_to x y r < dist_to x y c then r else c"
  have "dist_to x y ?c \<le> dist_to x y c" by simp
  then have "dist_to x y (lookup_tree x y l d ?c) \<le> dist_to x y c" "dist_to x y (lookup_tree x y rt d ?c) \<le> dist_to x y c"
    "dist_to x y (lookup_tree x y l d (lookup_tree x y rt d ?c)) \<le> dist_to x y c"
    "dist_to x y (lookup_tree x y rt d (lookup_tree x y l d ?c)) \<le> dist_to x y c" for d
    using KDNode.IH KDNode.prems by (meson kd_points_ok.simps(2) order_trans)+
  then show ?case by (simp add: p Let_def)
qed simp

section \<open>Properties\<close>

text \<open>
  The naive coordinate program is right: it never accesses memory out of bounds and answers
  every line of input with a place of the data set than which none is nearer (\<open>not found\<close> only
  for an empty data set).
\<close>

theorem coord_naive_program_correct:
  "case coord_query_loop fresh junk mk_naive_coord lookup_naive_coord argc file inp of
     Inl UsageExit \<Rightarrow> argc \<noteq> 2
   | Inl ReadFailed \<Rightarrow> argc = 2 \<and> read_records fresh file = Inr None
   | Inl (Crash e) \<Rightarrow> False
   | Inr as \<Rightarrow> argc = 2 \<and> (\<exists>rs. read_records fresh file = Inr (Some rs) \<and>
        list_all2 (nearest_answer junk rs) (input_lines inp) as)"
  by (rule naive_coord.coord_loop_right)

text \<open>
  C15: The search tree is built right: it holds every record once, each node splits its subtree
  along the axis of its depth, and its height is the least possible, so that building and
  freeing it visit every record; and the lookup returns a record of the data set, at least as
  near as the root.
\<close>

theorem kd_tree_built:
  assumes "c_qsort qs"
  shows "kd_records (mk_kd qs rs) = mset rs \<and> mset (freeKDTree (mk_kd qs rs)) = mset rs \<and>
    kd_points_ok (mk_kd qs rs) \<and> kd_split 0 (mk_kd qs rs) \<and> length rs < 2 ^ kd_height (mk_kd qs rs) \<and>
    (rs = [] \<or> 2 ^ kd_height (mk_kd qs rs) \<le> 2 * length rs) \<and>
    (case lookup_kd (mk_kd qs rs) x y of
       Inl e \<Rightarrow> False
     | Inr None \<Rightarrow> rs = []
     | Inr (Some r) \<Rightarrow> r \<in> set rs \<and> dist_to x y r \<le> dist_to x y (rec (mk_kd qs rs)))"
proof -
  let ?t = "mk_kd qs rs"
  have b: "kd_records ?t = mset rs \<and> kd_points_ok ?t \<and> kd_split 0 ?t \<and> length rs < 2 ^ kd_height ?t \<and>
      (length rs \<noteq> 0 \<longrightarrow> 2 ^ kd_height ?t \<le> 2 * length rs)"
    unfolding mk_kd_def by (rule place_qsort.build_kd [OF place_qsort.intro [OF assms] refl])
  have "case lookup_kd ?t x y of
       Inl e \<Rightarrow> False
     | Inr None \<Rightarrow> rs = []
     | Inr (Some r) \<Rightarrow> r \<in> set rs \<and> dist_to x y r \<le> dist_to x y (rec ?t)"
  proof (cases ?t)
    case KDNull
    with b show ?thesis by (simp add: lookup_kd_def)
  next
    case (KDNode px py r l rt)
    have "lookup_tree x y ?t 0 r \<in> insert r (set_mset (kd_records ?t))" by (rule lookup_tree_member)
    moreover have "r \<in># kd_records ?t" using KDNode by simp
    ultimately have "lookup_tree x y ?t 0 r \<in> set rs" using b by auto
    moreover have "dist_to x y (lookup_tree x y ?t 0 r) \<le> dist_to x y r"
      using b lookup_tree_closer by blast
    ultimately show ?thesis using KDNode by (simp add: lookup_kd_def del: lookup_tree.simps)
  qed
  with b show ?thesis by (auto simp: kd_records_free)
qed

definition place_at :: "rat \<Rightarrow> rat \<Rightarrow> place" where
  "place_at x y = blank_place\<lparr>lon := x, lat := y\<rparr>"

theorem kd_tree_built_witness:
  "kd_records (mk_kd sort_by [place_at 2 1, place_at 4 0]) = mset [place_at 2 1, place_at 4 0]"
  using kd_tree_built [OF insertion_sort.c_qsort_axioms, of "[place_at 2 1, place_at 4 0]"] by blast

text \<open>
  The tree search does not always find the nearest place: it searches the far side of the
  splitting line first and visits the near side only if the line is closer than the best place
  seen before the node. On the two places at (2,1) and (4,0), the query (2,0) gives (4,0), at
  squared distance 4, although (2,1) is at distance 1.
\<close>

theorem kd_lookup_misses_nearest:
  "lookup_kd (mk_kd sort_by [place_at 2 1, place_at 4 0]) 2 0 = Inr (Some (place_at 4 0)) \<and>
   dist_to 2 0 (place_at 4 0) = 4 \<and> dist_to 2 0 (place_at 2 1) = 1 \<and> \<not> nearest_index (mk_kd sort_by) lookup_kd"
proof -
  have t: "mk_kd sort_by [place_at 2 1, place_at 4 0] =
      KDNode 4 0 (place_at 4 0) (KDNode 2 1 (place_at 2 1) KDNull KDNull) KDNull"
    by (simp add: mk_kd_def buildKDTree.simps Let_def sort_by_def compareX_def compareY_def newNode_def place_at_def)
  have l: "lookup_kd (mk_kd sort_by [place_at 2 1, place_at 4 0]) 2 0 = Inr (Some (place_at 4 0))"
    unfolding t by (simp add: lookup_kd_def distanceSquared_def place_at_def)
  have d: "dist_to 2 0 (place_at 4 0) = 4" "dist_to 2 0 (place_at 2 1) = 1"
    by (simp_all add: distanceSquared_def place_at_def)
  have "\<not> nearest [place_at 2 1, place_at 4 0] 2 0 (Some (place_at 4 0))"
    using d by (simp add: nearest_def)
  then have "\<not> nearest_index (mk_kd sort_by) lookup_kd"
    using l nearest_index.lookup_nearest [of "mk_kd sort_by" lookup_kd "[place_at 2 1, place_at 4 0]" 2 0] by auto
  with l d show ?thesis by simp
qed

end
