(* ===== verification/Job_Queue.thy ===== *)
theory Job_Queue
  imports Prelude
begin

text \<open>
  The bounded job queue shared by the multithreaded programs, \<open>Opgave3/src/job_queue.c\<close>.

  Any number of threads run \<open>job_queue_push\<close>, \<open>job_queue_pop\<close> and \<open>job_queue_destroy\<close>
  concurrently. A thread's position in the code is a value of \<open>loc\<close>; one step of the relation
  \<open>jq_step\<close> is one statement of one thread, so that every interleaving of the source is a
  sequence of steps. A mutex is the thread that holds it, if any; a condition variable is the
  set of threads that wait on it. A signal wakes one waiter if there is one, a broadcast all of
  them, and a waiter may also wake up spuriously; a woken thread takes its mutex again before it
  goes on. Once the buffer is freed no thread makes a step inside the queue: being there is
  undefined behaviour.
\<close>

section \<open>State\<close>

type_synonym tid = nat

text \<open>Positions in \<open>job_queue_push\<close>, in order; the flags are the local \<open>full\<close> and \<open>dead\<close>.\<close>

datatype push_at =
    PushLock | PushCountLock | PushLook | PushCountUnlock bool bool | PushDecide bool bool
  | PushDeadUnlock | PushWait | PushBlocked | PushStore | PushAdvance | PushCountLock2 | PushIncr
  | PushSignal | PushCountUnlock2 | PushUnlock

text \<open>Positions in \<open>job_queue_pop\<close>; the flags are \<open>empty\<close> and \<open>dead\<close>, the value is \<open>*data\<close>.\<close>

datatype 'a pop_at =
    PopLock | PopCountLock | PopLook | PopCountUnlock bool bool | PopDecide bool bool
  | PopDeadUnlock | PopWait | PopBlocked | PopRead | PopAdvance 'a | PopCountLock2 'a | PopDecr 'a
  | PopSignal 'a | PopCountUnlock2 'a | PopUnlock 'a

datatype destroy_at =
    DestroyCountLock | DestroySet | DestroyWakeEmpty | DestroyWakeFull | DestroyCountUnlock
  | PollCountLock | PollLook | PollCountUnlock int | PollDecide int | DestroyFree

datatype 'a loc =
    Idle
  | Push 'a push_at
  | Pop "'a pop_at"
  | Destroy destroy_at
  | Returned int "'a option"

record 'a job_queue =
  buffer :: "'a list"
  capacity :: nat
  count :: int
  front :: nat
  rear :: nat
  destroyed :: bool
  push_lock :: "tid option"
  pop_lock :: "tid option"
  count_lock :: "tid option"
  not_full :: "tid set"
  not_empty :: "tid set"
  freed :: bool
  code :: "tid \<Rightarrow> 'a loc"

text \<open>
  \<open>job_queue_init\<close> with a successful \<open>malloc\<close>, whose contents are arbitrary: they are the
  argument.
\<close>

definition job_queue_init :: "'a list \<Rightarrow> 'a job_queue" where
  "job_queue_init contents = \<lparr>buffer = contents, capacity = length contents, count = 0, front = 0,
     rear = 0, destroyed = False, push_lock = None, pop_lock = None, count_lock = None,
     not_full = {}, not_empty = {}, freed = False, code = (\<lambda>_. Idle)\<rparr>"

definition goto :: "tid \<Rightarrow> 'a loc \<Rightarrow> 'a job_queue \<Rightarrow> 'a job_queue" where
  "goto t l s = s\<lparr>code := (code s)(t := l)\<rparr>"

section \<open>Steps\<close>

text \<open>A step is labelled with the queue operation that takes effect in it, if any.\<close>

datatype 'a event = Enq 'a | Deq 'a | Tau

inductive push_step :: "tid \<Rightarrow> 'a \<Rightarrow> push_at \<Rightarrow> 'a job_queue \<Rightarrow> 'a event \<Rightarrow> 'a job_queue \<Rightarrow> bool" where
  push_lock: "push_lock s = None \<Longrightarrow>
    push_step t x PushLock s Tau (goto t (Push x PushCountLock) (s\<lparr>push_lock := Some t\<rparr>))"
| push_count_lock: "count_lock s = None \<Longrightarrow>
    push_step t x PushCountLock s Tau (goto t (Push x PushLook) (s\<lparr>count_lock := Some t\<rparr>))"
| push_look: "push_step t x PushLook s Tau
    (goto t (Push x (PushCountUnlock (count s = int (capacity s)) (destroyed s))) s)"
| push_count_unlock: "push_step t x (PushCountUnlock full dead) s Tau
    (goto t (Push x (PushDecide full dead)) (s\<lparr>count_lock := None\<rparr>))"
| push_dead: "push_step t x (PushDecide full True) s Tau (goto t (Push x PushDeadUnlock) s)"
| push_dead_unlock: "push_step t x PushDeadUnlock s Tau
    (goto t (Returned (- 1) None) (s\<lparr>push_lock := None\<rparr>))"
| push_break: "push_step t x (PushDecide False False) s Tau (goto t (Push x PushStore) s)"
| push_full: "push_step t x (PushDecide True False) s Tau (goto t (Push x PushWait) s)"
| push_wait: "push_step t x PushWait s Tau
    (goto t (Push x PushBlocked) (s\<lparr>push_lock := None, not_full := insert t (not_full s)\<rparr>))"
| push_wake: "t \<notin> not_full s \<Longrightarrow> push_lock s = None \<Longrightarrow>
    push_step t x PushBlocked s Tau (goto t (Push x PushCountLock) (s\<lparr>push_lock := Some t\<rparr>))"
| push_store: "push_step t x PushStore s Tau
    (goto t (Push x PushAdvance) (s\<lparr>buffer := (buffer s)[rear s := x]\<rparr>))"
| push_advance: "push_step t x PushAdvance s Tau
    (goto t (Push x PushCountLock2) (s\<lparr>rear := (rear s + 1) mod capacity s\<rparr>))"
| push_count_lock2: "count_lock s = None \<Longrightarrow>
    push_step t x PushCountLock2 s Tau (goto t (Push x PushIncr) (s\<lparr>count_lock := Some t\<rparr>))"
| push_incr: "push_step t x PushIncr s (Enq x) (goto t (Push x PushSignal) (s\<lparr>count := count s + 1\<rparr>))"
| push_signal: "u \<in> not_empty s \<or> not_empty s = {} \<Longrightarrow>
    push_step t x PushSignal s Tau
      (goto t (Push x PushCountUnlock2) (s\<lparr>not_empty := not_empty s - {u}\<rparr>))"
| push_count_unlock2: "push_step t x PushCountUnlock2 s Tau
    (goto t (Push x PushUnlock) (s\<lparr>count_lock := None\<rparr>))"
| push_unlock: "push_step t x PushUnlock s Tau (goto t (Returned 0 None) (s\<lparr>push_lock := None\<rparr>))"

inductive pop_step :: "tid \<Rightarrow> 'a pop_at \<Rightarrow> 'a job_queue \<Rightarrow> 'a event \<Rightarrow> 'a job_queue \<Rightarrow> bool" where
  pop_lock: "pop_lock s = None \<Longrightarrow>
    pop_step t PopLock s Tau (goto t (Pop PopCountLock) (s\<lparr>pop_lock := Some t\<rparr>))"
| pop_count_lock: "count_lock s = None \<Longrightarrow>
    pop_step t PopCountLock s Tau (goto t (Pop PopLook) (s\<lparr>count_lock := Some t\<rparr>))"
| pop_look: "pop_step t PopLook s Tau
    (goto t (Pop (PopCountUnlock (count s = 0) (destroyed s))) s)"
| pop_count_unlock: "pop_step t (PopCountUnlock emp dead) s Tau
    (goto t (Pop (PopDecide emp dead)) (s\<lparr>count_lock := None\<rparr>))"
| pop_dead: "pop_step t (PopDecide True True) s Tau (goto t (Pop PopDeadUnlock) s)"
| pop_dead_unlock: "pop_step t PopDeadUnlock s Tau
    (goto t (Returned (- 1) None) (s\<lparr>pop_lock := None\<rparr>))"
| pop_break: "pop_step t (PopDecide False dead) s Tau (goto t (Pop PopRead) s)"
| pop_empty: "pop_step t (PopDecide True False) s Tau (goto t (Pop PopWait) s)"
| pop_wait: "pop_step t PopWait s Tau
    (goto t (Pop PopBlocked) (s\<lparr>pop_lock := None, not_empty := insert t (not_empty s)\<rparr>))"
| pop_wake: "t \<notin> not_empty s \<Longrightarrow> pop_lock s = None \<Longrightarrow>
    pop_step t PopBlocked s Tau (goto t (Pop PopCountLock) (s\<lparr>pop_lock := Some t\<rparr>))"
| pop_read: "pop_step t PopRead s Tau (goto t (Pop (PopAdvance (buffer s ! front s))) s)"
| pop_advance: "pop_step t (PopAdvance x) s Tau
    (goto t (Pop (PopCountLock2 x)) (s\<lparr>front := (front s + 1) mod capacity s\<rparr>))"
| pop_count_lock2: "count_lock s = None \<Longrightarrow>
    pop_step t (PopCountLock2 x) s Tau (goto t (Pop (PopDecr x)) (s\<lparr>count_lock := Some t\<rparr>))"
| pop_decr: "pop_step t (PopDecr x) s (Deq x) (goto t (Pop (PopSignal x)) (s\<lparr>count := count s - 1\<rparr>))"
| pop_signal: "u \<in> not_full s \<or> not_full s = {} \<Longrightarrow>
    pop_step t (PopSignal x) s Tau
      (goto t (Pop (PopCountUnlock2 x)) (s\<lparr>not_full := not_full s - {u}\<rparr>))"
| pop_count_unlock2: "pop_step t (PopCountUnlock2 x) s Tau
    (goto t (Pop (PopUnlock x)) (s\<lparr>count_lock := None\<rparr>))"
| pop_unlock: "pop_step t (PopUnlock x) s Tau
    (goto t (Returned 0 (Some x)) (s\<lparr>pop_lock := None\<rparr>))"

inductive destroy_step :: "tid \<Rightarrow> destroy_at \<Rightarrow> 'a job_queue \<Rightarrow> 'a event \<Rightarrow> 'a job_queue \<Rightarrow> bool" where
  destroy_count_lock: "count_lock s = None \<Longrightarrow>
    destroy_step t DestroyCountLock s Tau (goto t (Destroy DestroySet) (s\<lparr>count_lock := Some t\<rparr>))"
| destroy_set: "destroy_step t DestroySet s Tau
    (goto t (Destroy DestroyWakeEmpty) (s\<lparr>destroyed := True\<rparr>))"
| destroy_wake_empty: "destroy_step t DestroyWakeEmpty s Tau
    (goto t (Destroy DestroyWakeFull) (s\<lparr>not_empty := {}\<rparr>))"
| destroy_wake_full: "destroy_step t DestroyWakeFull s Tau
    (goto t (Destroy DestroyCountUnlock) (s\<lparr>not_full := {}\<rparr>))"
| destroy_count_unlock: "destroy_step t DestroyCountUnlock s Tau
    (goto t (Destroy PollCountLock) (s\<lparr>count_lock := None\<rparr>))"
| poll_count_lock: "count_lock s = None \<Longrightarrow>
    destroy_step t PollCountLock s Tau (goto t (Destroy PollLook) (s\<lparr>count_lock := Some t\<rparr>))"
| poll_look: "destroy_step t PollLook s Tau (goto t (Destroy (PollCountUnlock (count s))) s)"
| poll_count_unlock: "destroy_step t (PollCountUnlock remaining) s Tau
    (goto t (Destroy (PollDecide remaining)) (s\<lparr>count_lock := None\<rparr>))"
| poll_break: "destroy_step t (PollDecide 0) s Tau (goto t (Destroy DestroyFree) s)"
| poll_yield: "remaining \<noteq> 0 \<Longrightarrow>
    destroy_step t (PollDecide remaining) s Tau (goto t (Destroy PollCountLock) s)"
| destroy_free: "destroy_step t DestroyFree s Tau (goto t (Returned 0 None) (s\<lparr>freed := True\<rparr>))"

text \<open>The clients call and return at any time; waiters may wake up without a signal.\<close>

inductive run_step :: "'a job_queue \<Rightarrow> tid \<Rightarrow> 'a event \<Rightarrow> 'a job_queue \<Rightarrow> bool" where
  run_push: "code s t = Push x p \<Longrightarrow> push_step t x p s e s' \<Longrightarrow> run_step s t e s'"
| run_pop: "code s t = Pop p' \<Longrightarrow> pop_step t p' s e s' \<Longrightarrow> run_step s t e s'"
| run_destroy: "code s t = Destroy d \<Longrightarrow> destroy_step t d s e s' \<Longrightarrow> run_step s t e s'"

inductive jq_step :: "'a job_queue \<Rightarrow> tid \<Rightarrow> 'a event \<Rightarrow> 'a job_queue \<Rightarrow> bool" where
  step_run: "\<not> freed s \<Longrightarrow> run_step s t e s' \<Longrightarrow> jq_step s t e s'"
| call_push: "code s t = Idle \<Longrightarrow> jq_step s t Tau (goto t (Push x PushLock) s)"
| call_pop: "code s t = Idle \<Longrightarrow> jq_step s t Tau (goto t (Pop PopLock) s)"
| call_destroy: "code s t = Idle \<Longrightarrow> jq_step s t Tau (goto t (Destroy DestroyCountLock) s)"
| call_return: "code s t = Returned r x \<Longrightarrow> jq_step s t Tau (goto t Idle s)"
| spurious: "\<not> freed s \<Longrightarrow>
    jq_step s t Tau (s\<lparr>not_full := not_full s - {t}, not_empty := not_empty s - {t}\<rparr>)"

text \<open>A run: the operations that took effect, in order.\<close>

inductive jq_run :: "'a job_queue \<Rightarrow> 'a event list \<Rightarrow> 'a job_queue \<Rightarrow> bool" where
  jq_nil: "jq_run s [] s"
| jq_snoc: "jq_run s es s' \<Longrightarrow> jq_step s' t e s'' \<Longrightarrow> jq_run s (es @ [e]) s''"

section \<open>Locking\<close>

fun holds_push :: "'a loc \<Rightarrow> bool" where
  "holds_push (Push x PushLock) = False"
| "holds_push (Push x PushBlocked) = False"
| "holds_push (Push x _) = True"
| "holds_push _ = False"

fun holds_pop :: "'a loc \<Rightarrow> bool" where
  "holds_pop (Pop PopLock) = False"
| "holds_pop (Pop PopBlocked) = False"
| "holds_pop (Pop _) = True"
| "holds_pop _ = False"

fun holds_count :: "'a loc \<Rightarrow> bool" where
  "holds_count (Push x PushLook) = True"
| "holds_count (Push x (PushCountUnlock f d)) = True"
| "holds_count (Push x PushIncr) = True"
| "holds_count (Push x PushSignal) = True"
| "holds_count (Push x PushCountUnlock2) = True"
| "holds_count (Pop PopLook) = True"
| "holds_count (Pop (PopCountUnlock f d)) = True"
| "holds_count (Pop (PopDecr v)) = True"
| "holds_count (Pop (PopSignal v)) = True"
| "holds_count (Pop (PopCountUnlock2 v)) = True"
| "holds_count (Destroy DestroySet) = True"
| "holds_count (Destroy DestroyWakeEmpty) = True"
| "holds_count (Destroy DestroyWakeFull) = True"
| "holds_count (Destroy DestroyCountUnlock) = True"
| "holds_count (Destroy PollLook) = True"
| "holds_count (Destroy (PollCountUnlock r)) = True"
| "holds_count _ = False"

definition lock_inv :: "'a job_queue \<Rightarrow> bool" where
  "lock_inv s \<longleftrightarrow> (\<forall>t. (holds_push (code s t) \<longleftrightarrow> push_lock s = Some t) \<and>
     (holds_pop (code s t) \<longleftrightarrow> pop_lock s = Some t) \<and> (holds_count (code s t) \<longleftrightarrow> count_lock s = Some t))"

lemma goto_sel [simp]:
  "buffer (goto t l s) = buffer s" "capacity (goto t l s) = capacity s" "count (goto t l s) = count s"
  "front (goto t l s) = front s" "rear (goto t l s) = rear s" "destroyed (goto t l s) = destroyed s"
  "push_lock (goto t l s) = push_lock s" "pop_lock (goto t l s) = pop_lock s"
  "count_lock (goto t l s) = count_lock s" "not_full (goto t l s) = not_full s"
  "not_empty (goto t l s) = not_empty s" "freed (goto t l s) = freed s"
  "code (goto t l s) = (code s)(t := l)"
  by (simp_all add: goto_def)

lemma lock_inv_init: "lock_inv (job_queue_init b)"
  by (simp add: lock_inv_def job_queue_init_def)

lemma lock_inv_D:
  assumes "lock_inv s"
  shows "push_lock s = Some t \<longleftrightarrow> holds_push (code s t)" "pop_lock s = Some t \<longleftrightarrow> holds_pop (code s t)"
    "count_lock s = Some t \<longleftrightarrow> holds_count (code s t)"
  using assms by (auto simp: lock_inv_def)

lemma lock_inv_goto:
  assumes "lock_inv s" "\<And>u. u \<noteq> t \<Longrightarrow> (push_lock s' = Some u) = (push_lock s = Some u) \<and>
      (pop_lock s' = Some u) = (pop_lock s = Some u) \<and> (count_lock s' = Some u) = (count_lock s = Some u)"
    "code s' = code s"
    "holds_push l = (push_lock s' = Some t)" "holds_pop l = (pop_lock s' = Some t)"
    "holds_count l = (count_lock s' = Some t)"
  shows "lock_inv (goto t l s')"
  using assms by (auto simp: lock_inv_def)

lemma push_step_lock_inv:
  assumes "push_step t x p s e s'" "lock_inv s" "code s t = Push x p"
  shows "lock_inv s'"
  using assms lock_inv_D [OF assms(2), of t]
  by (cases rule: push_step.cases) (auto intro!: lock_inv_goto [OF assms(2)])

lemma pop_step_lock_inv:
  assumes "pop_step t p s e s'" "lock_inv s" "code s t = Pop p"
  shows "lock_inv s'"
  using assms lock_inv_D [OF assms(2), of t]
  by (cases rule: pop_step.cases) (auto intro!: lock_inv_goto [OF assms(2)])

lemma destroy_step_lock_inv:
  assumes "destroy_step t d s e s'" "lock_inv s" "code s t = Destroy d"
  shows "lock_inv s'"
  using assms lock_inv_D [OF assms(2), of t]
  by (cases rule: destroy_step.cases) (auto intro!: lock_inv_goto [OF assms(2)])

lemma jq_step_lock_inv:
  assumes "jq_step s t e s'" "lock_inv s"
  shows "lock_inv s'"
  using assms
proof cases
  case step_run
  from step_run(2) assms(2) show ?thesis
    by cases (auto intro: push_step_lock_inv pop_step_lock_inv destroy_step_lock_inv)
next
  case spurious
  with assms(2) show ?thesis by (simp add: lock_inv_def)
qed (use lock_inv_D [OF assms(2), of t] in \<open>auto intro!: lock_inv_goto [OF assms(2)]\<close>)

lemma jq_run_lock_inv: "jq_run s es s' \<Longrightarrow> lock_inv s \<Longrightarrow> lock_inv s'"
  by (induction rule: jq_run.induct) (auto intro: jq_step_lock_inv)

section \<open>The bounded queue\<close>

text \<open>What the component promises: jobs leave in the order they entered, at most \<open>n\<close> wait.\<close>

inductive fifo_step :: "nat \<Rightarrow> 'a list \<Rightarrow> 'a event \<Rightarrow> 'a list \<Rightarrow> bool" where
  fifo_enq: "length q < n \<Longrightarrow> fifo_step n q (Enq x) (q @ [x])"
| fifo_deq: "fifo_step n (x # q) (Deq x) q"
| fifo_tau: "fifo_step n q Tau q"

inductive_simps fifo_step_simps [simp]:
  "fifo_step n q (Enq x) q'" "fifo_step n q (Deq x) q'" "fifo_step n q Tau q'"

text \<open>
  What the thread that holds a lock knows: that there is room or a job, the job it has stored or
  fetched, and whether it has moved its index already although \<open>count\<close> is still to follow.
\<close>

fun sees_room :: "'a loc option \<Rightarrow> bool" where
  "sees_room (Some (Push x (PushCountUnlock full dead))) = (\<not> full)"
| "sees_room (Some (Push x (PushDecide full dead))) = (\<not> full)"
| "sees_room (Some (Push x PushStore)) = True"
| "sees_room (Some (Push x PushAdvance)) = True"
| "sees_room (Some (Push x PushCountLock2)) = True"
| "sees_room (Some (Push x PushIncr)) = True"
| "sees_room _ = False"

fun stored :: "'a loc option \<Rightarrow> 'a option" where
  "stored (Some (Push x PushAdvance)) = Some x"
| "stored (Some (Push x PushCountLock2)) = Some x"
| "stored (Some (Push x PushIncr)) = Some x"
| "stored _ = None"

fun rear_moved :: "'a loc option \<Rightarrow> nat" where
  "rear_moved (Some (Push x PushCountLock2)) = 1"
| "rear_moved (Some (Push x PushIncr)) = 1"
| "rear_moved _ = 0"

fun sees_job :: "'a loc option \<Rightarrow> bool" where
  "sees_job (Some (Pop (PopCountUnlock emp dead))) = (\<not> emp)"
| "sees_job (Some (Pop (PopDecide emp dead))) = (\<not> emp)"
| "sees_job (Some (Pop PopRead)) = True"
| "sees_job (Some (Pop (PopAdvance x))) = True"
| "sees_job (Some (Pop (PopCountLock2 x))) = True"
| "sees_job (Some (Pop (PopDecr x))) = True"
| "sees_job _ = False"

fun fetched :: "'a loc option \<Rightarrow> 'a option" where
  "fetched (Some (Pop (PopAdvance x))) = Some x"
| "fetched (Some (Pop (PopCountLock2 x))) = Some x"
| "fetched (Some (Pop (PopDecr x))) = Some x"
| "fetched _ = None"

fun front_moved :: "'a loc option \<Rightarrow> nat" where
  "front_moved (Some (Pop (PopCountLock2 x))) = 1"
| "front_moved (Some (Pop (PopDecr x))) = 1"
| "front_moved _ = 0"

text \<open>
  The ring buffer holds the queue from position \<open>h\<close> on; \<open>count\<close> is its length. The two
  arguments \<open>w\<close> and \<open>r\<close> are the positions of the threads that hold the push and the pop lock.
\<close>

definition ring :: "'a job_queue \<Rightarrow> 'a loc option \<Rightarrow> 'a loc option \<Rightarrow> 'a list \<Rightarrow> nat \<Rightarrow> bool" where
  "ring s w r q h \<longleftrightarrow>
     0 < capacity s \<and> length (buffer s) = capacity s \<and> count s = int (length q) \<and> length q \<le> capacity s \<and>
     (\<forall>i < length q. buffer s ! ((h + i) mod capacity s) = q ! i) \<and>
     front s = (h + front_moved r) mod capacity s \<and>
     rear s = (h + length q + rear_moved w) mod capacity s \<and>
     (sees_room w \<longrightarrow> length q < capacity s) \<and>
     (\<forall>x. stored w = Some x \<longrightarrow> buffer s ! ((h + length q) mod capacity s) = x) \<and>
     (sees_job r \<longrightarrow> q \<noteq> []) \<and> (\<forall>x. fetched r = Some x \<longrightarrow> x = hd q)"

definition writer :: "'a job_queue \<Rightarrow> 'a loc option" where
  "writer s = map_option (code s) (push_lock s)"

definition reader :: "'a job_queue \<Rightarrow> 'a loc option" where
  "reader s = map_option (code s) (pop_lock s)"

definition holds_queue :: "'a job_queue \<Rightarrow> 'a list \<Rightarrow> bool" where
  "holds_queue s q \<longleftrightarrow> (\<exists>h. ring s (writer s) (reader s) q h)"

lemma holds_queue_init: "b \<noteq> [] \<Longrightarrow> holds_queue (job_queue_init b) []"
  by (auto simp: holds_queue_def ring_def job_queue_init_def writer_def reader_def intro: exI [of _ 0])

lemma writer_push:
  assumes "lock_inv s" "code s t = Push x p"
  shows "writer (goto t l s') = (if push_lock s' = Some t then Some l else map_option (code s') (push_lock s'))"
    and "code s' = code s \<Longrightarrow> pop_lock s' = pop_lock s \<Longrightarrow> reader (goto t l s') = reader s"
    and "holds_push (Push x p) \<Longrightarrow> writer s = Some (Push x p)"
    and "\<not> holds_push (Push x p) \<Longrightarrow> push_lock s \<noteq> Some t"
  using assms lock_inv_D [OF assms(1), of t] by (auto simp: writer_def reader_def map_option_case split: option.splits)

lemma mod_add_distinct:
  fixes i j n h :: nat
  assumes "i < j" "j < n"
  shows "(h + i) mod n \<noteq> (h + j) mod n"
proof
  assume "(h + i) mod n = (h + j) mod n"
  then have "n dvd (h + j) - (h + i)"
    using assms by (metis mod_eq_dvd_iff_nat add_le_cancel_left less_imp_le)
  with assms show False by (simp add: nat_dvd_not_less)
qed

lemma ring_frame [simp]:
  "ring (goto t l s) w r q h = ring s w r q h"
  "ring (s\<lparr>push_lock := a\<rparr>) w r q h = ring s w r q h" "ring (s\<lparr>pop_lock := a\<rparr>) w r q h = ring s w r q h"
  "ring (s\<lparr>count_lock := a\<rparr>) w r q h = ring s w r q h" "ring (s\<lparr>not_full := b\<rparr>) w r q h = ring s w r q h"
  "ring (s\<lparr>not_empty := b\<rparr>) w r q h = ring s w r q h" "ring (s\<lparr>destroyed := c\<rparr>) w r q h = ring s w r q h"
  "ring (s\<lparr>freed := c\<rparr>) w r q h = ring s w r q h"
  by (simp_all add: ring_def)

text \<open>A writer that learns nothing and has no job stored leaves the relation alone.\<close>

lemma ring_writer:
  "ring s w r q h \<Longrightarrow> rear_moved w' = rear_moved w \<Longrightarrow> (sees_room w' \<Longrightarrow> sees_room w \<or> length q < capacity s) \<Longrightarrow>
     stored w' = stored w \<or> stored w' = None \<Longrightarrow> ring s w' r q h"
  by (auto simp: ring_def)

lemma ring_reader:
  "ring s w r q h \<Longrightarrow> front_moved r' = front_moved r \<Longrightarrow> (sees_job r' \<Longrightarrow> sees_job r \<or> q \<noteq> []) \<Longrightarrow>
     fetched r' = fetched r \<or> fetched r' = None \<Longrightarrow> ring s w r' q h"
  by (auto simp: ring_def)

lemma ring_store:
  assumes "ring s (Some (Push x PushStore)) r q h"
  shows "ring (s\<lparr>buffer := (buffer s)[rear s := x]\<rparr>) (Some (Push x PushAdvance)) r q h"
proof -
  have "rear s < length (buffer s)" "rear s = (h + length q) mod capacity s" "length q < capacity s"
    using assms by (simp_all add: ring_def)
  moreover from this assms mod_add_distinct [of _ "length q" "capacity s" h]
  have "(buffer s)[rear s := x] ! ((h + i) mod capacity s) = q ! i" if "i < length q" for i
    using that by (simp add: ring_def nth_list_update_neq [OF not_sym])
  ultimately show ?thesis using assms by (simp add: ring_def)
qed

lemma fetched_sees_job: "fetched r = Some x \<Longrightarrow> sees_job r"
  by (cases r rule: fetched.cases) auto

lemma ring_push_advance:
  assumes "ring s (Some (Push x PushAdvance)) r q h"
  shows "ring (s\<lparr>rear := (rear s + 1) mod capacity s\<rparr>) (Some (Push x PushCountLock2)) r q h"
  using assms by (auto simp: ring_def mod_Suc_eq)

lemma ring_incr:
  assumes "ring s (Some (Push x PushIncr)) r q h"
  shows "ring (s\<lparr>count := count s + 1\<rparr>) (Some (Push x PushSignal)) r (q @ [x]) h"
  using assms fetched_sees_job [of r] by (auto simp: ring_def nth_append less_Suc_eq)

lemma ring_read:
  assumes "ring s w (Some (Pop PopRead)) q h"
  shows "ring s w (Some (Pop (PopAdvance (buffer s ! front s)))) q h"
proof -
  from assms have "q \<noteq> []" "buffer s ! (h mod capacity s) = q ! 0" by (auto simp: ring_def)
  with assms show ?thesis by (auto simp: ring_def hd_conv_nth)
qed

lemma ring_pop_advance:
  assumes "ring s w (Some (Pop (PopAdvance x))) q h"
  shows "ring (s\<lparr>front := (front s + 1) mod capacity s\<rparr>) w (Some (Pop (PopCountLock2 x))) q h"
  using assms by (auto simp: ring_def mod_Suc_eq)

lemma ring_decr:
  assumes "ring s w (Some (Pop (PopDecr x))) q h"
  shows "q = x # tl q" and "ring (s\<lparr>count := count s - 1\<rparr>) w (Some (Pop (PopSignal x))) (tl q) (h + 1)"
proof -
  from assms show q: "q = x # tl q" by (cases q) (auto simp: ring_def)
  then obtain q' where q': "q = x # q'" by blast
  have "buffer s ! ((h + 1 + i) mod capacity s) = q' ! i" if "i < length q'" for i
    using assms that by (auto simp: ring_def q' dest: spec [of _ "Suc i"])
  with assms show "ring (s\<lparr>count := count s - 1\<rparr>) w (Some (Pop (PopSignal x))) (tl q) (h + 1)"
    by (auto simp: ring_def q')
qed

lemma sim_push_keep:
  assumes inv: "lock_inv s" and at: "code s t = Push x p" and q: "ring s (writer s) (reader s) q h"
    and s1: "code s1 = code s" "pop_lock s1 = pop_lock s" "ring s1 (writer s) (reader s) q h"
    and lk: "push_lock s1 = Some t \<or> push_lock s1 = None"
    and ok: "rear_moved (if push_lock s1 = None then None else Some l) = rear_moved (writer s)"
      "sees_room (if push_lock s1 = None then None else Some l) \<Longrightarrow> sees_room (writer s) \<or> count s1 \<noteq> int (capacity s1)"
      "stored (if push_lock s1 = None then None else Some l) = stored (writer s) \<or>
       stored (if push_lock s1 = None then None else Some l) = None"
  shows "\<exists>q' h'. fifo_step n q Tau q' \<and> ring (goto t l s1) (writer (goto t l s1)) (reader (goto t l s1)) q' h'"
proof -
  let ?w = "if push_lock s1 = None then None else Some l"
  have "length q < capacity s1" if "sees_room ?w"
    using ok(2) [OF that] s1(3) by (auto simp: ring_def)
  then have "ring s1 ?w (reader s) q h"
    using ok by (intro ring_writer [OF s1(3)]) blast+
  moreover have "writer (goto t l s1) = ?w" "reader (goto t l s1) = reader s"
    using lk s1(1,2) writer_push [OF inv at] by auto
  ultimately show ?thesis by auto
qed

lemma push_step_sim:
  assumes st: "push_step t x p s e s'" and inv: "lock_inv s" and at: "code s t = Push x p"
    and q: "ring s (writer s) (reader s) q h"
  shows "\<exists>q' h'. fifo_step (capacity s) q e q' \<and> ring s' (writer s') (reader s') q' h'"
proof -
  note w = writer_push [OF inv at]
  have lk: "push_lock s = Some t \<longleftrightarrow> holds_push (Push x p)" using lock_inv_D [OF inv, of t] at by simp
  have wn: "push_lock s = None \<Longrightarrow> writer s = None" by (simp add: writer_def)
  note keep = sim_push_keep [OF inv at q]
  from st show ?thesis
  proof cases
    case push_store
    then show ?thesis using w lk q ring_store [of s x "reader s" q h] by auto
  next
    case push_advance
    then show ?thesis using w lk q ring_push_advance [of s x "reader s" q h] by auto
  next
    case push_incr
    moreover from this have "length q < capacity s" using w(3) q by (simp add: ring_def)
    ultimately show ?thesis using w lk q ring_incr [of s x "reader s" q h] by auto
  qed (clarify, rule keep; (use lk w(3) wn q in \<open>auto\<close>))+
qed

lemma reader_pop:
  assumes "lock_inv s" "code s t = Pop p"
  shows "reader (goto t l s') = (if pop_lock s' = Some t then Some l else map_option (code s') (pop_lock s'))"
    and "code s' = code s \<Longrightarrow> push_lock s' = push_lock s \<Longrightarrow> writer (goto t l s') = writer s"
    and "holds_pop (Pop p) \<Longrightarrow> reader s = Some (Pop p)"
    and "\<not> holds_pop (Pop p) \<Longrightarrow> pop_lock s \<noteq> Some t"
  using assms lock_inv_D [OF assms(1), of t] by (auto simp: writer_def reader_def map_option_case split: option.splits)

lemma sim_pop_keep:
  assumes inv: "lock_inv s" and at: "code s t = Pop p" and q: "ring s (writer s) (reader s) q h"
    and s1: "code s1 = code s" "push_lock s1 = push_lock s" "ring s1 (writer s) (reader s) q h"
    and lk: "pop_lock s1 = Some t \<or> pop_lock s1 = None"
    and ok: "front_moved (if pop_lock s1 = None then None else Some l) = front_moved (reader s)"
      "sees_job (if pop_lock s1 = None then None else Some l) \<Longrightarrow> sees_job (reader s) \<or> count s1 \<noteq> 0"
      "fetched (if pop_lock s1 = None then None else Some l) = fetched (reader s) \<or>
       fetched (if pop_lock s1 = None then None else Some l) = None"
  shows "\<exists>q' h'. fifo_step n q Tau q' \<and> ring (goto t l s1) (writer (goto t l s1)) (reader (goto t l s1)) q' h'"
proof -
  let ?w = "if pop_lock s1 = None then None else Some l"
  have "q \<noteq> []" if "sees_job ?w"
    using ok(2) [OF that] s1(3) by (auto simp: ring_def)
  then have "ring s1 (writer s) ?w q h"
    using ok by (intro ring_reader [OF s1(3)]) blast+
  moreover have "reader (goto t l s1) = ?w" "writer (goto t l s1) = writer s"
    using lk s1(1,2) reader_pop [OF inv at] by auto
  ultimately show ?thesis by auto
qed

lemma pop_step_sim:
  assumes st: "pop_step t p s e s'" and inv: "lock_inv s" and at: "code s t = Pop p"
    and q: "ring s (writer s) (reader s) q h"
  shows "\<exists>q' h'. fifo_step (capacity s) q e q' \<and> ring s' (writer s') (reader s') q' h'"
proof -
  note w = reader_pop [OF inv at]
  have lk: "pop_lock s = Some t \<longleftrightarrow> holds_pop (Pop p)" using lock_inv_D [OF inv, of t] at by simp
  have wn: "pop_lock s = None \<Longrightarrow> reader s = None" by (simp add: reader_def)
  note keep = sim_pop_keep [OF inv at q]
  from st show ?thesis
  proof cases
    case pop_read
    then show ?thesis using w lk q ring_read [of s "writer s" q h] by auto
  next
    case (pop_advance x)
    then show ?thesis using w lk q ring_pop_advance [of s "writer s" x q h] by auto
  next
    case (pop_decr x)
    then show ?thesis using w lk q ring_decr [of s "writer s" x q h] by fastforce
  qed (clarify, rule keep; (use lk w(3) wn q in \<open>auto\<close>))+
qed

lemma destroy_step_sim:
  assumes st: "destroy_step t d s e s'" and inv: "lock_inv s" and at: "code s t = Destroy d"
    and q: "ring s (writer s) (reader s) q h"
  shows "e = Tau \<and> ring s' (writer s') (reader s') q h"
proof -
  have "push_lock s \<noteq> Some t" "pop_lock s \<noteq> Some t"
    using lock_inv_D [OF inv, of t] at by simp_all
  then have "writer (goto t l s1) = writer s" "reader (goto t l s1) = reader s"
    if "code s1 = code s" "push_lock s1 = push_lock s" "pop_lock s1 = pop_lock s" for l s1
    using that by (auto simp: writer_def reader_def map_option_case split: option.splits)
  with st q show ?thesis by cases auto
qed

lemma jq_step_sim:
  assumes st: "jq_step s t e s'" and inv: "lock_inv s" and q: "ring s (writer s) (reader s) q h"
  shows "\<exists>q' h'. fifo_step (capacity s) q e q' \<and> ring s' (writer s') (reader s') q' h'"
proof -
  have idle: "writer (goto t l s) = writer s \<and> reader (goto t l s) = reader s"
    if "\<not> holds_push (code s t)" "\<not> holds_pop (code s t)" for l
    using that lock_inv_D [OF inv, of t]
    by (auto simp: writer_def reader_def map_option_case split: option.splits)
  from st show ?thesis
  proof cases
    case step_run
    from step_run(2) show ?thesis
      using push_step_sim [OF _ inv _ q] pop_step_sim [OF _ inv _ q] destroy_step_sim [OF _ inv _ q]
      by cases (blast intro: fifo_tau)+
  next
    case spurious
    with q show ?thesis by (auto simp: writer_def reader_def)
  qed (use idle q in auto)
qed

lemma jq_step_capacity:
  assumes "jq_step s t e s'" shows "capacity s' = capacity s"
  using assms
proof cases
  case step_run
  from step_run(2) show ?thesis
    by (auto elim!: run_step.cases push_step.cases pop_step.cases destroy_step.cases)
qed auto

inductive fifo_run :: "nat \<Rightarrow> 'a list \<Rightarrow> 'a event list \<Rightarrow> 'a list \<Rightarrow> bool" where
  fifo_nil: "fifo_run n q [] q"
| fifo_snoc: "fifo_run n q es q' \<Longrightarrow> fifo_step n q' e q'' \<Longrightarrow> fifo_run n q (es @ [e]) q''"

lemma jq_run_sim:
  assumes "jq_run (job_queue_init b) es s" "b \<noteq> []"
  shows "capacity s = length b \<and> (\<exists>q. fifo_run (length b) [] es q \<and> holds_queue s q)"
  using assms
proof (induction "job_queue_init b" es s rule: jq_run.induct)
  case jq_nil
  then show ?case using holds_queue_init [of b]
    by (auto simp: job_queue_init_def intro: fifo_run.intros)
next
  case (jq_snoc es s' t e s'')
  then obtain q h where q: "fifo_run (length b) [] es q" "ring s' (writer s') (reader s') q h" "capacity s' = length b"
    by (auto simp: holds_queue_def)
  have "lock_inv s'" using jq_run_lock_inv [OF jq_snoc(1) lock_inv_init] .
  from jq_step_sim [OF jq_snoc(3) this q(2)] obtain q' h' where
    "fifo_step (capacity s') q e q'" "ring s'' (writer s'') (reader s'') q' h'" by blast
  with q jq_step_capacity [OF jq_snoc(3)] show ?case
    by (auto simp: holds_queue_def intro: fifo_snoc)
qed

section \<open>Executing a schedule\<close>

text \<open>
  The same steps as functions: the next step of a thread, given which waiter a signal wakes.
  \<open>None\<close> means the thread has to wait.
\<close>

fun push_next :: "tid \<Rightarrow> tid \<Rightarrow> 'a \<Rightarrow> push_at \<Rightarrow> 'a job_queue \<Rightarrow> ('a event \<times> 'a job_queue) option" where
  "push_next t u x PushLock s = (if push_lock s = None
     then Some (Tau, goto t (Push x PushCountLock) (s\<lparr>push_lock := Some t\<rparr>)) else None)"
| "push_next t u x PushCountLock s = (if count_lock s = None
     then Some (Tau, goto t (Push x PushLook) (s\<lparr>count_lock := Some t\<rparr>)) else None)"
| "push_next t u x PushLook s =
     Some (Tau, goto t (Push x (PushCountUnlock (count s = int (capacity s)) (destroyed s))) s)"
| "push_next t u x (PushCountUnlock full dead) s =
     Some (Tau, goto t (Push x (PushDecide full dead)) (s\<lparr>count_lock := None\<rparr>))"
| "push_next t u x (PushDecide full dead) s =
     Some (Tau, goto t (Push x (if dead then PushDeadUnlock else if \<not> full then PushStore else PushWait)) s)"
| "push_next t u x PushDeadUnlock s = Some (Tau, goto t (Returned (- 1) None) (s\<lparr>push_lock := None\<rparr>))"
| "push_next t u x PushWait s =
     Some (Tau, goto t (Push x PushBlocked) (s\<lparr>push_lock := None, not_full := insert t (not_full s)\<rparr>))"
| "push_next t u x PushBlocked s = (if t \<notin> not_full s \<and> push_lock s = None
     then Some (Tau, goto t (Push x PushCountLock) (s\<lparr>push_lock := Some t\<rparr>)) else None)"
| "push_next t u x PushStore s =
     Some (Tau, goto t (Push x PushAdvance) (s\<lparr>buffer := (buffer s)[rear s := x]\<rparr>))"
| "push_next t u x PushAdvance s =
     Some (Tau, goto t (Push x PushCountLock2) (s\<lparr>rear := (rear s + 1) mod capacity s\<rparr>))"
| "push_next t u x PushCountLock2 s = (if count_lock s = None
     then Some (Tau, goto t (Push x PushIncr) (s\<lparr>count_lock := Some t\<rparr>)) else None)"
| "push_next t u x PushIncr s = Some (Enq x, goto t (Push x PushSignal) (s\<lparr>count := count s + 1\<rparr>))"
| "push_next t u x PushSignal s = (if u \<in> not_empty s \<or> not_empty s = {}
     then Some (Tau, goto t (Push x PushCountUnlock2) (s\<lparr>not_empty := not_empty s - {u}\<rparr>)) else None)"
| "push_next t u x PushCountUnlock2 s = Some (Tau, goto t (Push x PushUnlock) (s\<lparr>count_lock := None\<rparr>))"
| "push_next t u x PushUnlock s = Some (Tau, goto t (Returned 0 None) (s\<lparr>push_lock := None\<rparr>))"

fun pop_next :: "tid \<Rightarrow> tid \<Rightarrow> 'a pop_at \<Rightarrow> 'a job_queue \<Rightarrow> ('a event \<times> 'a job_queue) option" where
  "pop_next t u PopLock s = (if pop_lock s = None
     then Some (Tau, goto t (Pop PopCountLock) (s\<lparr>pop_lock := Some t\<rparr>)) else None)"
| "pop_next t u PopCountLock s = (if count_lock s = None
     then Some (Tau, goto t (Pop PopLook) (s\<lparr>count_lock := Some t\<rparr>)) else None)"
| "pop_next t u PopLook s = Some (Tau, goto t (Pop (PopCountUnlock (count s = 0) (destroyed s))) s)"
| "pop_next t u (PopCountUnlock emp dead) s =
     Some (Tau, goto t (Pop (PopDecide emp dead)) (s\<lparr>count_lock := None\<rparr>))"
| "pop_next t u (PopDecide emp dead) s =
     Some (Tau, goto t (Pop (if dead \<and> emp then PopDeadUnlock else if \<not> emp then PopRead else PopWait)) s)"
| "pop_next t u PopDeadUnlock s = Some (Tau, goto t (Returned (- 1) None) (s\<lparr>pop_lock := None\<rparr>))"
| "pop_next t u PopWait s =
     Some (Tau, goto t (Pop PopBlocked) (s\<lparr>pop_lock := None, not_empty := insert t (not_empty s)\<rparr>))"
| "pop_next t u PopBlocked s = (if t \<notin> not_empty s \<and> pop_lock s = None
     then Some (Tau, goto t (Pop PopCountLock) (s\<lparr>pop_lock := Some t\<rparr>)) else None)"
| "pop_next t u PopRead s = Some (Tau, goto t (Pop (PopAdvance (buffer s ! front s))) s)"
| "pop_next t u (PopAdvance x) s =
     Some (Tau, goto t (Pop (PopCountLock2 x)) (s\<lparr>front := (front s + 1) mod capacity s\<rparr>))"
| "pop_next t u (PopCountLock2 x) s = (if count_lock s = None
     then Some (Tau, goto t (Pop (PopDecr x)) (s\<lparr>count_lock := Some t\<rparr>)) else None)"
| "pop_next t u (PopDecr x) s = Some (Deq x, goto t (Pop (PopSignal x)) (s\<lparr>count := count s - 1\<rparr>))"
| "pop_next t u (PopSignal x) s = (if u \<in> not_full s \<or> not_full s = {}
     then Some (Tau, goto t (Pop (PopCountUnlock2 x)) (s\<lparr>not_full := not_full s - {u}\<rparr>)) else None)"
| "pop_next t u (PopCountUnlock2 x) s = Some (Tau, goto t (Pop (PopUnlock x)) (s\<lparr>count_lock := None\<rparr>))"
| "pop_next t u (PopUnlock x) s = Some (Tau, goto t (Returned 0 (Some x)) (s\<lparr>pop_lock := None\<rparr>))"

fun destroy_next :: "tid \<Rightarrow> destroy_at \<Rightarrow> 'a job_queue \<Rightarrow> ('a event \<times> 'a job_queue) option" where
  "destroy_next t DestroyCountLock s = (if count_lock s = None
     then Some (Tau, goto t (Destroy DestroySet) (s\<lparr>count_lock := Some t\<rparr>)) else None)"
| "destroy_next t DestroySet s = Some (Tau, goto t (Destroy DestroyWakeEmpty) (s\<lparr>destroyed := True\<rparr>))"
| "destroy_next t DestroyWakeEmpty s = Some (Tau, goto t (Destroy DestroyWakeFull) (s\<lparr>not_empty := {}\<rparr>))"
| "destroy_next t DestroyWakeFull s = Some (Tau, goto t (Destroy DestroyCountUnlock) (s\<lparr>not_full := {}\<rparr>))"
| "destroy_next t DestroyCountUnlock s = Some (Tau, goto t (Destroy PollCountLock) (s\<lparr>count_lock := None\<rparr>))"
| "destroy_next t PollCountLock s = (if count_lock s = None
     then Some (Tau, goto t (Destroy PollLook) (s\<lparr>count_lock := Some t\<rparr>)) else None)"
| "destroy_next t PollLook s = Some (Tau, goto t (Destroy (PollCountUnlock (count s))) s)"
| "destroy_next t (PollCountUnlock remaining) s =
     Some (Tau, goto t (Destroy (PollDecide remaining)) (s\<lparr>count_lock := None\<rparr>))"
| "destroy_next t (PollDecide remaining) s =
     Some (Tau, goto t (Destroy (if remaining = 0 then DestroyFree else PollCountLock)) s)"
| "destroy_next t DestroyFree s = Some (Tau, goto t (Returned 0 None) (s\<lparr>freed := True\<rparr>))"

inductive_simps push_step_simps:
  "push_step t x PushLock s e s'" "push_step t x PushCountLock s e s'" "push_step t x PushLook s e s'"
  "push_step t x (PushCountUnlock full dead) s e s'" "push_step t x (PushDecide full dead) s e s'"
  "push_step t x PushDeadUnlock s e s'" "push_step t x PushWait s e s'" "push_step t x PushBlocked s e s'"
  "push_step t x PushStore s e s'" "push_step t x PushAdvance s e s'" "push_step t x PushCountLock2 s e s'"
  "push_step t x PushIncr s e s'" "push_step t x PushSignal s e s'" "push_step t x PushCountUnlock2 s e s'"
  "push_step t x PushUnlock s e s'"

inductive_simps pop_step_simps:
  "pop_step t PopLock s e s'" "pop_step t PopCountLock s e s'" "pop_step t PopLook s e s'"
  "pop_step t (PopCountUnlock emp dead) s e s'" "pop_step t (PopDecide emp dead) s e s'"
  "pop_step t PopDeadUnlock s e s'" "pop_step t PopWait s e s'" "pop_step t PopBlocked s e s'"
  "pop_step t PopRead s e s'" "pop_step t (PopAdvance x) s e s'" "pop_step t (PopCountLock2 x) s e s'"
  "pop_step t (PopDecr x) s e s'" "pop_step t (PopSignal x) s e s'" "pop_step t (PopCountUnlock2 x) s e s'"
  "pop_step t (PopUnlock x) s e s'"

inductive_simps destroy_step_simps:
  "destroy_step t DestroyCountLock s e s'" "destroy_step t DestroySet s e s'"
  "destroy_step t DestroyWakeEmpty s e s'" "destroy_step t DestroyWakeFull s e s'"
  "destroy_step t DestroyCountUnlock s e s'" "destroy_step t PollCountLock s e s'"
  "destroy_step t PollLook s e s'" "destroy_step t (PollCountUnlock r) s e s'"
  "destroy_step t (PollDecide r) s e s'" "destroy_step t DestroyFree s e s'"

lemma push_step_next: "push_step t x p s e s' \<longleftrightarrow> (\<exists>u. push_next t u x p s = Some (e, s'))"
  by (cases p) (auto simp: push_step_simps)

lemma pop_step_next: "pop_step t p s e s' \<longleftrightarrow> (\<exists>u. pop_next t u p s = Some (e, s'))"
  by (cases p) (auto simp: pop_step_simps)

lemma destroy_step_next: "destroy_step t d s e s' \<longleftrightarrow> destroy_next t d s = Some (e, s')"
  by (cases d) (auto simp: destroy_step_simps)

definition run_next :: "tid \<Rightarrow> tid \<Rightarrow> 'a job_queue \<Rightarrow> ('a event \<times> 'a job_queue) option" where
  "run_next t u s =
     (case code s t of
        Push x p \<Rightarrow> push_next t u x p s | Pop p \<Rightarrow> pop_next t u p s | Destroy d \<Rightarrow> destroy_next t d s
      | _ \<Rightarrow> None)"

lemma run_step_next: "run_step s t e s' \<longleftrightarrow> (\<exists>u. run_next t u s = Some (e, s'))"
  by (cases "code s t") (auto simp: run_next_def run_step.simps push_step_next pop_step_next destroy_step_next)

datatype 'a action = CallPush tid 'a | CallPop tid | CallDestroy tid | Run tid

text \<open>A schedule in which a signal wakes thread 0, if anyone.\<close>

fun perform :: "'a action \<Rightarrow> 'a job_queue \<Rightarrow> ('a event \<times> 'a job_queue) option" where
  "perform (CallPush t x) s = (if code s t = Idle then Some (Tau, goto t (Push x PushLock) s) else None)"
| "perform (CallPop t) s = (if code s t = Idle then Some (Tau, goto t (Pop PopLock) s) else None)"
| "perform (CallDestroy t) s = (if code s t = Idle then Some (Tau, goto t (Destroy DestroyCountLock) s) else None)"
| "perform (Run t) s = (if freed s then None else run_next t 0 s)"

fun perform_all :: "'a action list \<Rightarrow> 'a job_queue \<Rightarrow> ('a event list \<times> 'a job_queue) option" where
  "perform_all [] s = Some ([], s)"
| "perform_all (a # as) s =
     (case perform a s of None \<Rightarrow> None
      | Some (e, s') \<Rightarrow> map_option (\<lambda>(es, s''). (e # es, s'')) (perform_all as s'))"

lemma perform_sound: "perform a s = Some (e, s') \<Longrightarrow> \<exists>t. jq_step s t e s'"
  by (cases a) (auto simp: run_step_next jq_step.simps split: if_splits)

lemma jq_run_append: "jq_run s' es' s'' \<Longrightarrow> jq_run s es s' \<Longrightarrow> jq_run s (es @ es') s''"
  by (induction rule: jq_run.induct) (auto simp del: append_assoc simp: append_assoc [symmetric] intro: jq_snoc)

lemma perform_all_sound: "perform_all as s = Some (es, s') \<Longrightarrow> jq_run s es s'"
proof (induction as arbitrary: s es)
  case (Cons a as)
  then obtain e s1 es' where "perform a s = Some (e, s1)" "perform_all as s1 = Some (es', s')" "es = e # es'"
    by (auto split: option.splits)
  with Cons.IH perform_sound jq_run_append [of s1 es' s' s "[e]"] show ?case
    by (metis append_Cons append_Nil jq_nil jq_snoc)
qed (auto intro: jq_nil)

section \<open>Progress\<close>

text \<open>A thread that waits for a signal.\<close>

definition waiting :: "'a job_queue \<Rightarrow> tid \<Rightarrow> bool" where
  "waiting s t \<longleftrightarrow> (\<exists>x. code s t = Push x PushBlocked) \<and> t \<in> not_full s \<or> code s t = Pop PopBlocked \<and> t \<in> not_empty s"

definition active :: "'a loc \<Rightarrow> bool" where
  "active l = (case l of Idle \<Rightarrow> False | Returned _ _ \<Rightarrow> False | _ \<Rightarrow> True)"

lemma push_can_run:
  assumes "code s t = Push x p" "\<not> waiting s t" "holds_push (Push x p) \<or> push_lock s = None"
    "holds_count (Push x p) \<or> count_lock s = None"
  shows "\<exists>e s'. run_step s t e s'"
proof -
  obtain u where "u \<in> not_empty s \<or> not_empty s = {}" by blast
  with assms show ?thesis
    by (cases p) (auto simp: run_step_next run_next_def waiting_def)
qed

lemma pop_can_run:
  assumes "code s t = Pop p" "\<not> waiting s t" "holds_pop (Pop p) \<or> pop_lock s = None"
    "holds_count (Pop p) \<or> count_lock s = None"
  shows "\<exists>e s'. run_step s t e s'"
proof -
  obtain u where "u \<in> not_full s \<or> not_full s = {}" by blast
  with assms show ?thesis
    by (cases p) (auto simp: run_step_next run_next_def waiting_def)
qed

lemma destroy_can_run:
  assumes "code s t = Destroy d" "holds_count (Destroy d :: 'a loc) \<or> count_lock s = None"
  shows "\<exists>e s'. run_step (s :: 'a job_queue) t e s'"
  using assms by (cases d) (auto simp: run_step_next run_next_def)

lemma lock_progress:
  assumes inv: "lock_inv s" and t: "active (code s t)" "\<not> waiting s t"
  shows "\<exists>u e s'. run_step s u e s'"
proof -
  have hold: "\<not> waiting s u" if "holds_push (code s u) \<or> holds_pop (code s u) \<or> holds_count (code s u)" for u
    using that by (auto simp: waiting_def)
  have both: "holds_push (Push x p)" if "holds_count (Push x p)" for x :: 'a and p
    using that by (cases p) auto
  have both': "holds_pop (Pop p)" if "holds_count (Pop p)" for p :: "'a pop_at"
    using that by (cases p) auto
  show ?thesis
  proof (cases "count_lock s")
    case (Some u)
    then have u: "holds_count (code s u)" using lock_inv_D [OF inv] by blast
    then consider x p where "code s u = Push x p" | p where "code s u = Pop p" | d where "code s u = Destroy d"
      by (cases "code s u") auto
    then show ?thesis
      using u hold [of u] both both' push_can_run [of s u] pop_can_run [of s u] destroy_can_run [of s u]
      by cases auto
  next
    case count: None
    show ?thesis
    proof (cases "push_lock s")
      case (Some u)
      then have u: "holds_push (code s u)" using lock_inv_D [OF inv] by blast
      then obtain x p where "code s u = Push x p" by (cases "code s u") auto
      with u hold [of u] count push_can_run [of s u x p] show ?thesis by auto
    next
      case push: None
      show ?thesis
      proof (cases "pop_lock s")
        case (Some u)
        then have u: "holds_pop (code s u)" using lock_inv_D [OF inv] by blast
        then obtain p where "code s u = Pop p" by (cases "code s u") auto
        with u hold [of u] count pop_can_run [of s u p] show ?thesis by auto
      next
        case None
        with count push t push_can_run [of s t] pop_can_run [of s t] destroy_can_run [of s t] show ?thesis
          by (cases "code s t") (auto simp: active_def)
      qed
    qed
  qed
qed

section \<open>What a run delivers\<close>

fun enqs :: "'a event list \<Rightarrow> 'a list" where
  "enqs [] = []"
| "enqs (Enq x # es) = x # enqs es"
| "enqs (_ # es) = enqs es"

fun deqs :: "'a event list \<Rightarrow> 'a list" where
  "deqs [] = []"
| "deqs (Deq x # es) = x # deqs es"
| "deqs (_ # es) = deqs es"

lemma enqs_append [simp]: "enqs (xs @ ys) = enqs xs @ enqs ys"
  by (induction xs rule: enqs.induct) auto

lemma deqs_append [simp]: "deqs (xs @ ys) = deqs xs @ deqs ys"
  by (induction xs rule: deqs.induct) auto

lemma fifo_run_order: "fifo_run n q es q' \<Longrightarrow> q @ enqs es = deqs es @ q'"
proof (induction rule: fifo_run.induct)
  case (fifo_snoc n q es q' e q'')
  then show ?case by (cases e) auto
qed simp

lemma holds_queue_count:
  "holds_queue s q \<Longrightarrow> count s = int (length q) \<and> length q \<le> capacity s \<and> rear s < length (buffer s) \<and> front s < length (buffer s)"
  by (auto simp: holds_queue_def ring_def)

section \<open>Properties\<close>

text \<open>
  C2: However the threads interleave, the job queue behaves as a bounded first-in first-out
  queue: the operations that took effect are a run of the abstract queue of that capacity, so
  the jobs popped are, in order, the jobs pushed except those still waiting; \<open>count\<close> is the
  number that wait, never negative and never above the capacity; and both indices stay inside
  the buffer.
\<close>

theorem job_queue_fifo:
  assumes "jq_run (job_queue_init b) es s" "b \<noteq> []"
  shows "\<exists>q. fifo_run (length b) [] es q \<and> holds_queue s q \<and> enqs es = deqs es @ q \<and>
    count s = int (length q) \<and> length q \<le> length b \<and>
    rear s < length (buffer s) \<and> front s < length (buffer s)"
  using jq_run_sim [OF assms] fifo_run_order holds_queue_count by fastforce

definition demo_schedule :: "nat action list" where
  "demo_schedule = [CallPush 1 7] @ replicate 12 (Run 1) @ [CallPop 2] @ replicate 12 (Run 2)"

lemma demo_schedule_run:
  "\<exists>s. perform_all demo_schedule (job_queue_init [0, 0]) =
     Some (replicate 9 Tau @ [Enq 7] @ replicate 12 Tau @ [Deq 7] @ replicate 3 Tau, s)"
  by (simp add: demo_schedule_def eval_nat_numeral run_next_def job_queue_init_def)

theorem job_queue_fifo_witness:
  "\<exists>es s q. jq_run (job_queue_init [0, 0 :: nat]) es s \<and> deqs es = [7] \<and> enqs es = deqs es @ q"
proof -
  obtain s where s: "perform_all demo_schedule (job_queue_init [0, 0]) =
      Some (replicate 9 Tau @ [Enq 7] @ replicate 12 Tau @ [Deq 7] @ replicate 3 Tau, s)"
    using demo_schedule_run by blast
  note r = perform_all_sound [OF s]
  show ?thesis
    using r job_queue_fifo [OF r] by (auto simp: eval_nat_numeral intro!: exI)
qed

text \<open>
  C8: The locks work: in every reachable state at most one thread is inside the section of each
  of the three locks, and as long as some thread is inside an operation without waiting for a
  signal, some thread can take its next step (no deadlock between the locks).
\<close>

theorem job_queue_locks:
  assumes "jq_run (job_queue_init b) es s"
  shows "(holds_push (code s t) \<and> holds_push (code s u) \<or> holds_pop (code s t) \<and> holds_pop (code s u) \<or>
      holds_count (code s t) \<and> holds_count (code s u) \<longrightarrow> t = u) \<and>
    (active (code s t) \<and> \<not> waiting s t \<longrightarrow> (\<exists>v e s'. run_step s v e s'))"
  using jq_run_lock_inv [OF assms lock_inv_init] lock_progress [of s t]
  by (auto simp: lock_inv_def)

theorem job_queue_locks_witness:
  "\<exists>v e s'. run_step (goto 1 (Push (7 :: nat) PushLock) (job_queue_init [0, 0])) v e s'"
proof -
  have "jq_run (job_queue_init [0, 0]) ([] @ [Tau]) (goto 1 (Push (7 :: nat) PushLock) (job_queue_init [0, 0]))"
    by (rule jq_snoc [OF jq_nil call_push]) (simp add: job_queue_init_def)
  from job_queue_locks [OF this, of 1 1] show ?thesis
    by (auto simp: active_def waiting_def)
qed


text \<open>
  \<open>job_queue_destroy\<close> may free the queue while a consumer is still inside \<open>job_queue_pop\<close>:
  the consumer has looked at the empty queue before it was marked as destroyed and goes on to use
  its lock and condition variable after they are destroyed and the buffer is freed.
\<close>

theorem job_queue_use_after_free:
  "\<exists>es s. jq_run (job_queue_init [0 :: nat]) es s \<and> freed s \<and> code s 2 = Pop PopWait \<and> pop_lock s = Some 2"
proof -
  let ?sched = "[CallPop 2] @ replicate 5 (Run 2) @ [CallDestroy 1] @ replicate 10 (Run (1 :: nat))"
  have "\<exists>es s. perform_all ?sched (job_queue_init [0 :: nat]) = Some (es, s) \<and> freed s \<and> code s 2 = Pop PopWait \<and> pop_lock s = Some 2"
    by (simp add: eval_nat_numeral run_next_def job_queue_init_def)
  then show ?thesis
    using perform_all_sound by blast
qed

end
