(* ===== verification/Worker_Pool.thy ===== *)
theory Worker_Pool
  imports Job_Queue
begin

text \<open>
  The common shape of the multithreaded programs (\<open>fauxgrep-mt.c\<close>, \<open>fhistogram-mt.c\<close>,
  \<open>fibs.c\<close>): the main thread pushes jobs, every worker pops a job, works on it alone and makes
  its results visible in steps that are atomic (a \<open>printf\<close>, or a section under a mutex), then
  pops the next. \<open>effects\<close> gives the visible steps of one job, in order.
\<close>

section \<open>The interface to the queue\<close>

text \<open>
  What a pool relies on: at any time the jobs taken out are, in order, the first of the jobs put
  in, and what is left is counted.
\<close>

locale job_channel =
  fixes run :: "'s \<Rightarrow> 'a event list \<Rightarrow> 's \<Rightarrow> bool"
    and start :: 's
    and backlog :: "'s \<Rightarrow> int"
  assumes channel_order: "run start es s \<Longrightarrow> \<exists>q. enqs es = deqs es @ q \<and> backlog s = int (length q)"
begin

lemma drained: "run start es s \<Longrightarrow> backlog s = 0 \<Longrightarrow> deqs es = enqs es"
  using channel_order [of es s] by auto

lemma taken_jobs: "run start es s \<Longrightarrow> mset (deqs es) \<subseteq># mset (enqs es)"
  using channel_order [of es s] by auto

end

lemma job_queue_channel: "b \<noteq> [] \<Longrightarrow> job_channel jq_run (job_queue_init b) count"
  by unfold_locales (use jq_run_sim fifo_run_order holds_queue_count in fastforce)

text \<open>The queues of the programs: capacity 64 and 128.\<close>

interpretation queue64: job_channel jq_run "job_queue_init (replicate 64 x)" count for x :: 'a
  by (rule job_queue_channel) simp

interpretation queue128: job_channel jq_run "job_queue_init (replicate 128 x)" count for x :: 'a
  by (rule job_queue_channel) simp

section \<open>The jobs\<close>

text \<open>
  The programs walk a directory tree with \<open>fts_read\<close>; the walk is the list of the entries it
  delivers, and the jobs are the paths of the regular files among them.
\<close>

datatype fts_info = FTS_D | FTS_F | FTS_OTHER

definition file_jobs :: "(fts_info \<times> string) list \<Rightarrow> string list" where
  "file_jobs es = map snd (filter (\<lambda>e. fst e = FTS_F) es)"

section \<open>The pool\<close>

text \<open>
  \<open>pending\<close> holds, per worker, the visible steps still to come for its current job; \<open>performed\<close> is
  what has become visible. A worker takes a job when it has nothing pending.
\<close>

record 'e pool =
  pending :: "'e list list"
  performed :: "'e list"

definition pool_init :: "nat \<Rightarrow> 'e pool" where
  "pool_init num_threads = \<lparr>pending = replicate num_threads [], performed = []\<rparr>"

inductive pool_step :: "('a \<Rightarrow> 'e list) \<Rightarrow> 'e pool \<Rightarrow> 'a event \<Rightarrow> 'e pool \<Rightarrow> bool" for effects where
  pool_take: "t < length (pending p) \<Longrightarrow> pending p ! t = [] \<Longrightarrow>
    pool_step effects p (Deq j) (p\<lparr>pending := (pending p)[t := effects j]\<rparr>)"
| pool_work: "t < length (pending p) \<Longrightarrow> pending p ! t = e # es \<Longrightarrow>
    pool_step effects p Tau (p\<lparr>pending := (pending p)[t := es], performed := performed p @ [e]\<rparr>)"
| pool_push: "pool_step effects p (Enq j) p"
| pool_other: "pool_step effects p Tau p"

inductive pool_run :: "('a \<Rightarrow> 'e list) \<Rightarrow> 'e pool \<Rightarrow> 'a event list \<Rightarrow> 'e pool \<Rightarrow> bool" for effects where
  pool_nil: "pool_run effects p [] p"
| pool_snoc: "pool_run effects p es p' \<Longrightarrow> pool_step effects p' e p'' \<Longrightarrow> pool_run effects p (es @ [e]) p''"

lemma mset_concat_update:
  "t < length xss \<Longrightarrow> xss ! t = ys \<Longrightarrow> mset (concat (xss[t := zs])) + mset ys = mset (concat xss) + mset zs"
proof (induction xss arbitrary: t)
  case (Cons xs xss)
  then show ?case by (cases t) auto
qed simp

lemma pool_step_effects:
  assumes "pool_step effects p e p'"
  shows "mset (performed p') + mset (concat (pending p')) =
    mset (performed p) + mset (concat (pending p)) + mset (concat (map effects (deqs [e])))"
  using assms
proof cases
  case (pool_take t j)
  with mset_concat_update [of t "pending p" "[]" "effects j"] show ?thesis by simp
next
  case (pool_work t x xs)
  with mset_concat_update [of t "pending p" "x # xs" xs] show ?thesis by simp
qed auto

lemma pool_run_effects:
  "pool_run effects p es p' \<Longrightarrow> mset (performed p') + mset (concat (pending p')) =
    mset (performed p) + mset (concat (pending p)) + mset (concat (map effects (deqs es)))"
proof (induction rule: pool_run.induct)
  case (pool_snoc p es p' e p'')
  with pool_step_effects [OF pool_snoc(2)] show ?case by simp
qed simp

definition pool_idle :: "'e pool \<Rightarrow> bool" where
  "pool_idle p \<longleftrightarrow> list_all (\<lambda>l. l = []) (pending p)"

lemma pool_idle_concat: "pool_idle p \<Longrightarrow> concat (pending p) = []"
  by (auto simp: pool_idle_def list_all_iff concat_eq_Nil_conv)

lemma pool_init_concat: "concat (pending (pool_init n)) = []"
  by (simp add: pool_init_def)

text \<open>Every job that was taken and finished has had its effects exactly once.\<close>

lemma pool_run_done:
  assumes "pool_run effects (pool_init n) es p" "pool_idle p"
  shows "mset (performed p) = mset (concat (map effects (deqs es)))"
  using pool_run_effects [OF assms(1)] pool_idle_concat [OF assms(2)] pool_init_concat [of n]
  by (simp add: pool_init_def)

context job_channel
begin

text \<open>
  A pool and the channel run together on the same events: once the channel is empty and the
  workers are idle, the effects are those of all jobs put in, whatever the interleaving.
\<close>

lemma pool_complete:
  assumes "run start es s" "backlog s = 0" "pool_run effects (pool_init n) es p" "pool_idle p"
  shows "mset (performed p) = mset (concat (map effects (enqs es)))"
  using pool_run_done [OF assms(3,4)] drained [OF assms(1,2)] by simp

end

section \<open>A run with one job\<close>

definition one_job :: "'a \<Rightarrow> 'a event list" where
  "one_job x = replicate 9 Tau @ [Enq x] @ replicate 12 Tau @ [Deq x] @ replicate 3 Tau"

lemma one_job_enqs: "enqs (one_job x) = [x]"
  by (simp add: one_job_def eval_nat_numeral)

lemma one_job_run: "\<exists>s. jq_run (job_queue_init (replicate (Suc n) y)) (one_job x) s \<and> count s = 0"
proof -
  let ?sched = "[CallPush 1 x] @ replicate 12 (Run 1) @ [CallPop 2] @ replicate 12 (Run 2)"
  have "\<exists>s. perform_all ?sched (job_queue_init (replicate (Suc n) y)) = Some (one_job x, s) \<and> count s = 0"
    by (simp add: one_job_def eval_nat_numeral run_next_def job_queue_init_def)
  then show ?thesis using perform_all_sound by blast
qed

lemma pool_run_taus: "pool_run effects p es p' \<Longrightarrow> pool_run effects p (es @ replicate n Tau) p'"
proof (induction n)
  case (Suc n)
  then have "pool_run effects p ((es @ replicate n Tau) @ [Tau]) p'"
    by (intro pool_snoc [OF _ pool_other]) simp
  then show ?case by (simp add: replicate_append_same)
qed simp

lemma one_job_pool:
  assumes "effects x = [e]"
  shows "pool_run effects (pool_init 1) (one_job x) \<lparr>pending = [[]], performed = [e]\<rparr>"
proof -
  let ?p = "pool_init 1"
  have "pool_run effects ?p ((replicate 9 Tau @ [Enq x]) @ replicate 12 Tau) ?p"
    using pool_run_taus [OF pool_nil, of effects ?p 9] by (intro pool_run_taus pool_snoc [OF _ pool_push]) simp
  from pool_snoc [OF this pool_take [of 0 ?p effects x]]
  have "pool_run effects ?p (((replicate 9 Tau @ [Enq x]) @ replicate 12 Tau) @ [Deq x]) \<lparr>pending = [[e]], performed = []\<rparr>"
    by (simp add: pool_init_def assms)
  from pool_snoc [OF this pool_work [of 0 _ e "[]" effects]]
  have "pool_run effects ?p ((((replicate 9 Tau @ [Enq x]) @ replicate 12 Tau) @ [Deq x]) @ [Tau]) \<lparr>pending = [[]], performed = [e]\<rparr>"
    by simp
  from pool_run_taus [OF this, of 2] show ?thesis
    by (simp add: one_job_def numeral_3_eq_3 numeral_2_eq_2)
qed

end
