(* ===== verification/Histogram.thy ===== *)
theory Histogram
  imports Worker_Pool C_Lib
begin

text \<open>
  The bit histograms of files, \<open>Opgave3/src/histogram.h\<close>, \<open>fhistogram.c\<close> and
  \<open>fhistogram-mt.c\<close>. A histogram is an array of eight 32-bit counters, which wrap around. The
  file system is a function from paths to contents (\<open>None\<close> for a file that cannot be opened),
  and the traversal of \<open>fts_read\<close> is the list of the entries it delivers.
\<close>

section \<open>Histograms\<close>

type_synonym histogram = "i32 list"

definition zero_histogram :: histogram where
  "zero_histogram = replicate 8 0"

definition update_histogram :: "histogram \<Rightarrow> u8 \<Rightarrow> histogram" where
  "update_histogram h byte =
     fold (\<lambda>i h. if byte AND push_bit i 1 \<noteq> 0 then h[i := h ! i + 1] else h) [0..<8] h"

text \<open>\<open>merge_histogram\<close> returns both arrays, \<open>from\<close> and \<open>to\<close>.\<close>

definition merge_histogram :: "histogram \<Rightarrow> histogram \<Rightarrow> histogram \<times> histogram" where
  "merge_histogram from to =
     fold (\<lambda>i (from, to). (from[i := 0], to[i := to ! i + from ! i])) [0..<8] (from, to)"

text \<open>
  \<open>print_histogram\<close>: the number of stars per bit and the total, from signed counters. With no
  bits seen the proportion is not a number, and no star is printed.
\<close>

definition stars :: "int \<Rightarrow> int \<Rightarrow> nat" where
  "stars h bits_seen = (if bits_seen = 0 then 0 else nat \<lceil>60 * (of_int h / of_int bits_seen :: rat)\<rceil>)"

definition print_histogram :: "histogram \<Rightarrow> nat list \<times> int" where
  "print_histogram h =
     (let bits_seen = fold (\<lambda>i b. b + sint (h ! i)) [0..<8] 0
      in (map (\<lambda>i. stars (sint (h ! i)) bits_seen) [0..<8], bits_seen))"

text \<open>The escape sequence of \<open>move_lines\<close>: how many lines, up or down.\<close>

datatype cursor = Up int | Down int

definition move_lines :: "int \<Rightarrow> cursor" where
  "move_lines n = (if n < 0 then Up (- n) else Down n)"

section \<open>One file\<close>

text \<open>
  The loop over the bytes of a file, with the merge and the display after every 100000 bytes.
  The state is the local and the global histogram and what has been displayed.
\<close>

fun count_bytes :: "nat \<Rightarrow> bytes \<Rightarrow> histogram \<times> histogram \<times> (nat list \<times> int) list \<Rightarrow>
    histogram \<times> histogram \<times> (nat list \<times> int) list" where
  "count_bytes i [] st = st"
| "count_bytes i (c # cs) (local, global, out) =
     (let i = i + 1;
          local = update_histogram local c
      in if i mod 100000 = 0
         then let (local, global) = merge_histogram local global
              in count_bytes i cs (local, global, out @ [print_histogram global])
         else count_bytes i cs (local, global, out))"

text \<open>\<open>fhistogram\<close> returns its result, the global histogram and the displays.\<close>

definition fhistogram :: "bytes option \<Rightarrow> histogram \<Rightarrow> int \<times> histogram \<times> (nat list \<times> int) list" where
  "fhistogram f global =
     (case f of
        None \<Rightarrow> (- 1, global, [])
      | Some cs \<Rightarrow>
          let (local, global, out) = count_bytes 0 cs (zero_histogram, global, []);
              (local, global) = merge_histogram local global
          in (0, global, out @ [print_histogram global]))"

text \<open>The traversal of \<open>main\<close>; \<open>fs\<close> opens a path.\<close>

fun fts_histogram :: "(string \<Rightarrow> bytes option) \<Rightarrow> (fts_info \<times> string) list \<Rightarrow>
    histogram \<times> (nat list \<times> int) list \<Rightarrow> histogram \<times> (nat list \<times> int) list" where
  "fts_histogram fs [] st = st"
| "fts_histogram fs ((info, path) # es) (global, out) =
     (case info of
        FTS_F \<Rightarrow> let (r, global, out') = fhistogram (fs path) global in fts_histogram fs es (global, out @ out')
      | _ \<Rightarrow> fts_histogram fs es (global, out))"

datatype hist_error = HistUsage | FtsOpenFailed | InvalidThreadCount

definition fhistogram_main :: "string list \<Rightarrow> (string list \<Rightarrow> (fts_info \<times> string) list option) \<Rightarrow> (string \<Rightarrow> bytes option) \<Rightarrow>
    hist_error + histogram \<times> (nat list \<times> int) list \<times> cursor" where
  "fhistogram_main argv fts fs =
     (if length argv < 2 then Inl HistUsage
      else case fts (drop 1 argv) of
             None \<Rightarrow> Inl FtsOpenFailed
           | Some es \<Rightarrow> let (global, out) = fts_histogram fs es (zero_histogram, [])
                        in Inr (global, out, move_lines 9))"

section \<open>The bits of a file\<close>

definition wf_hist :: "histogram \<Rightarrow> bool" where
  "wf_hist h \<longleftrightarrow> length h = 8"

text \<open>The specification: how many bytes have each bit set.\<close>

definition bit_counts :: "bytes \<Rightarrow> histogram" where
  "bit_counts cs = map (\<lambda>i. of_nat (length (filter (\<lambda>c. bit c i) cs))) [0..<8]"

definition hist_add :: "histogram \<Rightarrow> histogram \<Rightarrow> histogram" where
  "hist_add g h = map2 (+) g h"

lemma test_bit_mask: "byte AND push_bit i 1 \<noteq> 0 \<longleftrightarrow> bit byte i" for byte :: u8
  by (auto simp: bit_iff_and_push_bit_not_eq_0)

lemma fold_update:
  "fold (\<lambda>i h. if P i then h[i := h ! i + 1] else h) [0..<n] h =
     map (\<lambda>i. if i < n \<and> P i then h ! i + 1 else h ! i) [0..<length h]"
proof (induction n)
  case 0
  then show ?case by (simp add: map_nth)
next
  case (Suc n)
  show ?case
    by (cases "n < length h")
      (auto simp: Suc nth_list_update less_Suc_eq list_update_beyond intro!: nth_equalityI)
qed

lemma fold_merge:
  assumes "length from = length (to :: i32 list)" "n \<le> length from"
  shows "fold (\<lambda>i (from, to). (from[i := 0], to[i := to ! i + from ! i])) [0..<n] (from, to) =
     (map (\<lambda>i. if i < n then 0 else from ! i) [0..<length from],
      map (\<lambda>i. if i < n then to ! i + from ! i else to ! i) [0..<length to])"
  using assms(2)
proof (induction n)
  case 0
  then show ?case by (simp add: map_nth)
next
  case (Suc n)
  then show ?case
    using assms(1) by (auto simp: less_Suc_eq nth_list_update intro!: nth_equalityI)
qed

lemma update_histogram_nth:
  assumes "wf_hist h"
  shows "wf_hist (update_histogram h c)"
    "i < 8 \<Longrightarrow> update_histogram h c ! i = h ! i + (if bit c i then 1 else 0)"
  using assms unfolding update_histogram_def test_bit_mask fold_update
  by (auto simp: wf_hist_def)

lemma merge_histogram_eq:
  assumes "wf_hist from" "wf_hist to"
  shows "merge_histogram from to = (zero_histogram, hist_add to from)"
  using assms unfolding merge_histogram_def wf_hist_def
  by (subst fold_merge) (auto simp: zero_histogram_def hist_add_def intro!: nth_equalityI)

lemma wf_hist_add: "wf_hist g \<Longrightarrow> wf_hist h \<Longrightarrow> wf_hist (hist_add g h)"
  by (simp add: wf_hist_def hist_add_def)

lemma wf_hist_zero: "wf_hist zero_histogram" and wf_bit_counts: "wf_hist (bit_counts cs)"
  by (simp_all add: wf_hist_def zero_histogram_def bit_counts_def)

lemma hist_eqI: "wf_hist g \<Longrightarrow> wf_hist h \<Longrightarrow> (\<And>i. i < 8 \<Longrightarrow> g ! i = h ! i) \<Longrightarrow> g = h"
  by (rule nth_equalityI) (auto simp: wf_hist_def)

lemma hist_add_nth: "wf_hist g \<Longrightarrow> wf_hist h \<Longrightarrow> i < 8 \<Longrightarrow> hist_add g h ! i = g ! i + h ! i"
  by (simp add: wf_hist_def hist_add_def)

lemma hist_add_zero: "wf_hist g \<Longrightarrow> hist_add g zero_histogram = g"
  by (rule hist_eqI) (auto simp: wf_hist_add wf_hist_zero hist_add_nth, simp add: zero_histogram_def)

lemma hist_add_assoc:
  "wf_hist f \<Longrightarrow> wf_hist g \<Longrightarrow> wf_hist h \<Longrightarrow> hist_add (hist_add f g) h = hist_add f (hist_add g h)"
  by (rule hist_eqI) (auto simp: wf_hist_add hist_add_nth)

lemma hist_add_commute: "wf_hist f \<Longrightarrow> wf_hist g \<Longrightarrow> hist_add f g = hist_add g f"
  by (rule hist_eqI) (auto simp: wf_hist_add hist_add_nth)

lemma bit_counts_append: "bit_counts (cs @ ds) = hist_add (bit_counts cs) (bit_counts ds)"
  by (rule hist_eqI) (auto simp: wf_bit_counts wf_hist_add hist_add_nth, simp add: bit_counts_def)

lemma bit_counts_Nil: "bit_counts [] = zero_histogram"
  by (rule hist_eqI) (auto simp: wf_bit_counts wf_hist_zero, simp add: bit_counts_def zero_histogram_def)

lemma update_histogram_add: "wf_hist h \<Longrightarrow> update_histogram h c = hist_add h (bit_counts [c])"
  by (rule hist_eqI) (auto simp: update_histogram_nth wf_hist_add wf_bit_counts hist_add_nth, simp_all add: bit_counts_def)

lemmas hist_wf = wf_hist_add wf_hist_zero wf_bit_counts update_histogram_nth(1)

text \<open>Whatever is merged when, the two histograms together grow by the bits of the bytes.\<close>

lemma count_bytes_sum:
  assumes "wf_hist local" "wf_hist global"
  shows "\<exists>local' global' out'. count_bytes i cs (local, global, out) = (local', global', out') \<and>
    wf_hist local' \<and> wf_hist global' \<and>
    hist_add global' local' = hist_add (hist_add global local) (bit_counts cs)"
  using assms
proof (induction cs arbitrary: i local global out)
  case Nil
  then show ?case by (simp add: bit_counts_Nil hist_add_zero wf_hist_add)
next
  case (Cons c cs)
  have e: "hist_add (hist_add global local) (bit_counts (c # cs)) =
      hist_add (hist_add (hist_add global local) (bit_counts [c])) (bit_counts cs)"
    using bit_counts_append [of "[c]" cs] Cons(2,3) by (simp add: hist_add_assoc hist_wf)
  let ?l = "hist_add local (bit_counts [c])"
  have l: "update_histogram local c = ?l" "wf_hist ?l" using Cons by (simp_all add: update_histogram_add hist_wf)
  have a: "hist_add global ?l = hist_add (hist_add global local) (bit_counts [c])"
    using Cons by (simp add: hist_add_assoc hist_wf)
  show ?case
  proof (cases "(i + 1) mod 100000 = 0")
    case True
    with Cons.IH [OF wf_hist_zero, of "hist_add global ?l" "i + 1" "out @ [print_histogram (hist_add global ?l)]"] l Cons(2,3) a e
    show ?thesis by (simp add: merge_histogram_eq hist_add_zero hist_wf)
  next
    case False
    with Cons.IH [OF l(2) Cons(3), of "i + 1" out] l a e show ?thesis by simp
  qed
qed

lemma fhistogram_eq:
  assumes "wf_hist global"
  shows "\<exists>out. fhistogram f global =
    (case f of None \<Rightarrow> (- 1, global, out) | Some cs \<Rightarrow> (0, hist_add global (bit_counts cs), out)) \<and>
    (case f of None \<Rightarrow> out = [] | Some cs \<Rightarrow> out \<noteq> [] \<and> last out = print_histogram (hist_add global (bit_counts cs)))"
proof (cases f)
  case None
  then show ?thesis by (simp add: fhistogram_def)
next
  case (Some cs)
  with count_bytes_sum [OF wf_hist_zero assms, of 0 cs "[]"] assms show ?thesis
    by (auto simp: fhistogram_def merge_histogram_eq hist_add_zero)
qed

lemma fts_histogram_eq:
  assumes "wf_hist global"
  shows "fst (fts_histogram fs es (global, out)) =
    foldl hist_add global (map bit_counts (List.map_filter (\<lambda>(info, path). if info = FTS_F then fs path else None) es))"
  using assms
proof (induction es arbitrary: global out)
  case (Cons e es)
  obtain info path where e: "e = (info, path)" by (cases e)
  show ?case
  proof (cases "info = FTS_F \<and> fs path \<noteq> None")
    case True
    then obtain cs where cs: "info = FTS_F" "fs path = Some cs" by auto
    with fhistogram_eq [OF Cons(2), of "Some cs"] Cons(1) [of "hist_add global (bit_counts cs)"] Cons(2) show ?thesis
      by (auto simp: e map_filter_simps hist_wf)
  next
    case False
    then show ?thesis
      using fhistogram_eq [OF Cons(2), of None] Cons
      by (cases info) (auto simp: e map_filter_simps fhistogram_def)
  qed
qed (simp add: map_filter_simps)

section \<open>The multithreaded program\<close>

text \<open>
  The worker of \<open>fhistogram-mt.c\<close>: for one path, the histograms it merges into the global one
  under \<open>global_lock\<close>, in order: one after every 100000 bytes and one at the end.
\<close>

fun worker_merges :: "nat \<Rightarrow> bytes \<Rightarrow> histogram \<Rightarrow> histogram list" where
  "worker_merges n [] local_hist = [local_hist]"
| "worker_merges n (c # cs) local_hist =
     (let local_hist = update_histogram local_hist c; n = n + 1
      in if n mod 100000 = 0 then local_hist # worker_merges n cs zero_histogram
         else worker_merges n cs local_hist)"

definition histogram_worker :: "(string \<Rightarrow> bytes option) \<Rightarrow> string \<Rightarrow> histogram list" where
  "histogram_worker fs path =
     (case fs path of None \<Rightarrow> [] | Some cs \<Rightarrow> worker_merges 0 cs zero_histogram)"

text \<open>Performing the merges on the global histogram, each under the lock.\<close>

definition perform_merges :: "histogram \<Rightarrow> histogram list \<Rightarrow> histogram" where
  "perform_merges global hs = foldl (\<lambda>g h. snd (merge_histogram h g)) global hs"

text \<open>
  The arguments of \<open>main\<close>: the number of threads and the paths.
\<close>

definition mt_histogram_args :: "string list \<Rightarrow> hist_error + int \<times> string list" where
  "mt_histogram_args argv =
     (if length argv < 2 then Inl HistUsage
      else if length argv > 3 \<and> argv ! 1 = ''-n''
           then let n = atoi (argv ! 2) in if n < 1 then Inl InvalidThreadCount else Inr (n, drop 3 argv)
           else Inr (1, drop 1 argv))"

lemma worker_merges_wf: "wf_hist h \<Longrightarrow> list_all wf_hist (worker_merges n cs h)"
  by (induction n cs h rule: worker_merges.induct) (auto simp: Let_def hist_wf)

lemma foldl_hist_add_wf: "list_all wf_hist hs \<Longrightarrow> wf_hist g \<Longrightarrow> wf_hist (foldl hist_add g hs)"
  by (induction hs arbitrary: g) (auto simp: hist_wf)

lemma foldl_hist_add_start:
  "list_all wf_hist hs \<Longrightarrow> wf_hist g \<Longrightarrow> wf_hist h \<Longrightarrow> foldl hist_add (hist_add g h) hs = hist_add g (foldl hist_add h hs)"
  by (induction hs arbitrary: h) (auto simp: hist_wf hist_add_assoc)

lemma worker_merges_sum:
  "wf_hist h \<Longrightarrow> foldl hist_add zero_histogram (worker_merges n cs h) = hist_add h (bit_counts cs)"
proof (induction n cs h rule: worker_merges.induct)
  case (1 n h)
  then show ?case by (simp add: bit_counts_Nil hist_add_zero hist_add_commute [of zero_histogram] hist_wf)
next
  case (2 n c cs h)
  let ?h = "hist_add h (bit_counts [c])"
  have u: "update_histogram h c = ?h" "wf_hist ?h" using 2(3) by (simp_all add: update_histogram_add hist_wf)
  have e: "hist_add h (bit_counts (c # cs)) = hist_add ?h (bit_counts cs)"
    using bit_counts_append [of "[c]" cs] 2(3) by (simp add: hist_add_assoc hist_wf)
  show ?case
  proof (cases "(n + 1) mod 100000 = 0")
    case True
    have "foldl hist_add (hist_add zero_histogram ?h) (worker_merges (n + 1) cs zero_histogram) =
        hist_add ?h (foldl hist_add zero_histogram (worker_merges (n + 1) cs zero_histogram))"
      using u(2) foldl_hist_add_start [OF worker_merges_wf [OF wf_hist_zero] u(2) wf_hist_zero]
      by (simp add: hist_add_commute [of zero_histogram] hist_wf)
    with True 2(1) [OF refl refl] u e show ?thesis
      by (simp add: hist_wf hist_add_commute [of zero_histogram] hist_add_zero)
  next
    case False
    with 2(2) [OF refl refl] u e show ?thesis by simp
  qed
qed

text \<open>Merging depends only on which histograms are merged, not on the order.\<close>

lemma perform_merges_eq:
  "list_all wf_hist hs \<Longrightarrow> wf_hist g \<Longrightarrow> perform_merges g hs = foldl hist_add g hs"
  by (induction hs arbitrary: g) (auto simp: perform_merges_def merge_histogram_eq hist_wf)

lemma foldl_hist_add_mset:
  "mset hs = mset ks \<Longrightarrow> list_all wf_hist hs \<Longrightarrow> wf_hist g \<Longrightarrow> foldl hist_add g hs = foldl hist_add g ks"
proof (induction hs arbitrary: ks g)
  case (Cons h hs)
  then have "h \<in> set ks" by (metis list.set_intros(1) mset_eq_setD)
  then obtain as bs where ks: "ks = as @ h # bs" by (meson split_list)
  with Cons(2) have m: "mset hs = mset (as @ bs)" by simp
  have wf: "list_all wf_hist as" "list_all wf_hist bs" "wf_hist h"
    using Cons(2,3) ks mset_eq_setD [OF Cons(2)] by (auto simp: list_all_iff)
  have move: "foldl hist_add (hist_add g h) as = hist_add (foldl hist_add g as) h"
    using foldl_hist_add_start [OF wf(1) wf(3) Cons(4)] hist_add_commute [OF Cons(4) wf(3)]
      hist_add_commute [OF wf(3) foldl_hist_add_wf [OF wf(1) Cons(4)]] by simp
  from Cons.IH [OF m] Cons(3,4) wf have "foldl hist_add (hist_add g h) hs = foldl hist_add (hist_add g h) (as @ bs)"
    by (simp add: hist_wf)
  with move ks show ?case by simp
qed simp

lemma histogram_worker_wf: "list_all wf_hist (histogram_worker fs path)"
  by (simp add: histogram_worker_def worker_merges_wf wf_hist_zero split: option.split)

lemma file_jobs_filter:
  "List.map_filter (\<lambda>(info, path). if info = FTS_F then fs path else None) es = List.map_filter fs (file_jobs es)"
  by (induction es) (auto simp: map_filter_simps file_jobs_def split: option.splits if_splits)

lemma workers_sum:
  assumes "wf_hist g"
  shows "foldl hist_add g (concat (map (histogram_worker fs) js)) = foldl hist_add g (map bit_counts (List.map_filter fs js))"
  using assms
proof (induction js arbitrary: g)
  case (Cons j js)
  have "foldl hist_add g (histogram_worker fs j) = (case fs j of None \<Rightarrow> g | Some cs \<Rightarrow> hist_add g (bit_counts cs))"
  proof (cases "fs j")
    case None
    then show ?thesis by (simp add: histogram_worker_def)
  next
    case (Some cs)
    have "foldl hist_add (hist_add g zero_histogram) (worker_merges 0 cs zero_histogram) =
        hist_add g (foldl hist_add zero_histogram (worker_merges 0 cs zero_histogram))"
      by (rule foldl_hist_add_start [OF worker_merges_wf [OF wf_hist_zero] Cons(2) wf_hist_zero])
    then show ?thesis
      using Some Cons(2) worker_merges_sum [OF wf_hist_zero, of 0 cs]
      by (simp add: histogram_worker_def hist_add_zero hist_add_commute [of zero_histogram] hist_wf)
  qed
  with Cons show ?case by (auto simp: map_filter_simps hist_wf split: option.split)
qed (simp add: map_filter_simps)

section \<open>Properties\<close>

text \<open>
  The single-threaded program counts the bits: after the traversal, counter \<open>i\<close> is the number
  of bytes with bit \<open>i\<close> set in the regular files that could be opened, modulo \<open>2 ^ 32\<close>,
  wherever the merges after every 100000 bytes fall.
\<close>

theorem fhistogram_counts_bits:
  "case fhistogram_main argv fts fs of
     Inl HistUsage \<Rightarrow> length argv < 2
   | Inl FtsOpenFailed \<Rightarrow> length argv \<ge> 2 \<and> fts (drop 1 argv) = None
   | Inl InvalidThreadCount \<Rightarrow> False
   | Inr (global, out, c) \<Rightarrow> length argv \<ge> 2 \<and> (\<exists>es. fts (drop 1 argv) = Some es \<and>
       global = foldl hist_add zero_histogram (map bit_counts (List.map_filter fs (file_jobs es))))"
proof -
  have "fst (fts_histogram fs es (zero_histogram, [])) =
      foldl hist_add zero_histogram (map bit_counts (List.map_filter fs (file_jobs es)))" for es
    using fts_histogram_eq [OF wf_hist_zero, of fs es "[]"] by (simp add: file_jobs_filter)
  then show ?thesis
    by (auto simp: fhistogram_main_def split_def split: option.split)
qed

text \<open>
  C13: The multithreaded program computes the same histogram. However the main thread, the queue
  and the workers interleave, once the queue is empty and the workers are done, performing the
  merges that took place gives the histogram of the single-threaded program on the same entries.
\<close>

theorem fhistogram_mt_agrees:
  assumes "jq_run (job_queue_init (replicate 64 x)) evs s" "count s = 0" "enqs evs = file_jobs es"
    and "pool_run (histogram_worker fs) (pool_init num_threads) evs p" "pool_idle p"
  shows "perform_merges zero_histogram (performed p) = fst (fts_histogram fs es (zero_histogram, []))"
proof -
  have m: "mset (performed p) = mset (concat (map (histogram_worker fs) (file_jobs es)))"
    using queue64.pool_complete [OF assms(1,2,4,5)] assms(3) by simp
  have wf: "list_all wf_hist (concat (map (histogram_worker fs) (file_jobs es)))"
    using histogram_worker_wf by (auto simp: list_all_iff)
  then have wf': "list_all wf_hist (performed p)" using mset_eq_setD [OF m] by (simp add: list_all_iff)
  have "perform_merges zero_histogram (performed p) =
      foldl hist_add zero_histogram (concat (map (histogram_worker fs) (file_jobs es)))"
    using perform_merges_eq [OF wf' wf_hist_zero] foldl_hist_add_mset [OF m wf' wf_hist_zero] by simp
  also have "\<dots> = fst (fts_histogram fs es (zero_histogram, []))"
    using workers_sum [OF wf_hist_zero] fts_histogram_eq [OF wf_hist_zero, of fs es "[]"] by (simp add: file_jobs_filter)
  finally show ?thesis .
qed

theorem fhistogram_mt_agrees_witness:
  "perform_merges zero_histogram [[1, 1, 0, 0, 0, 0, 0, 0]] =
     fst (fts_histogram (\<lambda>_. Some [3]) [(FTS_D, ''d''), (FTS_F, ''f'')] (zero_histogram, []))"
proof -
  let ?fs = "\<lambda>_. Some [3]" and ?es = "[(FTS_D, ''d''), (FTS_F, ''f'')]"
  obtain s where s: "jq_run (job_queue_init (replicate 64 [])) (one_job ''f'') s" "count s = 0"
    using one_job_run [of 63 "[]" "''f''"] by (auto simp: numeral_eq_Suc)
  have z: "zero_histogram = [0, 0, 0, 0, 0, 0, 0, 0]" by (simp add: zero_histogram_def eval_nat_numeral)
  have "histogram_worker ?fs ''f'' = [[1, 1, 0, 0, 0, 0, 0, 0]]"
    by (simp add: histogram_worker_def update_histogram_def z upt_rec)
  from one_job_pool [of "histogram_worker ?fs", OF this] s show ?thesis
    using fhistogram_mt_agrees [of "[]" "one_job ''f''" s ?es ?fs 1 "\<lparr>pending = [[]], performed = [[1, 1, 0, 0, 0, 0, 0, 0]]\<rparr>"]
    by (simp add: file_jobs_def one_job_enqs pool_idle_def)
qed

end
