(* ===== verification/Fauxgrep.thy ===== *)
theory Fauxgrep
  imports Worker_Pool C_Lib "HOL-Library.Sublist"
begin

text \<open>
  Searching files for a string, \<open>Opgave3/src/fauxgrep.c\<close> and \<open>fauxgrep-mt.c\<close>, and the
  multithreaded Fibonacci program \<open>fibs.c\<close>. The output is the list of the lines printed; a
  file is its contents, \<open>None\<close> if it cannot be opened.
\<close>

section \<open>One file\<close>

text \<open>\<open>strstr\<close>: whether the needle occurs, tried at every position.\<close>

fun has_prefix :: "string \<Rightarrow> string \<Rightarrow> bool" where
  "has_prefix [] s = True"
| "has_prefix (c # cs) [] = False"
| "has_prefix (c # cs) (d # ds) = (c = d \<and> has_prefix cs ds)"

fun strstr :: "string \<Rightarrow> string \<Rightarrow> nat option" where
  "strstr [] needle = (if needle = [] then Some 0 else None)"
| "strstr (c # s) needle = (if has_prefix needle (c # s) then Some 0 else map_option Suc (strstr s needle))"

type_synonym match = "string \<times> nat \<times> string"

function fauxgrep_lines :: "string \<Rightarrow> string \<Rightarrow> nat \<Rightarrow> string \<Rightarrow> match list" where
  "fauxgrep_lines needle path lineno f =
     (case getline f of
        None \<Rightarrow> []
      | Some (line, rest) \<Rightarrow>
          (if strstr (cstr line) needle \<noteq> None then [(path, lineno, cstr line)] else []) @
          fauxgrep_lines needle path (lineno + 1) rest)"
  by pat_completeness auto
termination
  by (relation "measure (\<lambda>(needle, path, lineno, f). length f)") (auto dest: getline_shorter)

declare fauxgrep_lines.simps [simp del]

text \<open>The return value and the lines printed.\<close>

definition fauxgrep_file :: "(string \<Rightarrow> string option) \<Rightarrow> string \<Rightarrow> string \<Rightarrow> int \<times> match list" where
  "fauxgrep_file fs needle path =
     (case fs path of
        None \<Rightarrow> (- 1, [])
      | Some f \<Rightarrow> (0, fauxgrep_lines needle path 1 f))"

section \<open>The single-threaded program\<close>

datatype grep_error = GrepUsage | GrepFtsFailed | GrepThreadCount | QueueInitFailed

fun fts_fauxgrep :: "(string \<Rightarrow> string option) \<Rightarrow> string \<Rightarrow> (fts_info \<times> string) list \<Rightarrow> match list" where
  "fts_fauxgrep fs needle [] = []"
| "fts_fauxgrep fs needle ((info, path) # es) =
     (case info of FTS_F \<Rightarrow> snd (fauxgrep_file fs needle path) | _ \<Rightarrow> []) @ fts_fauxgrep fs needle es"

definition fauxgrep_main :: "string list \<Rightarrow> (string list \<Rightarrow> (fts_info \<times> string) list option) \<Rightarrow> (string \<Rightarrow> string option) \<Rightarrow>
    grep_error + match list" where
  "fauxgrep_main argv fts fs =
     (if length argv < 2 then Inl GrepUsage
      else case fts (drop 2 argv) of
             None \<Rightarrow> Inl GrepFtsFailed
           | Some es \<Rightarrow> Inr (fts_fauxgrep fs (argv ! 1) es))"

section \<open>The multithreaded program\<close>

text \<open>The arguments: number of threads, needle and paths. \<open>argv[argc]\<close> is the null pointer.\<close>

definition mt_grep_args :: "string list \<Rightarrow> grep_error + int \<times> string \<times> string list" where
  "mt_grep_args argv =
     (if length argv < 2 then Inl GrepUsage
      else if length argv > 3 \<and> argv ! 1 = ''-n''
           then let n = atoi (argv ! 2) in
                if n < 1 then Inl GrepThreadCount else Inr (n, argv ! 3, drop 4 argv)
           else Inr (1, argv ! 1, drop 2 argv))"

text \<open>The visible steps of a worker for one path: its \<open>printf\<close> calls.\<close>

definition worker_function :: "(string \<Rightarrow> string option) \<Rightarrow> string \<Rightarrow> string \<Rightarrow> match list" where
  "worker_function fs needle filepath = snd (fauxgrep_file fs needle filepath)"

section \<open>Fibonacci numbers\<close>

text \<open>\<open>long long\<close> is a 64-bit word; the recursion is on the signed value of its argument.\<close>

function fib :: "int \<Rightarrow> u64" where
  "fib n = (if n < 2 then 1 else fib (n - 1) + fib (n - 2))"
  by pat_completeness auto
termination
  by (relation "measure nat") auto

declare fib.simps [simp del]

definition fib_line :: "string \<Rightarrow> int \<times> int" where
  "fib_line line = (let n = atoi (cstr line) in (n, sint (fib n)))"

text \<open>The visible steps of a worker of \<open>fibs.c\<close> for one line: one \<open>printf\<close> under the mutex.\<close>

definition fib_worker :: "string \<Rightarrow> (int \<times> int) list" where
  "fib_worker line = [fib_line line]"

definition fibs_args :: "string list \<Rightarrow> grep_error + int" where
  "fibs_args argv =
     (if length argv = 3 \<and> argv ! 1 = ''-n''
      then let n = atoi (argv ! 2) in if n < 1 then Inl GrepThreadCount else Inr n
      else Inr 1)"

section \<open>Lemmas\<close>

lemma has_prefix_iff: "has_prefix n s \<longleftrightarrow> prefix n s"
  by (induction n s rule: has_prefix.induct) auto

lemma strstr_sublist: "strstr s n = None \<longleftrightarrow> \<not> sublist n s"
  by (induction s) (auto simp: has_prefix_iff sublist_Cons_right)

lemma strstr_first:
  "strstr s n = Some k \<Longrightarrow> prefix n (drop k s) \<and> (\<forall>j < k. \<not> prefix n (drop j s))"
proof (induction s arbitrary: k)
  case Nil
  then show ?case by (auto split: if_splits)
next
  case (Cons c s)
  show ?case
  proof (cases "has_prefix n (c # s)")
    case True
    with Cons show ?thesis by (simp add: has_prefix_iff)
  next
    case False
    with Cons obtain k' where k: "k = Suc k'" "strstr s n = Some k'" by auto
    with Cons.IH False show ?thesis
      by (auto simp: has_prefix_iff less_Suc_eq_0_disj)
  qed
qed

definition matches :: "string \<Rightarrow> string \<Rightarrow> string list \<Rightarrow> nat \<Rightarrow> match list" where
  "matches needle path ls n =
     map (\<lambda>(i, l). (path, i, cstr l)) (filter (\<lambda>(i, l). sublist needle (cstr l)) (enumerate n ls))"

lemma fauxgrep_lines_matches: "fauxgrep_lines needle path n f = matches needle path (input_lines f) n"
proof (induction needle path n f rule: fauxgrep_lines.induct)
  case (1 needle path n f)
  show ?case
  proof (cases "getline f")
    case None
    then show ?thesis by (simp add: fauxgrep_lines.simps [of needle path n f] input_lines.simps [of f] matches_def)
  next
    case (Some p)
    obtain l rest where p: "p = (l, rest)" by (cases p)
    with Some 1 [OF Some p [symmetric]] show ?thesis
      by (simp add: fauxgrep_lines.simps [of needle path n f] input_lines.simps [of f] matches_def strstr_sublist del: not_None_eq)
  qed
qed

lemma fts_fauxgrep_concat: "fts_fauxgrep fs needle es = concat (map (worker_function fs needle) (file_jobs es))"
  by (induction fs needle es rule: fts_fauxgrep.induct)
    (auto simp: file_jobs_def worker_function_def split: fts_info.splits)

text \<open>The Fibonacci numbers over the natural numbers.\<close>

fun fib_nat :: "nat \<Rightarrow> nat" where
  "fib_nat 0 = 1"
| "fib_nat (Suc 0) = 1"
| "fib_nat (Suc (Suc n)) = fib_nat (Suc n) + fib_nat n"

lemma fib_of_nat: "fib (int n) = of_nat (fib_nat n)"
proof (induction n rule: fib_nat.induct)
  case (3 n)
  have "fib (int (Suc (Suc n))) = fib (int (Suc n)) + fib (int n)"
    by (subst fib.simps) (simp add: algebra_simps)
  with 3 show ?case by simp
qed (simp_all add: fib.simps)

lemma fib_nat_mono: "m \<le> n \<Longrightarrow> fib_nat m \<le> fib_nat n"
proof (induction n rule: fib_nat.induct)
  case (3 n)
  then show ?case by (cases "m = Suc (Suc n)") auto
qed (auto simp: le_Suc_eq)

section \<open>Properties\<close>

text \<open>
  Searching a file prints exactly its lines that contain the needle, with their numbers, in
  order; the lines it considers make up the whole file. A file that cannot be opened prints
  nothing and returns \<open>- 1\<close>.
\<close>

theorem fauxgrep_file_correct:
  "fauxgrep_file fs needle path =
     (case fs path of
        None \<Rightarrow> (- 1, [])
      | Some f \<Rightarrow> (0, matches needle path (input_lines f) 1)) \<and>
   concat (input_lines f) = f"
  by (simp add: fauxgrep_file_def fauxgrep_lines_matches concat_input_lines split: option.split)

text \<open>
  C14: The multithreaded search prints the same lines as the single-threaded one: however the
  threads interleave, once the queue is empty and the workers are done, the lines printed are
  those of the single-threaded program on the same entries, up to their order.
\<close>

theorem fauxgrep_mt_agrees:
  assumes "jq_run (job_queue_init (replicate 128 x)) evs s" "count s = 0" "enqs evs = file_jobs es"
    and "pool_run (worker_function fs needle) (pool_init num_threads) evs p" "pool_idle p"
  shows "mset (performed p) = mset (fts_fauxgrep fs needle es)"
  using queue128.pool_complete [OF assms(1,2,4,5)] assms(3) by (simp add: fts_fauxgrep_concat)

theorem fauxgrep_mt_agrees_witness:
  "mset [(''f'', 1, ''abc'')] = mset (fts_fauxgrep (\<lambda>_. Some ''abc'') ''b'' [(FTS_F, ''f'')])"
proof -
  let ?w = "worker_function (\<lambda>_. Some ''abc'') ''b''"
  obtain s where s: "jq_run (job_queue_init (replicate 128 [])) (one_job ''f'') s" "count s = 0"
    using one_job_run [of 127 "[]" "''f''"] by (auto simp: numeral_eq_Suc)
  have "?w ''f'' = [(''f'', 1, ''abc'')]"
    by (simp add: worker_function_def fauxgrep_file_def fauxgrep_lines.simps getline_def newline_def cstr_def nul_def)
  from one_job_pool [of ?w, OF this] s show ?thesis
    using fauxgrep_mt_agrees [of "[]" "one_job ''f''" s "[(FTS_F, ''f'')]" "\<lambda>_. Some ''abc''" "''b''" 1
        "\<lparr>pending = [[]], performed = [(''f'', 1, ''abc'')]\<rparr>"]
    by (simp add: file_jobs_def one_job_enqs pool_idle_def del: fts_fauxgrep.simps)
qed

text \<open>
  The Fibonacci program prints one result per line of input, each the Fibonacci number of the
  integer on the line modulo \<open>2 ^ 64\<close>: the recursion terminates for every argument.
\<close>

theorem fibs_correct:
  assumes "jq_run (job_queue_init (replicate 64 x)) evs s" "count s = 0" "enqs evs = input_lines inp"
    and "pool_run fib_worker (pool_init num_threads) evs p" "pool_idle p"
  shows "mset (performed p) =
    mset (map (\<lambda>l. (atoi (cstr l), sint (of_nat (fib_nat (nat (atoi (cstr l)))) :: u64))) (input_lines inp))"
proof -
  have "fib n = of_nat (fib_nat (nat n))" for n
  proof (cases "0 \<le> n")
    case True
    then show ?thesis using fib_of_nat [of "nat n"] by simp
  next
    case False
    then show ?thesis by (simp add: fib.simps)
  qed
  then have "fib_line l = (atoi (cstr l), sint (of_nat (fib_nat (nat (atoi (cstr l)))) :: u64))" for l
    by (simp add: fib_line_def Let_def)
  then have "concat (map fib_worker ls) = map (\<lambda>l. (atoi (cstr l), sint (of_nat (fib_nat (nat (atoi (cstr l)))) :: u64))) ls" for ls
    by (induction ls) (simp_all add: fib_worker_def)
  with queue64.pool_complete [OF assms(1,2,4,5)] assms(3) show ?thesis by simp
qed

theorem fibs_correct_witness:
  "mset [fib_line ''5''] = mset (map (\<lambda>l. (atoi (cstr l), sint (of_nat (fib_nat (nat (atoi (cstr l)))) :: u64))) (input_lines ''5''))"
proof -
  obtain s where s: "jq_run (job_queue_init (replicate 64 [])) (one_job ''5'') s" "count s = 0"
    using one_job_run [of 63 "[]" "''5''"] by (auto simp: numeral_eq_Suc)
  have "input_lines ''5'' = [''5'']" by (simp add: input_lines.simps getline_def newline_def)
  with one_job_pool [of fib_worker "''5''", OF fib_worker_def] s show ?thesis
    using fibs_correct [of "[]" "one_job ''5''" s "''5''" 1 "\<lparr>pending = [[]], performed = [fib_line ''5'']\<rparr>"]
    by (auto simp: one_job_enqs pool_idle_def)
qed

end
