(* ===== verification/Sha256.thy ===== *)
theory Sha256
  imports C_Lib
begin

text \<open>
  The hash function the peers sign with, \<open>Opgave4/src/sha256.c\<close>, and the function the standard
  (FIPS 180-4) defines. The code is compiled for a little-endian machine without
  \<open>RUNTIME_ENDIAN\<close> and \<open>SHA256_FAST_COPY\<close>: words in memory are little-endian and go through
  \<open>BYTESWAP\<close>. Lengths are natural numbers; the code's 32-bit counters hold at most 64 or the
  length of one call. \<open>burnStack\<close>, which overwrites dead stack memory, has no effect on the state.
\<close>

section \<open>Macros and tables\<close>

definition ROTL :: "u32 \<Rightarrow> nat \<Rightarrow> u32" where "ROTL x n = push_bit n x OR drop_bit (32 - n) x"
definition ROTR :: "u32 \<Rightarrow> nat \<Rightarrow> u32" where "ROTR x n = drop_bit n x OR push_bit (32 - n) x"

definition Ch :: "u32 \<Rightarrow> u32 \<Rightarrow> u32 \<Rightarrow> u32" where "Ch x y z = z XOR (x AND (y XOR z))"
definition Maj :: "u32 \<Rightarrow> u32 \<Rightarrow> u32 \<Rightarrow> u32" where "Maj x y z = (x AND (y OR z)) OR (y AND z)"
definition SIGMA0 :: "u32 \<Rightarrow> u32" where "SIGMA0 x = ROTR x 2 XOR ROTR x 13 XOR ROTR x 22"
definition SIGMA1 :: "u32 \<Rightarrow> u32" where "SIGMA1 x = ROTR x 6 XOR ROTR x 11 XOR ROTR x 25"
definition sigma0 :: "u32 \<Rightarrow> u32" where "sigma0 x = ROTR x 7 XOR ROTR x 18 XOR drop_bit 3 x"
definition sigma1 :: "u32 \<Rightarrow> u32" where "sigma1 x = ROTR x 17 XOR ROTR x 19 XOR drop_bit 10 x"

text \<open>The table has sixteen rows of four, as in the source.\<close>

definition K :: "u32 list" where
  "K = concat [
     [0x428a2f98, 0x71374491, 0xb5c0fbcf, 0xe9b5dba5], [0x3956c25b, 0x59f111f1, 0x923f82a4, 0xab1c5ed5],
     [0xd807aa98, 0x12835b01, 0x243185be, 0x550c7dc3], [0x72be5d74, 0x80deb1fe, 0x9bdc06a7, 0xc19bf174],
     [0xe49b69c1, 0xefbe4786, 0x0fc19dc6, 0x240ca1cc], [0x2de92c6f, 0x4a7484aa, 0x5cb0a9dc, 0x76f988da],
     [0x983e5152, 0xa831c66d, 0xb00327c8, 0xbf597fc7], [0xc6e00bf3, 0xd5a79147, 0x06ca6351, 0x14292967],
     [0x27b70a85, 0x2e1b2138, 0x4d2c6dfc, 0x53380d13], [0x650a7354, 0x766a0abb, 0x81c2c92e, 0x92722c85],
     [0xa2bfe8a1, 0xa81a664b, 0xc24b8b70, 0xc76c51a3], [0xd192e819, 0xd6990624, 0xf40e3585, 0x106aa070],
     [0x19a4c116, 0x1e376c08, 0x2748774c, 0x34b0bcb5], [0x391c0cb3, 0x4ed8aa4a, 0x5b9cca4f, 0x682e6ff3],
     [0x748f82ee, 0x78a5636f, 0x84c87814, 0x8cc70208], [0x90befffa, 0xa4506ceb, 0xbef9a3f7, 0xc67178f2]]"

definition BYTESWAP :: "u32 \<Rightarrow> u32" where
  "BYTESWAP x = (ROTR x 8 AND 0xff00ff00) OR (ROTL x 8 AND 0x00ff00ff)"

definition BYTESWAP64 :: "u64 \<Rightarrow> u64" where
  "BYTESWAP64 x =
     (let a = ucast (drop_bit 32 x) :: u32; b = ucast x :: u32
      in push_bit 32 (ucast (BYTESWAP b)) OR ucast (BYTESWAP a))"

definition padding :: bytes where
  "padding = 0x80 # replicate 63 0"

section \<open>Context\<close>

record sha256_ctx =
  totalLength :: u64
  hash :: "u32 list"
  bufferLength :: nat
  buffer_bytes :: bytes

definition initial_hash :: "u32 list" where
  "initial_hash = [0x6a09e667, 0xbb67ae85, 0x3c6ef372, 0xa54ff53a, 0x510e527f, 0x9b05688c, 0x1f83d9ab, 0x5be0cd19]"

text \<open>The buffer is not initialised: \<open>junk\<close> is what it holds.\<close>

definition sha256_init :: "bytes \<Rightarrow> sha256_ctx" where
  "sha256_init junk = \<lparr>totalLength = 0, hash = initial_hash, bufferLength = 0, buffer_bytes = junk\<rparr>"

text \<open>A word of the buffer as a little-endian machine reads it.\<close>

definition le_word :: "bytes \<Rightarrow> nat \<Rightarrow> u32" where
  "le_word bs i = ucast (bs ! (4 * i)) OR push_bit 8 (ucast (bs ! (4 * i + 1))) OR
     push_bit 16 (ucast (bs ! (4 * i + 2))) OR push_bit 24 (ucast (bs ! (4 * i + 3)))"

section \<open>The compression function\<close>

type_synonym working = "u32 \<times> u32 \<times> u32 \<times> u32 \<times> u32 \<times> u32 \<times> u32 \<times> u32"

definition DO_ROUND :: "u32 \<Rightarrow> u32 \<Rightarrow> working \<Rightarrow> working" where
  "DO_ROUND k w = (\<lambda>(a, b, c, d, e, f, g, h).
     let t1 = h + SIGMA1 e + Ch e f g + k + w;
         t2 = SIGMA0 a + Maj a b c
     in (t1 + t2, a, b, c, d + t1, e, f, g))"

text \<open>
  The message schedule: the array \<open>buf\<close> is filled from the left; the four read pointers trail
  the write pointer by 2, 7, 15 and 16.
\<close>

definition schedule_start :: "bytes \<Rightarrow> u32 list" where
  "schedule_start cbuf = fold (\<lambda>i W. W @ [BYTESWAP (le_word cbuf i)]) [0..<16] []"

definition schedule_step :: "nat \<Rightarrow> u32 list \<Rightarrow> u32 list" where
  "schedule_step i W = W @ [sigma1 (W ! (i + 14)) + W ! (i + 9) + sigma0 (W ! (i + 1)) + W ! i]"

definition schedule :: "bytes \<Rightarrow> u32 list" where
  "schedule cbuf = fold schedule_step [0..<48] (schedule_start cbuf)"

text \<open>Sixteen iterations of four rounds each.\<close>

definition four_rounds :: "u32 list \<Rightarrow> nat \<Rightarrow> working \<Rightarrow> working" where
  "four_rounds W i s =
     DO_ROUND (K ! (4 * i + 3)) (W ! (4 * i + 3)) (DO_ROUND (K ! (4 * i + 2)) (W ! (4 * i + 2))
       (DO_ROUND (K ! (4 * i + 1)) (W ! (4 * i + 1)) (DO_ROUND (K ! (4 * i)) (W ! (4 * i)) s)))"

definition SHA256Guts :: "bytes \<Rightarrow> sha256_ctx \<Rightarrow> sha256_ctx" where
  "SHA256Guts cbuf sc =
     (let W = schedule cbuf; H = hash sc;
          (a, b, c, d, e, f, g, h) = fold (four_rounds W) [0..<16] (H ! 0, H ! 1, H ! 2, H ! 3, H ! 4, H ! 5, H ! 6, H ! 7)
      in sc\<lparr>hash := [H ! 0 + a, H ! 1 + b, H ! 2 + c, H ! 3 + d, H ! 4 + e, H ! 5 + f, H ! 6 + g, H ! 7 + h]\<rparr>)"

section \<open>Streaming\<close>

text \<open>
  The loop of \<open>sha256_update\<close>. A buffer length above 64 would make \<open>64 - bufferLength\<close> wrap
  around and the copy run past the buffer: the error of the model.
\<close>

function update_loop :: "sha256_ctx \<Rightarrow> bytes \<Rightarrow> array_error + sha256_ctx" where
  "update_loop sc data =
     (if data = [] then Inr sc
      else if 64 < bufferLength sc then Inl OutOfBounds
      else let bytesToCopy = min (64 - bufferLength sc) (length data);
               sc = sc\<lparr>buffer_bytes := take (bufferLength sc) (buffer_bytes sc) @ take bytesToCopy data @
                        drop (bufferLength sc + bytesToCopy) (buffer_bytes sc),
                       totalLength := totalLength sc + of_nat bytesToCopy * 8,
                       bufferLength := bufferLength sc + bytesToCopy\<rparr>;
               sc = (if bufferLength sc = 64 then (SHA256Guts (buffer_bytes sc) sc)\<lparr>bufferLength := 0\<rparr> else sc)
           in update_loop sc (drop bytesToCopy data))"
  by pat_completeness auto
termination
  by (relation "measure (\<lambda>(sc, data). 2 * length data + (if bufferLength sc = 64 then 1 else 0))")
    (auto simp: Let_def min_def)

declare update_loop.simps [simp del]

definition sha256_update :: "sha256_ctx \<Rightarrow> bytes \<Rightarrow> array_error + sha256_ctx" where
  "sha256_update sc data = update_loop sc data"

text \<open>A 64-bit integer in memory, on a little-endian machine.\<close>

definition le_bytes64 :: "u64 \<Rightarrow> bytes" where
  "le_bytes64 x = map (\<lambda>i. ucast (drop_bit (8 * i) x)) [0..<8]"

definition hash_bytes :: "u32 \<Rightarrow> bytes" where
  "hash_bytes w = [ucast (drop_bit 24 w), ucast (drop_bit 16 w), ucast (drop_bit 8 w), ucast w]"

definition sha256_final :: "sha256_ctx \<Rightarrow> array_error + bytes" where
  "sha256_final sc =
     (let bytesToPad = 120 - bufferLength sc;
          bytesToPad = (if bytesToPad > 64 then bytesToPad - 64 else bytesToPad);
          lengthPad = BYTESWAP64 (totalLength sc)
      in rbind (sha256_update sc (take bytesToPad padding)) (\<lambda>sc.
         rbind (sha256_update sc (le_bytes64 lengthPad)) (\<lambda>sc.
           Inr (concat (map hash_bytes (hash sc))))))"

section \<open>The standard\<close>

definition rotr :: "nat \<Rightarrow> u32 \<Rightarrow> u32" where
  "rotr n x = word_of_int (horner_sum of_bool 2 (map (\<lambda>i. bit x ((i + n) mod 32)) [0..<32]))"

definition std_ch :: "u32 \<Rightarrow> u32 \<Rightarrow> u32 \<Rightarrow> u32" where
  "std_ch x y z = (x AND y) XOR (NOT x AND z)"
definition std_maj :: "u32 \<Rightarrow> u32 \<Rightarrow> u32 \<Rightarrow> u32" where
  "std_maj x y z = (x AND y) XOR (x AND z) XOR (y AND z)"

definition be_word :: "bytes \<Rightarrow> nat \<Rightarrow> u32" where
  "be_word bs i = word_of_int (uint (bs ! (4 * i)) * 2 ^ 24 + uint (bs ! (4 * i + 1)) * 2 ^ 16 +
     uint (bs ! (4 * i + 2)) * 2 ^ 8 + uint (bs ! (4 * i + 3)))"

fun std_W :: "bytes \<Rightarrow> nat \<Rightarrow> u32" where
  "std_W block t =
     (if t < 16 then be_word block t
      else (rotr 17 (std_W block (t - 2)) XOR rotr 19 (std_W block (t - 2)) XOR drop_bit 10 (std_W block (t - 2))) +
           std_W block (t - 7) +
           (rotr 7 (std_W block (t - 15)) XOR rotr 18 (std_W block (t - 15)) XOR drop_bit 3 (std_W block (t - 15))) +
           std_W block (t - 16))"

declare std_W.simps [simp del]

fun std_round :: "bytes \<Rightarrow> working \<Rightarrow> nat \<Rightarrow> working" where
  "std_round block (a, b, c, d, e, f, g, h) t =
     (let T1 = h + (rotr 6 e XOR rotr 11 e XOR rotr 25 e) + std_ch e f g + K ! t + std_W block t;
          T2 = (rotr 2 a XOR rotr 13 a XOR rotr 22 a) + std_maj a b c
      in (T1 + T2, a, b, c, d + T1, e, f, g))"

definition std_compress :: "u32 list \<Rightarrow> bytes \<Rightarrow> u32 list" where
  "std_compress H block =
     (let (a, b, c, d, e, f, g, h) =
        foldl (std_round block) (H ! 0, H ! 1, H ! 2, H ! 3, H ! 4, H ! 5, H ! 6, H ! 7) [0..<64]
      in map2 (+) [a, b, c, d, e, f, g, h] H)"

text \<open>The padded message: a one bit, zeros, and the length in bits as a 64-bit big-endian number.\<close>

definition be_bytes64 :: "int \<Rightarrow> bytes" where
  "be_bytes64 n = map (\<lambda>i. word_of_int (n div 256 ^ (7 - i))) [0..<8]"

definition std_pad :: "bytes \<Rightarrow> bytes" where
  "std_pad m = m @ [0x80] @ replicate (nat ((55 - int (length m)) mod 64)) 0 @ be_bytes64 (8 * int (length m))"

function blocks :: "bytes \<Rightarrow> bytes list" where
  "blocks m = (if length m < 64 then [] else take 64 m # blocks (drop 64 m))"
  by pat_completeness auto
termination
  by (relation "measure length") auto

declare blocks.simps [simp del]

definition std_sha256 :: "bytes \<Rightarrow> bytes" where
  "std_sha256 m = concat (map (\<lambda>w. map (\<lambda>i. word_of_int (uint w div 256 ^ (3 - i))) [0..<4])
     (foldl std_compress initial_hash (blocks (std_pad m))))"

section \<open>The macros compute the functions of the standard\<close>

lemma bit_rotr: "bit (rotr n x) i \<longleftrightarrow> i < 32 \<and> bit x ((i + n) mod 32)"
  by (auto simp: rotr_def bit_simps bit_horner_sum_bit_iff)

lemma ROTR_rotr:
  assumes "n < 32"
  shows "ROTR x n = rotr n x"
proof (rule bit_word_eqI)
  fix i :: nat assume i: "i < LENGTH(32)"
  show "bit (ROTR x n) i = bit (rotr n x) i"
  proof (cases "i + n < 32")
    case True
    with i assms show ?thesis by (auto simp: ROTR_def bit_rotr bit_simps add.commute)
  next
    case False
    then have "(i + n) mod 32 = i + n - 32" using i assms by (simp add: mod_if)
    moreover have "i - (32 - n) = i + n - 32" using assms by simp
    ultimately show ?thesis using False i assms by (auto simp: ROTR_def bit_rotr bit_simps add.commute)
  qed
qed

lemma sigma_eqs:
  "SIGMA0 x = rotr 2 x XOR rotr 13 x XOR rotr 22 x" "SIGMA1 x = rotr 6 x XOR rotr 11 x XOR rotr 25 x"
  "sigma0 x = rotr 7 x XOR rotr 18 x XOR drop_bit 3 x" "sigma1 x = rotr 17 x XOR rotr 19 x XOR drop_bit 10 x"
  by (simp_all add: SIGMA0_def SIGMA1_def sigma0_def sigma1_def ROTR_rotr)

lemma Ch_std: "Ch x y z = std_ch x y z" and Maj_std: "Maj x y z = std_maj x y z"
  by (rule bit_word_eqI; auto simp: Ch_def std_ch_def Maj_def std_maj_def bit_simps)+

lemma BYTESWAP_join: "BYTESWAP (join32 b0 b1 b2 b3) = join32 b3 b2 b1 b0"
  by (simp add: BYTESWAP_def ROTR_def ROTL_def join32_def word32_eq_iff word_bits_less bit_simps)

lemma BYTESWAP_le_word: "BYTESWAP (le_word bs i) = be_word bs i"
proof -
  have "le_word bs i = join32 (bs ! (4 * i)) (bs ! (4 * i + 1)) (bs ! (4 * i + 2)) (bs ! (4 * i + 3))"
    by (simp add: le_word_def join32_def)
  then show ?thesis
    by (simp only: BYTESWAP_join) (simp only: join32_word_at be_word_def, simp add: algebra_simps)
qed

section \<open>The compression function\<close>

lemma schedule_start_eq: "schedule_start cbuf = map (std_W cbuf) [0..<16]"
proof -
  have "fold (\<lambda>i W. W @ [BYTESWAP (le_word cbuf i)]) xs W0 = W0 @ map (be_word cbuf) xs" for xs W0
    by (induction xs arbitrary: W0) (simp_all add: BYTESWAP_le_word)
  then have "schedule_start cbuf = map (be_word cbuf) [0..<16]" by (simp add: schedule_start_def)
  also have "\<dots> = map (std_W cbuf) [0..<16]" by (rule map_cong) (simp_all add: std_W.simps)
  finally show ?thesis .
qed

lemma schedule_eq: "schedule cbuf = map (std_W cbuf) [0..<64]"
proof -
  have "fold schedule_step [0..<n] (schedule_start cbuf) = map (std_W cbuf) [0..<16 + n]" for n
  proof (induction n)
    case 0
    show ?case by (simp add: schedule_start_eq)
  next
    case (Suc n)
    have "std_W cbuf (16 + n) = sigma1 (std_W cbuf (n + 14)) + std_W cbuf (n + 9) + sigma0 (std_W cbuf (n + 1)) + std_W cbuf n"
      by (subst std_W.simps) (simp add: sigma_eqs add.commute)
    moreover have "map (std_W cbuf) [0..<16 + Suc n] = map (std_W cbuf) [0..<16 + n] @ [std_W cbuf (16 + n)]"
      using upt_Suc_append [of 0 "16 + n"] by (simp only: add_Suc_right map_append list.map le0)
    ultimately show ?case using Suc by (simp add: schedule_step_def nth_append)
  qed
  from this [of 48] show ?thesis by (simp add: schedule_def)
qed

lemma working_cases:
  fixes s :: working
  obtains a b c d e f g h where "s = (a, b, c, d, e, f, g, h)"
  by (cases s) auto

lemma DO_ROUND_std: "DO_ROUND (K ! t) (std_W block t) s = std_round block s t"
  by (cases s rule: working_cases) (simp add: DO_ROUND_def sigma_eqs Ch_std Maj_std Let_def)

lemma rounds_std:
  assumes "n \<le> 16"
  shows "fold (four_rounds (map (std_W block) [0..<64])) [0..<n] s = foldl (std_round block) s [0..<4 * n]"
  using assms
proof (induction n)
  case (Suc n)
  then have n: "4 * n < 64" "4 * n + 1 < 64" "4 * n + 2 < 64" "4 * n + 3 < 64" by auto
  have "[0..<4 * Suc n] = [0..<4 * n] @ [4 * n, 4 * n + 1, 4 * n + 2, 4 * n + 3]"
    using upt_add_eq_append [of 0 "4 * n" 4] by (simp add: numeral_eq_Suc)
  with Suc n show ?case
    by (simp add: four_rounds_def DO_ROUND_std del: std_round.simps)
qed simp

lemma length_8_cases:
  assumes "length (H :: u32 list) = 8"
  shows "H = [H ! 0, H ! 1, H ! 2, H ! 3, H ! 4, H ! 5, H ! 6, H ! 7]"
proof -
  have "[0..<8] = [0, 1, 2, 3, 4, 5, 6, 7 :: nat]" by (simp add: upt_rec)
  then have "map ((!) H) [0..<8] = [H ! 0, H ! 1, H ! 2, H ! 3, H ! 4, H ! 5, H ! 6, H ! 7]" by simp
  moreover have "map ((!) H) [0..<8] = H" using map_nth [of H] assms by simp
  ultimately show ?thesis by (rule trans [OF sym, rotated])
qed

lemma SHA256Guts_hash:
  assumes "length (hash sc) = 8"
  shows "SHA256Guts cbuf sc = sc\<lparr>hash := std_compress (hash sc) cbuf\<rparr>"
proof -
  let ?H = "hash sc"
  obtain a b c d e f g h where r: "foldl (std_round cbuf) (?H ! 0, ?H ! 1, ?H ! 2, ?H ! 3, ?H ! 4, ?H ! 5, ?H ! 6, ?H ! 7) [0..<64] =
      (a, b, c, d, e, f, g, h)"
    by (rule working_cases)
  have "map2 (+) [a, b, c, d, e, f, g, h] ?H =
      [?H ! 0 + a, ?H ! 1 + b, ?H ! 2 + c, ?H ! 3 + d, ?H ! 4 + e, ?H ! 5 + f, ?H ! 6 + g, ?H ! 7 + h]"
    by (subst length_8_cases [OF assms]) (simp add: add.commute)
  with r rounds_std [of 16 cbuf] show ?thesis
    by (simp add: SHA256Guts_def std_compress_def schedule_eq Let_def del: upt_Suc)
qed

lemma length_std_compress: "length H = 8 \<Longrightarrow> length (std_compress H block) = 8"
  by (cases "foldl (std_round block) (H ! 0, H ! 1, H ! 2, H ! 3, H ! 4, H ! 5, H ! 6, H ! 7) [0..<64]" rule: working_cases)
    (simp add: std_compress_def del: upt_Suc)

section \<open>Streaming\<close>

lemma blocks_append: "length a mod 64 = 0 \<Longrightarrow> blocks (a @ b) = blocks a @ blocks b"
proof (induction a rule: blocks.induct)
  case (1 a)
  show ?case
  proof (cases "length a < 64")
    case True
    with 1(2) have "a = []" by auto
    then show ?thesis by (simp add: blocks.simps [of "[]"])
  next
    case False
    then have "length (drop 64 a) mod 64 = 0" using 1(2) by (simp add: le_mod_geq)
    with False 1(1) show ?thesis by (simp add: blocks.simps [of "a @ b"] blocks.simps [of a])
  qed
qed

lemma blocks_short: "length b < 64 \<Longrightarrow> blocks b = []"
  and blocks_one: "length b = 64 \<Longrightarrow> blocks b = [b]"
  by (simp_all add: blocks.simps)

text \<open>What has been fed in so far is \<open>m\<close>: its full blocks are in the hash, the rest is in the buffer.\<close>

definition absorbed :: "sha256_ctx \<Rightarrow> bytes \<Rightarrow> bool" where
  "absorbed sc m \<longleftrightarrow> (\<exists>a r. m = a @ r \<and> length a mod 64 = 0 \<and> length r < 64 \<and> length (buffer_bytes sc) = 64 \<and>
     bufferLength sc = length r \<and> take (length r) (buffer_bytes sc) = r \<and>
     hash sc = foldl std_compress initial_hash (blocks a) \<and> totalLength sc = of_nat (8 * length m))"

lemma length_hash: "length (foldl std_compress initial_hash bs) = 8"
  by (induction bs rule: rev_induct) (simp_all add: length_std_compress, simp add: initial_hash_def)

lemma absorbed_init: "length junk = 64 \<Longrightarrow> absorbed (sha256_init junk) []"
  by (simp add: absorbed_def sha256_init_def blocks_short)

text \<open>One iteration of the loop takes a prefix of the data in.\<close>

definition absorb_step :: "sha256_ctx \<Rightarrow> bytes \<Rightarrow> sha256_ctx" where
  "absorb_step sc data =
     (let n = min (64 - bufferLength sc) (length data);
          sc = sc\<lparr>buffer_bytes := take (bufferLength sc) (buffer_bytes sc) @ take n data @
                    drop (bufferLength sc + n) (buffer_bytes sc),
                  totalLength := totalLength sc + of_nat n * 8,
                  bufferLength := bufferLength sc + n\<rparr>
      in if bufferLength sc = 64 then (SHA256Guts (buffer_bytes sc) sc)\<lparr>bufferLength := 0\<rparr> else sc)"

lemma update_loop_step:
  "data \<noteq> [] \<Longrightarrow> bufferLength sc \<le> 64 \<Longrightarrow>
     update_loop sc data = update_loop (absorb_step sc data) (drop (min (64 - bufferLength sc) (length data)) data)"
  by (subst update_loop.simps) (simp add: absorb_step_def Let_def not_less)

lemma absorb_step_absorbs:
  assumes "absorbed sc m"
  shows "absorbed (absorb_step sc data) (m @ take (min (64 - bufferLength sc) (length data)) data)"
proof -
  obtain a r where m: "m = a @ r" "length a mod 64 = 0" "length r < 64" "length (buffer_bytes sc) = 64"
    "bufferLength sc = length r" "take (length r) (buffer_bytes sc) = r"
    "hash sc = foldl std_compress initial_hash (blocks a)" "totalLength sc = of_nat (8 * length m)"
    using assms unfolding absorbed_def by iprover
  define n where "n = min (64 - length r) (length data)"
  define d where "d = take n data"
  have d: "length d = n" by (simp add: d_def n_def)
  have tl: "totalLength sc + of_nat n * 8 = of_nat (8 * length (m @ d))" using m(8) d by (simp add: algebra_simps)
  show ?thesis
  proof (cases "length r + n = 64")
    case True
    have "blocks (a @ (r @ d)) = blocks a @ [r @ d]"
      using blocks_append [OF m(2), of "r @ d"] blocks_one [of "r @ d"] True d by simp
    then have "hash (absorb_step sc data) = foldl std_compress initial_hash (blocks (m @ d))"
      using True m d length_hash
      by (simp add: absorb_step_def n_def [symmetric] d_def [symmetric] SHA256Guts_hash Let_def)
    moreover have "bufferLength (absorb_step sc data) = 0" "length (buffer_bytes (absorb_step sc data)) = 64"
      "totalLength (absorb_step sc data) = of_nat (8 * length (m @ d))"
      using True m d tl length_hash
      by (simp_all add: absorb_step_def n_def [symmetric] d_def [symmetric] SHA256Guts_hash Let_def)
    moreover have "length (m @ d) mod 64 = 0"
      using m(1,2) True d by (metis add.assoc length_append mod_add_self2 )
    ultimately show ?thesis
      unfolding absorbed_def m(5) n_def [symmetric] d_def [symmetric] by (intro exI [of _ "m @ d"] exI [of _ "[]"]) simp
  next
    case False
    then have "length r + n < 64" using m(3) by (auto simp: n_def min_def split: if_splits)
    have "absorb_step sc data = sc\<lparr>buffer_bytes := r @ d @ drop (length r + n) (buffer_bytes sc),
        totalLength := of_nat (8 * length (m @ d)), bufferLength := length r + n\<rparr>"
      unfolding absorb_step_def Let_def m(5) n_def [symmetric] d_def [symmetric] m(6) tl
      using False by simp
    with m(1-4,7) d \<open>length r + n < 64\<close> show ?thesis
      unfolding absorbed_def m(5) n_def [symmetric] d_def [symmetric]
      by (intro exI [of _ a] exI [of _ "r @ d"]) simp
  qed
qed

lemma absorbed_bufferLength: "absorbed sc m \<Longrightarrow> bufferLength sc < 64 \<and> bufferLength sc = length m mod 64"
  by (auto simp: absorbed_def mod_add_left_eq [of "length _", symmetric])

lemma update_absorbs:
  "absorbed sc m \<Longrightarrow> \<exists>sc'. sha256_update sc data = Inr sc' \<and> absorbed sc' (m @ data)"
  unfolding sha256_update_def
proof (induction "length data" arbitrary: sc m data rule: less_induct)
  case less
  show ?case
  proof (cases "data = []")
    case True
    with less show ?thesis by (simp add: update_loop.simps)
  next
    case False
    let ?n = "min (64 - bufferLength sc) (length data)"
    have b: "bufferLength sc < 64" using less(2) absorbed_bufferLength by blast
    then have "length (drop ?n data) < length data" using False by (auto simp: min_def)
    from less(1) [OF this absorb_step_absorbs [OF less(2), of data]]
    show ?thesis using update_loop_step [OF False, of sc] b by simp
  qed
qed

section \<open>Padding and output\<close>

lemma byte_div: "ucast (drop_bit (8 * k) w) = (word_of_int (uint w div 256 ^ k) :: u8)" for w :: "'a::len word"
proof -
  have "bit (word_of_int (uint w div 256 ^ k) :: u8) i \<longleftrightarrow> i < 8 \<and> bit w (8 * k + i)" for i
  proof -
    have "(256 :: int) ^ k = 2 ^ (8 * k)" by (simp add: power_mult)
    then have "uint w div 256 ^ k = drop_bit (8 * k) (uint w)" by (simp add: drop_bit_eq_div)
    then show ?thesis by (auto simp: bit_simps dest: bit_imp_le_length)
  qed
  then show ?thesis by (intro bit_word_eqI) (auto simp: bit_simps)
qed

lemma hash_bytes_std: "hash_bytes w = map (\<lambda>i. word_of_int (uint w div 256 ^ (3 - i))) [0..<4]"
  using byte_div [of 0 w] byte_div [of 1 w] byte_div [of 2 w] byte_div [of 3 w]
  by (simp add: hash_bytes_def upt_rec)

lemma lengthPad_bytes: "le_bytes64 (BYTESWAP64 (word_of_int n)) = be_bytes64 n"
proof (rule nth_equalityI)
  fix i assume "i < length (le_bytes64 (BYTESWAP64 (word_of_int n)))"
  then have i: "i < 8" by (simp add: le_bytes64_def)
  then have "i = 0 \<or> i = 1 \<or> i = 2 \<or> i = 3 \<or> i = 4 \<or> i = 5 \<or> i = 6 \<or> i = 7" by linarith
  then have "ucast (drop_bit (8 * i) (BYTESWAP64 x)) = (ucast (drop_bit (8 * (7 - i)) x) :: u8)" for x
    by (elim disjE) (simp_all add: BYTESWAP64_def BYTESWAP_def ROTR_def ROTL_def Let_def word8_eq_iff all_less_8 bit_simps)
  moreover have "(ucast (drop_bit (8 * (7 - i)) (word_of_int n :: u64)) :: u8) = word_of_int (n div 256 ^ (7 - i))"
  proof -
    have "(256 :: int) ^ (7 - i) = 2 ^ (8 * (7 - i))" by (simp only: power_mult) simp
    then have "n div 256 ^ (7 - i) = drop_bit (8 * (7 - i)) n" by (simp add: drop_bit_eq_div)
    then show ?thesis using i by (intro bit_word_eqI) (auto simp: bit_simps)
  qed
  ultimately show "le_bytes64 (BYTESWAP64 (word_of_int n)) ! i = be_bytes64 n ! i"
    using i by (simp add: le_bytes64_def be_bytes64_def)
qed (simp add: le_bytes64_def be_bytes64_def)

lemma pad_count:
  "(if 120 - l mod 64 > 64 then 120 - l mod 64 - 64 else 120 - l mod 64) = nat ((55 - int l) mod 64) + 1" for l :: nat
proof -
  define k where "k = l mod 64"
  have k: "k < 64" by (simp add: k_def)
  have "(55 - int l) mod 64 = (55 - int k) mod 64" by (simp add: k_def mod_diff_right_eq zmod_int)
  also have "\<dots> = (if k \<le> 55 then 55 - int k else 119 - int k)"
    using k mod_add_self2 [of "55 - int k" 64] by (auto simp: mod_pos_pos_trivial)
  finally show ?thesis unfolding k_def [symmetric] using k by auto
qed

lemma take_padding: "0 < n \<Longrightarrow> n \<le> 64 \<Longrightarrow> take n padding = 0x80 # replicate (n - 1) 0"
  by (cases n) (simp_all add: padding_def min_def)

lemma sha256_final_absorbed:
  assumes "absorbed sc m"
  shows "sha256_final sc = Inr (std_sha256 m)"
proof -
  let ?n = "nat ((55 - int (length m)) mod 64)"
  have bl: "bufferLength sc = length m mod 64" using absorbed_bufferLength [OF assms] by simp
  have tl: "totalLength sc = word_of_int (8 * int (length m))" using assms by (auto simp: absorbed_def)
  have n: "?n < 64" by (simp add: nat_less_iff)
  have p: "take (?n + 1) padding = 0x80 # replicate ?n 0" using take_padding [of "?n + 1"] n by simp
  obtain sc1 where sc1: "sha256_update sc (take (?n + 1) padding) = Inr sc1" "absorbed sc1 (m @ take (?n + 1) padding)"
    using update_absorbs [OF assms] by blast
  obtain sc2 where sc2: "sha256_update sc1 (be_bytes64 (8 * int (length m))) = Inr sc2" "absorbed sc2 (std_pad m)"
    using update_absorbs [OF sc1(2), of "be_bytes64 (8 * int (length m))"] p by (auto simp: std_pad_def)
  have "(length m + 1 + ?n + 8) mod 64 = 0"
  proof -
    have "int (length m + 1 + ?n + 8) mod 64 = (int (length m) + 9 + (55 - int (length m)) mod 64) mod 64" by (simp add: add_ac)
    also have "\<dots> = (int (length m) + 9 + (55 - int (length m))) mod 64" by (rule mod_add_right_eq)
    finally have "int (length m + 1 + ?n + 8) mod 64 = 0" by simp
    then show ?thesis by (metis of_nat_0_eq_iff of_nat_mod of_nat_numeral)
  qed
  then have "length (std_pad m) mod 64 = 0" by (simp add: std_pad_def be_bytes64_def add_ac)
  with sc2(2) have "hash sc2 = foldl std_compress initial_hash (blocks (std_pad m))"
    using absorbed_bufferLength [OF sc2(2)] by (auto simp: absorbed_def)
  with sc1(1) sc2(1) show ?thesis
    unfolding sha256_final_def Let_def bl tl lengthPad_bytes pad_count
    by (simp add: std_sha256_def hash_bytes_std [abs_def])
qed

section \<open>Properties\<close>

fun update_all :: "sha256_ctx \<Rightarrow> bytes list \<Rightarrow> array_error + sha256_ctx" where
  "update_all sc [] = Inr sc"
| "update_all sc (d # ds) = rbind (sha256_update sc d) (\<lambda>sc. update_all sc ds)"

lemma update_all_absorbs: "absorbed sc m \<Longrightarrow> \<exists>sc'. update_all sc ds = Inr sc' \<and> absorbed sc' (m @ concat ds)"
proof (induction ds arbitrary: sc m)
  case (Cons d ds)
  obtain sc1 where "sha256_update sc d = Inr sc1" "absorbed sc1 (m @ d)" using update_absorbs [OF Cons(2)] by blast
  with Cons(1) [of sc1 "m @ d"] show ?case by simp
qed simp

text \<open>The digest of one message, as \<open>get_data_sha\<close> computes it.\<close>

definition sha256_digest :: "bytes \<Rightarrow> bytes \<Rightarrow> array_error + bytes" where
  "sha256_digest junk m = rbind (sha256_update (sha256_init junk) m) sha256_final"

lemma sha256_digest_std: "length junk = 64 \<Longrightarrow> sha256_digest junk m = Inr (std_sha256 m)"
  using update_absorbs [OF absorbed_init, of junk m] sha256_final_absorbed by (auto simp: sha256_digest_def)

lemma length_std_sha256: "length (std_sha256 m) = 32"
proof -
  have "length (concat (map (\<lambda>w. map (\<lambda>i. word_of_int (uint w div 256 ^ (3 - i)) :: u8) [0..<4]) ws)) = 4 * length ws"
    for ws :: "u32 list" by (induction ws) simp_all
  then show ?thesis by (simp add: std_sha256_def length_hash)
qed

text \<open>
  C3: The streaming hash is the hash function of the standard: whatever the buffer held before and
  however a message is cut into calls of \<open>sha256_update\<close>, the code copies only inside its buffer and
  the result of \<open>sha256_final\<close> is the 32-byte digest FIPS 180-4 defines for the whole message.
\<close>

theorem sha256_streaming_correct:
  assumes "length junk = 64"
  shows "rbind (update_all (sha256_init junk) ds) sha256_final = Inr (std_sha256 (concat ds)) \<and>
    length (std_sha256 (concat ds)) = 32"
  using update_all_absorbs [OF absorbed_init [OF assms], of ds] sha256_final_absorbed length_std_sha256 by auto

theorem sha256_streaming_correct_witness:
  "rbind (update_all (sha256_init (replicate 64 0)) [[0x61], [0x62, 0x63]]) sha256_final = Inr (std_sha256 [0x61, 0x62, 0x63])"
  using sha256_streaming_correct [of "replicate 64 0" "[[0x61], [0x62, 0x63]]"] by simp

definition first_primes :: "int list" where
  "first_primes = [2, 3, 5, 7, 11, 13, 17, 19, 23, 29, 31, 37, 41, 43, 47, 53, 59, 61, 67, 71, 73, 79, 83, 89, 97,
     101, 103, 107, 109, 113, 127, 131, 137, 139, 149, 151, 157, 163, 167, 173, 179, 181, 191, 193, 197, 199, 211,
     223, 227, 229, 233, 239, 241, 251, 257, 263, 269, 271, 277, 281, 283, 293, 307, 311]"

text \<open>The whole parts of the roots, and that a word continues them.\<close>

definition whole_cube_root :: "int \<Rightarrow> int" where
  "whole_cube_root p = (if p < 8 then 1 else if p < 27 then 2 else if p < 64 then 3 else if p < 125 then 4
     else if p < 216 then 5 else 6)"

definition cube_root_bits :: "int \<Rightarrow> u32 \<Rightarrow> bool" where
  "cube_root_bits p k =
     (let v = uint k + whole_cube_root p * 2 ^ 32 in v * v * v \<le> p * 2 ^ 96 \<and> p * 2 ^ 96 < (v + 1) * (v + 1) * (v + 1))"

definition square_root_bits :: "int \<Rightarrow> u32 \<Rightarrow> bool" where
  "square_root_bits p k =
     (let v = uint k + (if p < 4 then 1 else if p < 9 then 2 else if p < 16 then 3 else 4) * 2 ^ 32
      in v * v \<le> p * 2 ^ 64 \<and> p * 2 ^ 64 < (v + 1) * (v + 1))"

text \<open>
  The constants are the ones the standard prescribes: each entry of the table \<open>K\<close> holds the
  first 32 bits of the fractional part of the cube root of one of the first 64 primes, and the
  initial hash those of the square roots of the first eight primes.
\<close>

theorem sha256_constants:
  "list_all2 cube_root_bits first_primes K \<and> list_all2 square_root_bits (take 8 first_primes) initial_hash"
  by (simp add: first_primes_def K_def initial_hash_def cube_root_bits_def square_root_bits_def whole_cube_root_def)

end
