(* ===== verification/Sha256_Vectors.thy ===== *)
theory Sha256_Vectors
  imports Sha256
begin

text \<open>
  The hash function on concrete messages, evaluated by the code equations of the model of
  \<open>Opgave4/src/sha256.c\<close>: the first sample message of its header comment, and the empty message,
  which the peers hash for an empty file.
\<close>

text \<open>
  On the message \<open>abc\<close> the code gives the digest that the comment at the top of \<open>sha256.c\<close> lists,
  \<open>ba7816bf 8f01cfea 414140de 5dae2223 b00361a3 96177a9c b410ff61 f20015ad\<close>.
\<close>

theorem sha256_sample_message:
  "sha256_digest (replicate 64 0) [0x61, 0x62, 0x63] = Inr (concat (map hash_bytes
     [0xba7816bf, 0x8f01cfea, 0x414140de, 0x5dae2223, 0xb00361a3, 0x96177a9c, 0xb410ff61, 0xf20015ad]))"
  by code_simp

lemma sha256_digest_empty:
  "sha256_digest (replicate 64 0) [] = Inr (concat (map hash_bytes
     [0xe3b0c442, 0x98fc1c14, 0x9afbf4c8, 0x996fb924, 0x27ae41e4, 0x649b934c, 0xa495991b, 0x7852b855]))"
  by code_simp

lemma std_sha256_empty: "std_sha256 [] \<noteq> replicate 32 0"
proof -
  have "std_sha256 [] = concat (map hash_bytes
      [0xe3b0c442, 0x98fc1c14, 0x9afbf4c8, 0x996fb924, 0x27ae41e4, 0x649b934c, 0xa495991b, 0x7852b855])"
    using sha256_digest_std [of "replicate 64 0" "[]"] sha256_digest_empty by simp
  then have "hd (std_sha256 []) = 0xe3" by (simp add: hash_bytes_def)
  then have "hd (std_sha256 []) \<noteq> hd (replicate 32 0)" by simp
  then show ?thesis by metis
qed

end
