(* ===== verification/Compsys_IO.thy ===== *)
theory Compsys_IO
  imports C_Lib
begin

text \<open>
  The robust input and output of the peer program, \<open>Opgave4/src/compsys_helpers.c\<close>. The operating
  system is the environment: what arrives on a descriptor is a list of arrivals, each answering
  one or more calls of \<open>read\<close>, and what \<open>write\<close>, \<open>socket\<close>, \<open>connect\<close>, \<open>bind\<close>, \<open>listen\<close> and
  \<open>close\<close> answer is given as lists too. The lists are finite: a signal does not interrupt the same
  call for ever. Lengths are natural numbers, and those asked for fit an \<open>int\<close>.
\<close>

section \<open>Descriptors\<close>

text \<open>
  \<open>Data bs\<close> is a packet, of which a call takes as much as it asks for; an empty one is the end of
  the file seen by one call, and so is the end of the list. \<open>Interrupted\<close> makes a call fail with
  \<open>EINTR\<close>, \<open>Failed\<close> with any other error.
\<close>

datatype arrival = Data bytes | Interrupted | Failed

type_synonym conn = "arrival list"

datatype read_result = Got bytes | ReadEINTR | ReadError

fun sys_read :: "conn \<Rightarrow> nat \<Rightarrow> read_result \<times> conn" where
  "sys_read [] n = (Got [], [])"
| "sys_read (Data bs # cs) n = (Got (take n bs), if length bs \<le> n then cs else Data (drop n bs) # cs)"
| "sys_read (Interrupted # cs) n = (ReadEINTR, cs)"
| "sys_read (Failed # cs) n = (ReadError, cs)"

text \<open>The bytes a descriptor delivers, and whether the end of the file follows (or an error).\<close>

fun stream :: "conn \<Rightarrow> bytes \<times> bool" where
  "stream [] = ([], True)"
| "stream (Data bs # cs) = (if bs = [] then ([], True) else (bs @ fst (stream cs), snd (stream cs)))"
| "stream (Interrupted # cs) = stream cs"
| "stream (Failed # cs) = ([], False)"

fun conn_size :: "conn \<Rightarrow> nat" where
  "conn_size [] = 0"
| "conn_size (Data bs # cs) = 1 + length bs + conn_size cs"
| "conn_size (_ # cs) = 1 + conn_size cs"

lemma sys_read_size:
  assumes "sys_read c n = (r, c')"
  shows "r = Got bs \<Longrightarrow> bs \<noteq> [] \<Longrightarrow> conn_size c' < conn_size c" "r = ReadEINTR \<Longrightarrow> conn_size c' < conn_size c"
  using assms by (cases "(c, n)" rule: sys_read.cases; auto split: if_splits)+

lemma sys_read_Got:
  assumes "sys_read c n = (Got bs, c')" "0 < n"
  shows "length bs \<le> n" "bs = [] \<Longrightarrow> stream c = ([], True)"
    "bs \<noteq> [] \<Longrightarrow> stream c = (bs @ fst (stream c'), snd (stream c'))"
  using assms by (cases "(c, n)" rule: sys_read.cases; auto split: if_splits)+

lemma sys_read_errors:
  "sys_read c n = (ReadEINTR, c') \<Longrightarrow> stream c = stream c'"
  "sys_read c n = (ReadError, c') \<Longrightarrow> stream c = ([], False)"
  by (cases "(c, n)" rule: sys_read.cases; auto)+

section \<open>Reading without a buffer\<close>

text \<open>Each function returns its result, the bytes it stored for the caller, and the descriptor.\<close>

function readn_loop :: "conn \<Rightarrow> nat \<Rightarrow> nat \<Rightarrow> bytes \<Rightarrow> int \<times> bytes \<times> conn" where
  "readn_loop c n nleft acc =
     (if nleft > 0 then
        case sys_read c nleft of
          (ReadEINTR, c) \<Rightarrow> readn_loop c n nleft acc
        | (ReadError, c) \<Rightarrow> (- 1, acc, c)
        | (Got bs, c) \<Rightarrow>
            if bs = [] then (int n - int nleft, acc, c)
            else readn_loop c n (nleft - length bs) (acc @ bs)
      else (int n - int nleft, acc, c))"
  by pat_completeness auto
termination
  by (relation "measure (\<lambda>(c, n, nleft, acc). conn_size c)") (auto dest: sys_read_size [OF sym])

declare readn_loop.simps [simp del]

definition compsys_helper_readn :: "conn \<Rightarrow> nat \<Rightarrow> int \<times> bytes \<times> conn" where
  "compsys_helper_readn c n = readn_loop c n n []"

section \<open>Writing\<close>

text \<open>
  \<open>Wrote k\<close> accepts up to \<open>k\<close> bytes, \<open>WriteErr e\<close> fails with \<open>errno = EINTR\<close> or another error. A
  call that accepts nothing leaves \<open>errno\<close> as it was, which the code then looks at; so the
  model keeps whether \<open>errno\<close> is \<open>EINTR\<close>. An exhausted list is a broken connection.
\<close>

datatype write_answer = Wrote nat | WriteErr bool

fun writen_loop :: "write_answer list \<Rightarrow> bool \<Rightarrow> nat \<Rightarrow> bytes \<Rightarrow> bytes \<Rightarrow> int \<times> bytes" where
  "writen_loop [] errno n left out = (if left = [] then (int n, out) else (- 1, out))"
| "writen_loop (w # ws) errno n left out =
     (if left = [] then (int n, out)
      else case w of
        WriteErr eintr \<Rightarrow> if eintr then writen_loop ws eintr n left out else (- 1, out)
      | Wrote k \<Rightarrow>
          let nwritten = min k (length left) in
          if nwritten = 0 then (if errno then writen_loop ws errno n left out else (- 1, out))
          else writen_loop ws errno n (drop nwritten left) (out @ take nwritten left))"

definition compsys_helper_writen :: "write_answer list \<Rightarrow> bool \<Rightarrow> bytes \<Rightarrow> int \<times> bytes" where
  "compsys_helper_writen ws errno data = writen_loop ws errno (length data) data []"

section \<open>Buffered reading\<close>

definition COMPSYS_BUFSIZE :: nat where "COMPSYS_BUFSIZE = 8192"

record helper_state =
  helper_fd :: conn
  helper_cnt :: int
  helper_bufptr :: nat
  helper_buf :: bytes

definition compsys_helper_readinitb :: "bytes \<Rightarrow> conn \<Rightarrow> helper_state" where
  "compsys_helper_readinitb junk c = \<lparr>helper_fd = c, helper_cnt = 0, helper_bufptr = 0, helper_buf = junk\<rparr>"

text \<open>The loop that fills the empty buffer: \<open>Some r\<close> makes the function return \<open>r\<close>.\<close>

function refill :: "helper_state \<Rightarrow> int option \<times> helper_state" where
  "refill rp =
     (if helper_cnt rp \<le> 0 then
        case sys_read (helper_fd rp) COMPSYS_BUFSIZE of
          (ReadEINTR, c) \<Rightarrow> refill (rp\<lparr>helper_fd := c, helper_cnt := - 1\<rparr>)
        | (ReadError, c) \<Rightarrow> (Some (- 1), rp\<lparr>helper_fd := c, helper_cnt := - 1\<rparr>)
        | (Got bs, c) \<Rightarrow>
            if bs = [] then (Some 0, rp\<lparr>helper_fd := c, helper_cnt := 0\<rparr>)
            else refill (rp\<lparr>helper_fd := c, helper_cnt := int (length bs), helper_bufptr := 0,
                            helper_buf := bs @ drop (length bs) (helper_buf rp)\<rparr>)
      else (None, rp))"
  by pat_completeness auto
termination
  by (relation "measure (\<lambda>rp. conn_size (helper_fd rp))") (auto dest: sys_read_size [OF sym])

declare refill.simps [simp del]

definition compsys_helper_read :: "helper_state \<Rightarrow> nat \<Rightarrow> int \<times> bytes \<times> helper_state" where
  "compsys_helper_read rp n =
     (case refill rp of
        (Some r, rp) \<Rightarrow> (r, [], rp)
      | (None, rp) \<Rightarrow>
          let cnt = (if helper_cnt rp < int n then helper_cnt rp else int n);
              bs = take (nat cnt) (drop (helper_bufptr rp) (helper_buf rp))
          in (cnt, bs, rp\<lparr>helper_bufptr := helper_bufptr rp + nat cnt, helper_cnt := helper_cnt rp - cnt\<rparr>))"

text \<open>The two loops above it call the reader they are given.\<close>

function readnb_loop :: "('r \<Rightarrow> nat \<Rightarrow> int \<times> bytes \<times> 'r) \<Rightarrow> 'r \<Rightarrow> nat \<Rightarrow> nat \<Rightarrow> bytes \<Rightarrow> int \<times> bytes \<times> 'r" where
  "readnb_loop rd rp n nleft acc =
     (if nleft > 0 then
        let (nread, bs, rp) = rd rp nleft in
        if nread < 0 then (- 1, acc, rp)
        else if nread = 0 then (int n - int nleft, acc, rp)
        else readnb_loop rd rp n (nleft - nat nread) (acc @ bs)
      else (int n - int nleft, acc, rp))"
  by pat_completeness auto
termination
  by (relation "measure (\<lambda>(rd, rp, n, nleft, acc). nleft)") auto

declare readnb_loop.simps [simp del]

definition compsys_helper_readnb :: "helper_state \<Rightarrow> nat \<Rightarrow> int \<times> bytes \<times> helper_state" where
  "compsys_helper_readnb rp n = readnb_loop compsys_helper_read rp n n []"

definition newline_byte :: u8 where "newline_byte = 10"

text \<open>Reading a line: \<open>n - 1\<close> bytes are stored so far; a NUL byte follows what is returned.\<close>

function readlineb_loop :: "('r \<Rightarrow> nat \<Rightarrow> int \<times> bytes \<times> 'r) \<Rightarrow> 'r \<Rightarrow> nat \<Rightarrow> nat \<Rightarrow> bytes \<Rightarrow> int \<times> bytes \<times> 'r" where
  "readlineb_loop rd rp n maxlen acc =
     (if n < maxlen then
        let (rc, c, rp) = rd rp 1 in
        if rc = 1 then
          (if hd c = newline_byte then (int (n + 1) - 1, acc @ [hd c] @ [0], rp)
           else readlineb_loop rd rp (n + 1) maxlen (acc @ [hd c]))
        else if rc = 0 then (if n = 1 then (0, acc, rp) else (int n - 1, acc @ [0], rp))
        else (- 1, acc, rp)
      else (int n - 1, acc @ [0], rp))"
  by pat_completeness auto
termination
  by (relation "measure (\<lambda>(rd, rp, n, maxlen, acc). maxlen - n)") auto

declare readlineb_loop.simps [simp del]


section \<open>What readers deliver\<close>

text \<open>
  The contract of a reader that returns at least one byte unless the stream is at its end. The
  loops are right for every such reader.
\<close>

locale byte_reader =
  fixes rd :: "'r \<Rightarrow> nat \<Rightarrow> int \<times> bytes \<times> 'r"
    and wf :: "'r \<Rightarrow> bool"
    and str :: "'r \<Rightarrow> bytes \<times> bool"
  assumes rd_end: "wf rp \<Longrightarrow> 0 < n \<Longrightarrow> str rp = ([], ok) \<Longrightarrow> \<exists>rp'. rd rp n = (if ok then 0 else - 1, [], rp')"
    and rd_some: "wf rp \<Longrightarrow> 0 < n \<Longrightarrow> str rp = (s, ok) \<Longrightarrow> s \<noteq> [] \<Longrightarrow>
      \<exists>k rp'. 0 < k \<and> k \<le> n \<and> k \<le> length s \<and> rd rp n = (int k, take k s, rp') \<and> wf rp' \<and> str rp' = (drop k s, ok)"
begin

lemma readnb_loop_right:
  "wf rp \<Longrightarrow> str rp = (s, ok) \<Longrightarrow> nleft \<le> n \<Longrightarrow>
   \<exists>rp'. readnb_loop rd rp n nleft acc =
     (if nleft \<le> length s \<or> ok then int n - int nleft + int (length (take nleft s)) else - 1, acc @ take nleft s, rp') \<and>
     (nleft \<le> length s \<longrightarrow> wf rp' \<and> str rp' = (drop nleft s, ok))"
proof (induction nleft arbitrary: rp s acc rule: less_induct)
  case (less nleft)
  show ?case
  proof (cases "nleft = 0")
    case True
    with less.prems show ?thesis by (subst readnb_loop.simps) auto
  next
    case nleft: False
    show ?thesis
    proof (cases "s = []")
      case True
      with rd_end [of rp nleft ok] less.prems nleft obtain rp' where "rd rp nleft = (if ok then 0 else - 1, [], rp')"
        by auto
      with True nleft show ?thesis by (subst readnb_loop.simps) auto
    next
      case False
      with rd_some [of rp nleft s ok] less.prems nleft
      obtain k rp' where k: "0 < k" "k \<le> nleft" "k \<le> length s" "rd rp nleft = (int k, take k s, rp')"
        "wf rp'" "str rp' = (drop k s, ok)" by auto
      have "nleft - k < nleft" "nleft - k \<le> n" using k(1) nleft less.prems(3) by auto
      from less.IH [OF this(1) k(5,6) this(2), of "acc @ take k s"]
      obtain rp'' where "readnb_loop rd rp' n (nleft - k) (acc @ take k s) =
          (if nleft - k \<le> length s - k \<or> ok then int n - int (nleft - k) + int (length (take (nleft - k) (drop k s))) else - 1,
            (acc @ take k s) @ take (nleft - k) (drop k s), rp'')"
          "nleft - k \<le> length s - k \<longrightarrow> wf rp'' \<and> str rp'' = (drop (nleft - k) (drop k s), ok)"
        unfolding length_drop by blast
      moreover have "take k s @ take (nleft - k) (drop k s) = take nleft s"
        using k(2) take_add [of k "nleft - k" s] by simp
      ultimately show ?thesis using k nleft
        by (subst readnb_loop.simps) (auto simp: of_nat_diff min_def)
    qed
  qed
qed

text \<open>A line: up to and with the newline, but no more than fits.\<close>

lemma readlineb_loop_right:
  "wf rp \<Longrightarrow> str rp = (s, ok) \<Longrightarrow> n = length acc + 1 \<Longrightarrow>
   (let t = take (maxlen - n) s; l = takeWhile (\<lambda>c. c \<noteq> newline_byte) t; cut = l \<noteq> t \<or> maxlen - n \<le> length s;
        line = (if l \<noteq> t then l @ [newline_byte] else l)
    in \<exists>rp'. readlineb_loop rd rp n maxlen acc =
      (if cut \<or> ok then
         (if acc @ line = [] \<and> n < maxlen then (0, [], rp') else (int (length (acc @ line)), acc @ line @ [0], rp'))
       else (- 1, acc @ line, rp')) \<and>
      (cut \<longrightarrow> wf rp' \<and> str rp' = (drop (length line) s, ok)))"
proof (induction "maxlen - n" arbitrary: rp s acc n)
  case 0
  then show ?case by (subst readlineb_loop.simps) (auto simp: Let_def)
next
  case (Suc m)
  show ?case
  proof (cases s)
    case Nil
    with rd_end [of rp 1 ok] Suc.prems obtain rp' where "rd rp 1 = (if ok then 0 else - 1, [], rp')" by auto
    with Nil Suc show ?thesis by (subst readlineb_loop.simps) (auto simp: Let_def)
  next
    case (Cons c s')
    with rd_some [of rp 1 s ok] Suc.prems obtain rp' where r: "rd rp 1 = (1, [c], rp')" "wf rp'" "str rp' = (s', ok)"
      by (auto simp: le_Suc_eq)
    have m: "maxlen - n = Suc m" "n < maxlen" "m = maxlen - (n + 1)" using Suc(2) by auto
    show ?thesis
    proof (cases "c = newline_byte")
      case True
      with r m Cons Suc.prems show ?thesis by (subst readlineb_loop.simps) (auto simp: Let_def)
    next
      case False
      from Suc.hyps(1) [OF m(3) r(2,3), of "acc @ [c]"] Suc.prems(3)
      show ?thesis using r(1) m False Cons
        by (subst readlineb_loop.simps) (auto simp: Let_def split: if_splits)
    qed
  qed
qed

end

text \<open>The buffer of the helper state, and the bytes it and its descriptor still hold.\<close>

definition wf_helper :: "helper_state \<Rightarrow> bool" where
  "wf_helper rp \<longleftrightarrow> length (helper_buf rp) = COMPSYS_BUFSIZE \<and>
     (0 < helper_cnt rp \<longrightarrow> helper_bufptr rp + nat (helper_cnt rp) \<le> COMPSYS_BUFSIZE)"

definition unread :: "helper_state \<Rightarrow> bytes" where
  "unread rp = take (nat (helper_cnt rp)) (drop (helper_bufptr rp) (helper_buf rp))"

definition helper_stream :: "helper_state \<Rightarrow> bytes \<times> bool" where
  "helper_stream rp = (unread rp @ fst (stream (helper_fd rp)), snd (stream (helper_fd rp)))"

lemma refill_right:
  "wf_helper rp \<Longrightarrow>
   (case refill rp of
      (Some r, rp') \<Rightarrow> fst (helper_stream rp) = [] \<and> r = (if snd (helper_stream rp) then 0 else - 1)
    | (None, rp') \<Rightarrow> wf_helper rp' \<and> 0 < helper_cnt rp' \<and> helper_stream rp' = helper_stream rp)"
proof (induction rp rule: refill.induct)
  case (1 rp)
  show ?case
  proof (cases "helper_cnt rp \<le> 0")
    case False
    with 1 show ?thesis by (subst refill.simps) auto
  next
    case True
    obtain r c where r: "sys_read (helper_fd rp) COMPSYS_BUFSIZE = (r, c)" by fastforce
    show ?thesis
    proof (cases r)
      case (Got bs)
      with r have g: "sys_read (helper_fd rp) COMPSYS_BUFSIZE = (Got bs, c)" by simp
      note facts = sys_read_Got [OF g, unfolded COMPSYS_BUFSIZE_def, simplified]
      show ?thesis
      proof (cases "bs = []")
        case True
        with g facts \<open>helper_cnt rp \<le> 0\<close> show ?thesis by (subst refill.simps) (simp add: helper_stream_def unread_def)
      next
        case False
        let ?rp = "rp\<lparr>helper_fd := c, helper_cnt := int (length bs), helper_bufptr := 0,
            helper_buf := bs @ drop (length bs) (helper_buf rp)\<rparr>"
        have "refill ?rp = (None, ?rp)" using False by (subst refill.simps) simp
        moreover have "refill rp = refill ?rp" using False g True by (subst refill.simps) simp
        ultimately show ?thesis
          using False 1(3) facts True by (simp add: helper_stream_def unread_def wf_helper_def COMPSYS_BUFSIZE_def)
      qed
    next
      case ReadEINTR
      let ?rp = "rp\<lparr>helper_fd := c, helper_cnt := - 1\<rparr>"
      have "refill rp = refill ?rp" using r ReadEINTR True by (subst refill.simps) simp
      moreover have s: "helper_stream ?rp = helper_stream rp" and w: "wf_helper ?rp"
        using r ReadEINTR True 1(3) sys_read_errors(1) [of "helper_fd rp" COMPSYS_BUFSIZE c]
        by (simp_all add: helper_stream_def unread_def wf_helper_def)
      ultimately show ?thesis using 1(2) [OF True r [symmetric] ReadEINTR w] unfolding s by (simp only:)
    next
      case ReadError
      with r True sys_read_errors(2) [of "helper_fd rp" COMPSYS_BUFSIZE c]
      show ?thesis by (subst refill.simps) (auto simp: helper_stream_def unread_def)
    qed
  qed
qed

interpretation helper: byte_reader compsys_helper_read wf_helper helper_stream
proof
  fix rp :: helper_state and n :: nat and ok
  assume a: "wf_helper rp" "0 < n" "helper_stream rp = ([], ok)"
  obtain r rp' where r: "refill rp = (r, rp')" by fastforce
  with refill_right [OF a(1)] a(3) show "\<exists>rp'. compsys_helper_read rp n = (if ok then 0 else - 1, [], rp')"
    by (cases r) (auto simp: compsys_helper_read_def helper_stream_def unread_def wf_helper_def COMPSYS_BUFSIZE_def)
next
  fix rp :: helper_state and n :: nat and s ok
  assume a: "wf_helper rp" "0 < n" "helper_stream rp = (s, ok)" "s \<noteq> []"
  obtain r rp' where r: "refill rp = (r, rp')" by fastforce
  with refill_right [OF a(1)] a(3,4) have p: "r = None" "wf_helper rp'" "0 < helper_cnt rp'" "helper_stream rp' = (s, ok)"
    by (auto split: option.splits)
  let ?k = "min (nat (helper_cnt rp')) n"
  from p have u: "length (unread rp') = nat (helper_cnt rp')" "s = unread rp' @ fst (stream (helper_fd rp'))"
      "ok = snd (stream (helper_fd rp'))"
    by (auto simp: unread_def wf_helper_def helper_stream_def)
  have c: "nat (if helper_cnt rp' < int n then helper_cnt rp' else int n) = ?k"
      "(if helper_cnt rp' < int n then helper_cnt rp' else int n) = int ?k" using p(3) by auto
  let ?rp = "rp'\<lparr>helper_bufptr := helper_bufptr rp' + ?k, helper_cnt := helper_cnt rp' - int ?k\<rparr>"
  have "compsys_helper_read rp n = (int ?k, take ?k s, ?rp)"
    using p(1,3) r u unfolding compsys_helper_read_def Let_def c(2)
    by (auto simp: unread_def min.commute nat_le_iff)
  moreover have "wf_helper ?rp" using p(2,3) by (auto simp: wf_helper_def)
  moreover have "nat (helper_cnt rp' - int ?k) = nat (helper_cnt rp') - ?k" using p(3) by auto
  then have "unread ?rp = drop ?k (unread rp')"
    by (simp add: unread_def drop_take add.commute)
  then have "helper_stream ?rp = (drop ?k s, ok)" using u by (simp add: helper_stream_def)
  ultimately show "\<exists>k rp'. 0 < k \<and> k \<le> n \<and> k \<le> length s \<and> compsys_helper_read rp n = (int k, take k s, rp') \<and>
      wf_helper rp' \<and> helper_stream rp' = (drop k s, ok)"
    using a(2) p(3) u(1,2) by (intro exI [of _ ?k] exI [of _ ?rp]) auto
qed


lemma readn_loop_right:
  "stream c = (s, ok) \<Longrightarrow> nleft \<le> n \<Longrightarrow>
   \<exists>c'. readn_loop c n nleft acc =
     (if nleft \<le> length s \<or> ok then int n - int nleft + int (length (take nleft s)) else - 1, acc @ take nleft s, c') \<and>
     (nleft \<le> length s \<longrightarrow> stream c' = (drop nleft s, ok))"
proof (induction c n nleft acc arbitrary: s rule: readn_loop.induct)
  case (1 c n nleft acc)
  show ?case
  proof (cases "nleft = 0")
    case True
    with 1(3) show ?thesis by (subst readn_loop.simps) auto
  next
    case False
    then have pos: "nleft > 0" by simp
    obtain r c' where r: "sys_read c nleft = (r, c')" by fastforce
    show ?thesis
    proof (cases r)
      case (Got bs)
      with r have g: "sys_read c nleft = (Got bs, c')" by simp
      note facts = sys_read_Got [OF g pos]
      show ?thesis
      proof (cases "bs = []")
        case True
        with g facts 1(3) pos show ?thesis by (subst readn_loop.simps) auto
      next
        case ne: False
        with facts(3) 1(3) have s: "s = bs @ fst (stream c')" "stream c' = (fst (stream c'), ok)" by auto
        have e: "readn_loop c n nleft acc = readn_loop c' n (nleft - length bs) (acc @ bs)"
          using g ne pos by (subst readn_loop.simps) simp
        have "nleft - length bs \<le> n" using 1(4) by simp
        from 1(1) [OF pos r [symmetric] Got ne s(2) this] s(1) facts(1) show ?thesis
          unfolding e by (auto simp: of_nat_diff min_def)
      qed
    next
      case ReadEINTR
      with r pos have e: "readn_loop c n nleft acc = readn_loop c' n nleft acc" by (subst readn_loop.simps) simp
      from sys_read_errors(1) [OF r [unfolded ReadEINTR]] 1(3) have "stream c' = (s, ok)" by simp
      from 1(2) [OF pos r [symmetric] ReadEINTR this 1(4)] show ?thesis unfolding e .
    next
      case ReadError
      with sys_read_errors(2) [of c nleft c'] r pos 1(3) show ?thesis by (subst readn_loop.simps) auto
    qed
  qed
qed

lemma writen_loop_right:
  "\<exists>k. writen_loop ws errno n left out = (if length left \<le> k then int n else - 1, out @ take k left)"
proof (induction ws errno n left out rule: writen_loop.induct)
  case (1 errno n left out)
  then show ?case by (auto intro: exI [of _ 0])
next
  case (2 w ws errno n left out)
  show ?case
  proof (cases "left = []")
    case ne: False
    have here: "\<exists>k. (- 1, out) = (if length left \<le> k then int n else - 1, out @ take k left)"
      using ne by (intro exI [of _ 0]) simp
    show ?thesis
    proof (cases w)
      case (Wrote m)
      let ?k = "min m (length left)"
      show ?thesis
      proof (cases "?k = 0")
        case True
        show ?thesis
        proof (cases errno)
          case e: True
          from 2(1) [OF ne Wrote refl True e] show ?thesis using True e ne Wrote by (simp add: Let_def)
        next
          case False
          with here True ne Wrote show ?thesis by (simp add: Let_def)
        qed
      next
        case False
        from 2(2) [OF ne Wrote refl False] obtain k where
          "writen_loop ws errno n (drop ?k left) (out @ take ?k left) =
            (if length (drop ?k left) \<le> k then int n else - 1, (out @ take ?k left) @ take k (drop ?k left))" by blast
        moreover have "take ?k left @ take k (drop ?k left) = take (?k + k) left" by (simp only: take_add)
        ultimately show ?thesis using False ne Wrote
          by (intro exI [of _ "?k + k"]) (auto simp: Let_def)
      qed
    next
      case (WriteErr eintr)
      with 2(3) [OF ne WriteErr] here ne show ?thesis by (cases eintr) simp_all
    qed
  qed (auto intro: exI [of _ 0])
qed


section \<open>Opening connections\<close>

text \<open>
  For each address \<open>getaddrinfo\<close> found: the descriptor \<open>socket\<close> returns (negative if it fails),
  whether \<open>connect\<close> or \<open>bind\<close> succeeds, and whether \<open>close\<close> does. The functions return their result
  and the operations on descriptors, in order; \<open>FreedList\<close> is \<open>freeaddrinfo\<close>.
\<close>

record address =
  socket_fd :: int
  attaches :: bool
  closes :: bool

datatype fd_event = Opened int | Closed int | CloseFailed int | FreedList

datatype walk_end = Exhausted | CloseError | Attached int

fun walk_addresses :: "address list \<Rightarrow> walk_end \<times> fd_event list" where
  "walk_addresses [] = (Exhausted, [])"
| "walk_addresses (p # ps) =
     (let fd = socket_fd p in
      if fd < 0 then walk_addresses ps
      else if attaches p then (Attached fd, [Opened fd])
      else if \<not> closes p then (CloseError, [Opened fd, CloseFailed fd])
      else let (r, es) = walk_addresses ps in (r, [Opened fd, Closed fd] @ es))"

definition compsys_helper_open_clientfd :: "address list option \<Rightarrow> int \<times> fd_event list" where
  "compsys_helper_open_clientfd listp =
     (case listp of
        None \<Rightarrow> (- 2, [])
      | Some ps \<Rightarrow>
          (case walk_addresses ps of
             (CloseError, es) \<Rightarrow> (- 1, es)
           | (Exhausted, es) \<Rightarrow> (- 1, es @ [FreedList])
           | (Attached clientfd, es) \<Rightarrow> (clientfd, es @ [FreedList])))"

definition compsys_helper_open_listenfd :: "address list option \<Rightarrow> bool \<Rightarrow> int \<times> fd_event list" where
  "compsys_helper_open_listenfd listp listens =
     (case listp of
        None \<Rightarrow> (- 2, [])
      | Some ps \<Rightarrow>
          (case walk_addresses ps of
             (CloseError, es) \<Rightarrow> (- 1, es)
           | (Exhausted, es) \<Rightarrow> (- 1, es @ [FreedList])
           | (Attached listenfd, es) \<Rightarrow>
               if listens then (listenfd, es @ [FreedList])
               else (- 1, es @ [FreedList, Closed listenfd])))"

fun opened :: "fd_event list \<Rightarrow> int multiset" where
  "opened [] = {#}"
| "opened (Opened fd # es) = add_mset fd (opened es)"
| "opened (_ # es) = opened es"

fun closed_fds :: "fd_event list \<Rightarrow> int multiset" where
  "closed_fds [] = {#}"
| "closed_fds (Closed fd # es) = add_mset fd (closed_fds es)"
| "closed_fds (_ # es) = closed_fds es"

lemma opened_append [simp]: "opened (es @ es') = opened es + opened es'"
  by (induction es rule: opened.induct) auto

lemma closed_fds_append [simp]: "closed_fds (es @ es') = closed_fds es + closed_fds es'"
  by (induction es rule: closed_fds.induct) auto

lemma walk_addresses_fds:
  "case walk_addresses ps of
     (Exhausted, es) \<Rightarrow> opened es = closed_fds es \<and> FreedList \<notin> set es
   | (CloseError, es) \<Rightarrow> (\<exists>fd. CloseFailed fd \<in> set es) \<and> FreedList \<notin> set es
   | (Attached fd, es) \<Rightarrow> 0 \<le> fd \<and> opened es = add_mset fd (closed_fds es) \<and> FreedList \<notin> set es"
  by (induction ps) (auto simp: Let_def split: prod.splits walk_end.splits)


section \<open>Properties\<close>

text \<open>
  C32: Reading \<open>n\<close> bytes is robust, with and without the buffer. However the bytes arrive in packets
  and however often signals interrupt the calls, both functions store the next \<open>n\<close> bytes of the
  stream, or all that is left of it; they return how many, or \<open>- 1\<close> if an error comes before; and
  after a full read the stream continues where it ended.
\<close>

theorem readn_delivers_stream:
  assumes "wf_helper rp"
  shows
    "(let (s, ok) = stream c in \<exists>c'. compsys_helper_readn c n =
       (if n \<le> length s \<or> ok then int (length (take n s)) else - 1, take n s, c') \<and>
       (n \<le> length s \<longrightarrow> stream c' = (drop n s, ok))) \<and>
     (let (s, ok) = helper_stream rp in \<exists>rp'. compsys_helper_readnb rp n =
       (if n \<le> length s \<or> ok then int (length (take n s)) else - 1, take n s, rp') \<and>
       (n \<le> length s \<longrightarrow> wf_helper rp' \<and> helper_stream rp' = (drop n s, ok)))"
  using readn_loop_right [OF prod.collapse [symmetric] order_refl, of c n "[]"]
    helper.readnb_loop_right [OF assms prod.collapse [symmetric] order_refl, of n "[]"]
  unfolding compsys_helper_readn_def compsys_helper_readnb_def Let_def split_def
  by (simp only: diff_self add_0 append_Nil simp_thms)

theorem readn_delivers_stream_witness:
  "\<exists>rp'. compsys_helper_readnb
     (compsys_helper_readinitb (replicate 8192 0) [Interrupted, Data [1, 2], Data [3, 4]]) 3 = (3, [1, 2, 3], rp') \<and>
     helper_stream rp' = ([4], True)"
proof -
  have "wf_helper (compsys_helper_readinitb (replicate 8192 0) [Interrupted, Data [1, 2], Data [3, 4]])"
    by (simp add: wf_helper_def compsys_helper_readinitb_def COMPSYS_BUFSIZE_def)
  from readn_delivers_stream [OF this, of "[]" 3] show ?thesis
    by (auto simp: helper_stream_def unread_def compsys_helper_readinitb_def)
qed



text \<open>
  Writing and opening connections. \<open>writen\<close> writes a prefix of the data whatever \<open>write\<close>
  answers, and returns the length exactly when it wrote all of it (otherwise \<open>- 1\<close>). Opening a
  client or a server socket returns a descriptor that is then the only one left open, or a negative
  result with all of them closed again, and the list of addresses is freed, except when
  \<open>close\<close> itself fails.
\<close>

theorem writen_and_sockets_correct:
  "(\<exists>k. compsys_helper_writen ws errno data = (if length data \<le> k then int (length data) else - 1, take k data)) \<and>
   (let (fd, es) = compsys_helper_open_clientfd listp; (lfd, les) = compsys_helper_open_listenfd listp listens in
     (0 \<le> fd \<longrightarrow> opened es = add_mset fd (closed_fds es) \<and> FreedList \<in> set es) \<and>
     (fd < 0 \<longrightarrow> listp = None \<or> opened es = closed_fds es \<and> FreedList \<in> set es \<or> (\<exists>x. CloseFailed x \<in> set es)) \<and>
     (0 \<le> lfd \<longrightarrow> opened les = add_mset lfd (closed_fds les) \<and> FreedList \<in> set les) \<and>
     (lfd < 0 \<longrightarrow> listp = None \<or> opened les = closed_fds les \<and> FreedList \<in> set les \<or> (\<exists>x. CloseFailed x \<in> set les)))"
  using writen_loop_right [of ws errno "length data" data "[]"] walk_addresses_fds [of "the listp"]
  by (auto simp: compsys_helper_writen_def compsys_helper_open_clientfd_def compsys_helper_open_listenfd_def
      split: option.splits prod.splits walk_end.splits)

theorem writen_and_sockets_correct_witness:
  "compsys_helper_open_clientfd (Some [\<lparr>socket_fd = 3, attaches = False, closes = True\<rparr>,
      \<lparr>socket_fd = 4, attaches = True, closes = True\<rparr>]) = (4, [Opened 3, Closed 3, Opened 4, FreedList]) \<and>
   opened [Opened 3, Closed 3, Opened 4, FreedList] = {#3, 4#}"
  using writen_and_sockets_correct [of "[]" False "[]" "Some [\<lparr>socket_fd = 3, attaches = False, closes = True\<rparr>,
      \<lparr>socket_fd = 4, attaches = True, closes = True\<rparr>]" True]
  by (simp add: compsys_helper_open_clientfd_def)

end
