(* ===== verification/Common.thy ===== *)
theory Common
  imports Sha256 Compsys_IO
begin

text \<open>
  What the parts of the peer program share: \<open>Opgave4/src/common.c\<close>, \<open>common.h\<close> and the byte order
  macros. The machine is little-endian.
\<close>

section \<open>Constants\<close>

definition COMMAND_REGISTER :: u32 where "COMMAND_REGISTER = 1"
definition COMMAND_RETREIVE :: u32 where "COMMAND_RETREIVE = 2"
definition COMMAND_INFORM :: u32 where "COMMAND_INFORM = 3"

definition STATUS_OK :: u32 where "STATUS_OK = 1"
definition STATUS_PEER_EXISTS :: u32 where "STATUS_PEER_EXISTS = 2"
definition STATUS_PEER_MISSING :: u32 where "STATUS_PEER_MISSING = 3"
definition STATUS_BAD_PASSWORD :: u32 where "STATUS_BAD_PASSWORD = 4"
definition STATUS_BAD_REQUEST :: u32 where "STATUS_BAD_REQUEST = 5"
definition STATUS_MALFORMED :: u32 where "STATUS_MALFORMED = 7"

definition IP_LEN :: nat where "IP_LEN = 16"
definition SALT_LEN :: nat where "SALT_LEN = 16"
definition PASSWORD_LEN :: nat where "PASSWORD_LEN = 16"
definition SHA256_HASH_SIZE :: nat where "SHA256_HASH_SIZE = 32"
definition REQUEST_HEADER_LEN :: nat where "REQUEST_HEADER_LEN = 60"
definition REPLY_HEADER_LEN :: nat where "REPLY_HEADER_LEN = 80"
definition PEER_ADDR_LEN :: nat where "PEER_ADDR_LEN = 68"
definition MAX_MSG_LEN :: nat where "MAX_MSG_LEN = 8196"

lemmas command_defs = COMMAND_REGISTER_def COMMAND_RETREIVE_def COMMAND_INFORM_def
lemmas status_defs = STATUS_OK_def STATUS_PEER_EXISTS_def STATUS_PEER_MISSING_def STATUS_BAD_PASSWORD_def
  STATUS_BAD_REQUEST_def STATUS_MALFORMED_def
lemmas length_defs = IP_LEN_def SALT_LEN_def PASSWORD_LEN_def SHA256_HASH_SIZE_def REQUEST_HEADER_LEN_def
  REPLY_HEADER_LEN_def PEER_ADDR_LEN_def MAX_MSG_LEN_def

section \<open>Integers in memory and on the wire\<close>

definition store32 :: "u32 \<Rightarrow> bytes" where
  "store32 w = [ucast w, ucast (drop_bit 8 w), ucast (drop_bit 16 w), ucast (drop_bit 24 w)]"

definition load32 :: "bytes \<Rightarrow> u32" where
  "load32 bs = join32 (bs ! 0) (bs ! 1) (bs ! 2) (bs ! 3)"

definition htobe32 :: "u32 \<Rightarrow> u32" where
  "htobe32 w = load32 (rev (store32 w))"

definition be32toh :: "u32 \<Rightarrow> u32" where
  "be32toh w = load32 (rev (store32 w))"

lemma load_store32 [simp]: "load32 (store32 w) = w"
  by (simp add: load32_def store32_def join32_def word32_eq_iff word_bits_less bit_simps)

lemma length_store32 [simp]: "length (store32 w) = 4"
  by (simp add: store32_def)

lemma store32_load:
  "store32 (join32 a b c d) = [a, b, c, d]"
  by (simp add: store32_def join32_def word8_eq_iff word_bits_less bit_simps)

lemma be32toh_htobe32 [simp]: "be32toh (htobe32 w) = w"
proof -
  have "store32 (load32 (rev (store32 w))) = rev (store32 w)"
    by (simp add: load32_def store32_load) (simp add: store32_def)
  then show ?thesis by (simp add: be32toh_def htobe32_def)
qed

lemma store32_htobe32: "store32 (htobe32 w) = rev (store32 w)"
  by (simp add: htobe32_def load32_def store32_load) (simp add: store32_def)

text \<open>A field of four bytes in a message.\<close>

lemma load32_take [simp]: "4 \<le> n \<Longrightarrow> load32 (take n bs) = load32 bs"
  by (simp add: load32_def)

lemma load32_append: "length xs = 4 \<Longrightarrow> load32 (xs @ ys) = load32 xs"
  by (simp add: load32_def nth_append)

section \<open>Strings\<close>

text \<open>
  \<open>strcmp\<close> on two arrays: equal up to the first NUL byte. Comparing on past the end of an array is
  an error. \<open>starts_with\<close> and the macro \<open>string_equal\<close> look at a prefix only.
\<close>

fun strcmp_eq :: "bytes \<Rightarrow> bytes \<Rightarrow> array_error + bool" where
  "strcmp_eq (a # as) (b # bs) =
     (if a \<noteq> b then Inr False else if a = 0 then Inr True else strcmp_eq as bs)"
| "strcmp_eq _ _ = Inl OutOfBounds"

definition c_bytes :: "bytes \<Rightarrow> bytes" where
  "c_bytes bs = takeWhile (\<lambda>b. b \<noteq> 0) bs"

lemma strcmp_eq_terminated:
  "0 \<in> set as \<Longrightarrow> length as \<le> length bs \<Longrightarrow> strcmp_eq as bs = Inr (c_bytes as = c_bytes bs)"
proof (induction as bs rule: strcmp_eq.induct)
  case (1 a as b bs)
  then show ?case by (auto simp: c_bytes_def)
qed auto

fun starts_with :: "string \<Rightarrow> string \<Rightarrow> bool" where
  "starts_with a [] = True"
| "starts_with [] (b # bs) = False"
| "starts_with (a # as) (b # bs) = (a = b \<and> starts_with as bs)"

definition string_equal :: "string \<Rightarrow> string \<Rightarrow> bool" where
  "string_equal x y = starts_with x y"

lemma starts_with_iff: "starts_with a b \<longleftrightarrow> (\<exists>r. a = b @ r)"
  by (induction a b rule: starts_with.induct) auto

section \<open>Addresses\<close>

text \<open>
  \<open>sscanf\<close> with \<open>%d\<close>: an integer at the start of the text, or nothing. The format of an address
  has four of them with dots between; the result is the list of integers converted, or \<open>None\<close> for
  the end of the input before the first conversion.
\<close>

definition scan_int :: "string \<Rightarrow> (int \<times> string) option" where
  "scan_int inp =
     (let s = dropWhile isspace inp; (sg, t) = take_sign s in
      if takeWhile isdigit t = [] then None
      else Some (atoi s, dropWhile isdigit t))"

fun scan_dotted :: "nat \<Rightarrow> string \<Rightarrow> int list" where
  "scan_dotted 0 s = []"
| "scan_dotted (Suc n) s =
     (case scan_int s of
        None \<Rightarrow> []
      | Some (i, rest) \<Rightarrow>
          i # (case rest of [] \<Rightarrow> [] | c # rest' \<Rightarrow> if c = CHR ''.'' then scan_dotted n rest' else []))"

definition sscanf_dotted :: "nat \<Rightarrow> string \<Rightarrow> int list option" where
  "sscanf_dotted n s = (if dropWhile isspace s = [] then None else Some (scan_dotted n s))"

text \<open>\<open>None\<close> is \<open>exit (EXIT_FAILURE)\<close>.\<close>

definition is_valid_ip :: "string \<Rightarrow> bool option" where
  "is_valid_ip ip_string =
     (case sscanf_dotted 4 ip_string of
        None \<Rightarrow> None
      | Some ip \<Rightarrow>
          if length ip \<noteq> 4 then Some (string_equal ip_string ''localhost'')
          else Some (\<forall>i \<in> set ip. \<not> (i > 255 \<or> i < 0)))"

definition is_valid_port :: "int \<Rightarrow> bool" where
  "is_valid_port port = (if port < 0 \<or> port > 65535 then False else True)"

definition is_valid_port_str :: "string \<Rightarrow> bool option" where
  "is_valid_port_str port_string =
     (case sscanf_dotted 1 port_string of
        None \<Rightarrow> None
      | Some ps \<Rightarrow> Some (case ps of [port] \<Rightarrow> is_valid_port port | _ \<Rightarrow> False))"

lemma digits_of_scan:
  assumes "n < 2 ^ 31" "rest = [] \<or> \<not> isdigit (hd rest)"
  shows "scan_int (digits_of n @ rest) = Some (int n, rest)"
proof -
  obtain c cs where d: "digits_of n = c # cs" "isdigit c" "list_all isdigit cs"
    using digits_of_digits [of n] digits_of_nonempty [of n] by (cases "digits_of n") auto
  note nd = isdigit_not_special [OF d(2)]
  have sp: "dropWhile isspace (digits_of n @ rest) = digits_of n @ rest"
    and ts: "take_sign (digits_of n @ rest) = (1, digits_of n @ rest)" using d(1) nd by simp_all
  have tw: "takeWhile isdigit (digits_of n @ rest) = digits_of n" "dropWhile isdigit (digits_of n @ rest) = rest"
    using digits_of_digits [of n] assms(2) by (cases rest; simp add: takeWhile_append dropWhile_append list_all_iff)+
  have "atol (digits_of n @ rest) = int n"
    using assms(1) by (simp add: atol_def sp ts tw digits_of_value)
  moreover have "sint (word_of_int (int n) :: i32) = int n"
    using assms(1) by (simp add: sint_uint signed_take_bit_int_eq_self unsigned_of_nat take_bit_nat_eq_self)
  ultimately show ?thesis
    unfolding scan_int_def Let_def sp ts atoi_def by (simp add: tw digits_of_nonempty)
qed

text \<open>An address in dotted notation.\<close>

definition dotted :: "nat \<Rightarrow> nat \<Rightarrow> nat \<Rightarrow> nat \<Rightarrow> string" where
  "dotted a b c d = digits_of a @ CHR ''.'' # digits_of b @ CHR ''.'' # digits_of c @ CHR ''.'' # digits_of d"

lemma scan_dotted_digits:
  assumes "n < 2 ^ 31"
  shows "scan_dotted (Suc k) (digits_of n @ CHR ''.'' # rest) = int n # scan_dotted k rest"
    "scan_dotted (Suc k) (digits_of n) = [int n]"
  using digits_of_scan [OF assms, of "CHR ''.'' # rest"] digits_of_scan [OF assms, of "[]"]
  by (simp_all add: isdigit_def)

lemma is_valid_ip_dotted:
  assumes "a < 2 ^ 31" "b < 2 ^ 31" "c < 2 ^ 31" "d < 2 ^ 31"
  shows "is_valid_ip (dotted a b c d) = Some (a < 256 \<and> b < 256 \<and> c < 256 \<and> d < 256)"
proof -
  have four: "(4 :: nat) = Suc (Suc (Suc (Suc 0)))" by simp
  have "scan_dotted 4 (dotted a b c d) = [int a, int b, int c, int d]"
    unfolding dotted_def four scan_dotted_digits(1) [OF assms(1)] scan_dotted_digits(1) [OF assms(2)]
      scan_dotted_digits(1) [OF assms(3)] scan_dotted_digits(2) [OF assms(4)] ..
  moreover have "dropWhile isspace (dotted a b c d) \<noteq> []"
    using digits_of_nonempty [of a] digits_of_digits [of a] isdigit_not_special
    by (cases "digits_of a") (auto simp: dotted_def)
  ultimately show ?thesis by (auto simp: is_valid_ip_def sscanf_dotted_def)
qed

lemma is_valid_ip_empty: "is_valid_ip [] = None"
  by (simp add: is_valid_ip_def sscanf_dotted_def)

section \<open>Hashes\<close>

text \<open>
  The digest of some data. The context on the stack is not initialised (\<open>junk\<close>), and of an array of
  \<open>hash_size\<close> bytes the hash fills the first 32; with a smaller array it is written past the end.
\<close>

definition get_data_sha :: "bytes \<Rightarrow> bytes \<Rightarrow> bytes \<Rightarrow> nat \<Rightarrow> array_error + bytes" where
  "get_data_sha junk rest sourcedata hash_size =
     rbind (sha256_digest junk sourcedata) (\<lambda>h.
       if hash_size < SHA256_HASH_SIZE then Inl OutOfBounds else Inr (h @ take (hash_size - SHA256_HASH_SIZE) rest))"

text \<open>A file that cannot be opened leaves the caller's hash as it is.\<close>

definition get_file_sha :: "bytes \<Rightarrow> bytes \<Rightarrow> bytes option \<Rightarrow> bytes \<Rightarrow> nat \<Rightarrow> array_error + bytes" where
  "get_file_sha junk rest f hash0 hash_size =
     (case f of
        None \<Rightarrow> Inr hash0
      | Some contents \<Rightarrow> get_data_sha junk rest contents hash_size)"

lemma get_data_sha_std: "length junk = 64 \<Longrightarrow> get_data_sha junk rest m SHA256_HASH_SIZE = Inr (std_sha256 m)"
  by (simp add: get_data_sha_def sha256_digest_std)

text \<open>
  All callers ask for 32 bytes, and what the context held does not matter: the hash they get.
\<close>

definition data_sha :: "bytes \<Rightarrow> array_error + bytes" where
  "data_sha m = get_data_sha (replicate 64 0) [] m SHA256_HASH_SIZE"

lemma data_sha_std [simp]: "data_sha m = Inr (std_sha256 m)"
  by (simp add: data_sha_def get_data_sha_std)

text \<open>The salt from a sequence of random numbers.\<close>

definition generate_random_salt :: "(nat \<Rightarrow> nat) \<Rightarrow> bytes" where
  "generate_random_salt random = map (\<lambda>i. 97 + of_nat (random i mod 26)) [0..<SALT_LEN]"

end
