(* ===== verification/Peer_Wire.thy ===== *)
theory Peer_Wire
  imports Common
begin

text \<open>
  The messages of the peer protocol and the list of known peers: the structures of
  \<open>Opgave4/src/peer.h\<close> and, from \<open>peer.c\<close>, \<open>compute_signature\<close>, \<open>print_network\<close>, \<open>find_peer\<close>,
  \<open>validate_signature\<close>, \<open>add_peer_to_network\<close>, \<open>is_unregistrered\<close> and the functions that lay out
  headers. A peer is known by its address, up to the first NUL byte, and its port.

  \<open>add_peer_to_network\<close> and \<open>print_network\<close> hold the lock of the list; the other functions do not.
  Here each function runs from start to end; \<open>Peer_Threads\<close> has the steps of the threads.
\<close>

section \<open>Structures\<close>

record network_address =
  na_ip :: bytes
  na_port :: u32
  na_salt :: bytes
  na_signature :: bytes

record request_header =
  rh_ip :: bytes
  rh_port :: u32
  rh_signature :: bytes
  rh_command :: u32
  rh_length :: u32

record reply_header =
  rp_length :: u32
  rp_status :: u32
  rp_this_block :: u32
  rp_block_count :: u32
  rp_block_hash :: bytes
  rp_total_hash :: bytes

text \<open>A structure in memory: the bytes a program reads from a socket into it, field by field.\<close>

definition request_struct :: "bytes \<Rightarrow> request_header" where
  "request_struct m = \<lparr>rh_ip = take 16 m, rh_port = load32 (drop 16 m), rh_signature = take 32 (drop 20 m),
     rh_command = load32 (drop 52 m), rh_length = load32 (drop 56 m)\<rparr>"

definition reply_struct :: "bytes \<Rightarrow> reply_header" where
  "reply_struct m = \<lparr>rp_length = load32 m, rp_status = load32 (drop 4 m), rp_this_block = load32 (drop 8 m),
     rp_block_count = load32 (drop 12 m), rp_block_hash = take 32 (drop 16 m), rp_total_hash = take 32 (drop 48 m)\<rparr>"

text \<open>Reading into a structure that holds \<open>junk\<close>: a short read leaves the rest of it.\<close>

definition overwrite :: "bytes \<Rightarrow> bytes \<Rightarrow> bytes" where
  "overwrite junk got = got @ drop (length got) junk"

section \<open>Laying out headers\<close>

text \<open>
  The header that \<open>send_register\<close> and the two \<open>send_retrieve\<close> functions build, with all integers in
  network order, and the one of \<open>add_request_header\<close>, which copies the port as it is in memory.
\<close>

definition request_message :: "network_address \<Rightarrow> u32 \<Rightarrow> u32 \<Rightarrow> bytes" where
  "request_message me command len =
     na_ip me @ store32 (htobe32 (na_port me)) @ na_signature me @ store32 (htobe32 command) @ store32 (htobe32 len)"

definition add_request_header :: "network_address \<Rightarrow> u32 \<Rightarrow> bytes" where
  "add_request_header me payload_length =
     na_ip me @ store32 (na_port me) @ na_signature me @ store32 (htobe32 COMMAND_INFORM) @
     store32 (htobe32 payload_length)"

text \<open>A NULL pointer for a hash fills its field with zeros.\<close>

definition hash_field :: "bytes option \<Rightarrow> bytes" where
  "hash_field h = (case h of None \<Rightarrow> replicate SHA256_HASH_SIZE 0 | Some h \<Rightarrow> h)"

definition add_response_header :: "u32 \<Rightarrow> u32 \<Rightarrow> u32 \<Rightarrow> u32 \<Rightarrow> bytes option \<Rightarrow> bytes option \<Rightarrow> bytes" where
  "add_response_header block_length status current_block nblocks total_hash block_hash =
     store32 (htobe32 block_length) @ store32 (htobe32 status) @ store32 (htobe32 current_block) @
     store32 (htobe32 nblocks) @ hash_field block_hash @ hash_field total_hash"

text \<open>An entry of the peer list on the wire, and how \<open>send_register\<close> and \<open>handle_inform\<close> take it apart.\<close>

definition peer_entry :: "network_address \<Rightarrow> bytes" where
  "peer_entry p = na_ip p @ store32 (htobe32 (na_port p)) @ na_signature p @ na_salt p"

definition entry_struct :: "bytes \<Rightarrow> network_address" where
  "entry_struct b = \<lparr>na_ip = take 16 b, na_port = be32toh (load32 (drop 16 b)), na_salt = take 16 (drop 52 b),
     na_signature = take 32 (drop 20 b)\<rparr>"

definition wf_address :: "network_address \<Rightarrow> bool" where
  "wf_address p \<longleftrightarrow> length (na_ip p) = 16 \<and> 0 \<in> set (na_ip p) \<and> length (na_salt p) = 16 \<and> length (na_signature p) = 32"

section \<open>Encodings of fixed width\<close>

text \<open>An encoding with a decoder that ignores what follows; a list of encodings is read entry by entry.\<close>

locale fixed_codec =
  fixes enc :: "'a \<Rightarrow> bytes" and dec :: "bytes \<Rightarrow> 'b" and view :: "'a \<Rightarrow> 'b" and ok :: "'a \<Rightarrow> bool" and width :: nat
  assumes enc_length: "ok x \<Longrightarrow> length (enc x) = width"
    and dec_enc: "ok x \<Longrightarrow> dec (enc x @ rest) = view x"
begin

lemma length_entries: "list_all ok xs \<Longrightarrow> length (concat (map enc xs)) = width * length xs"
  by (induction xs) (auto simp: enc_length)

lemma dec_entries:
  "list_all ok xs \<Longrightarrow> map (\<lambda>i. dec (drop (i * width) (concat (map enc xs) @ rest))) [0..<length xs] = map view xs"
proof (induction xs)
  case (Cons x xs)
  then have "map (\<lambda>i. dec (drop (Suc i * width) (concat (map enc (x # xs)) @ rest))) [0..<length xs] = map view xs"
    by (simp add: enc_length)
  moreover have "[0..<length (x # xs)] = 0 # map Suc [0..<length xs]" by (simp add: upt_conv_Cons map_Suc_upt del: upt_Suc)
  ultimately show ?case using Cons.prems by (simp add: dec_enc o_def del: upt_Suc)
qed simp

end

interpretation entry: fixed_codec peer_entry entry_struct id wf_address PEER_ADDR_LEN
  by unfold_locales (auto simp: peer_entry_def entry_struct_def wf_address_def length_defs load32_append)

interpretation request: fixed_codec "\<lambda>(me, command, len). request_message me command len" request_struct
  "\<lambda>(me, command, len). \<lparr>rh_ip = na_ip me, rh_port = htobe32 (na_port me), rh_signature = na_signature me,
     rh_command = htobe32 command, rh_length = htobe32 len\<rparr>" "\<lambda>(me, _, _). wf_address me" REQUEST_HEADER_LEN
  by unfold_locales
    (auto simp: request_message_def request_struct_def wf_address_def length_defs load32_append)

interpretation reply: fixed_codec "\<lambda>(len, st, b, n, th, bh). add_response_header len st b n th bh" reply_struct
  "\<lambda>(len, st, b, n, th, bh). \<lparr>rp_length = htobe32 len, rp_status = htobe32 st, rp_this_block = htobe32 b,
     rp_block_count = htobe32 n, rp_block_hash = hash_field bh, rp_total_hash = hash_field th\<rparr>"
  "\<lambda>(_, _, _, _, th, bh). length (hash_field th) = 32 \<and> length (hash_field bh) = 32" REPLY_HEADER_LEN
  by unfold_locales (auto simp: add_response_header_def reply_struct_def length_defs load32_append)

section \<open>The network list\<close>

definition compute_signature :: "bytes \<Rightarrow> bytes \<Rightarrow> array_error + bytes" where
  "compute_signature password salt = data_sha (take PASSWORD_LEN password @ take SALT_LEN salt)"

definition print_network :: "network_address list \<Rightarrow> (nat \<times> bytes \<times> u32) list" where
  "print_network network = map (\<lambda>i. (i, c_bytes (na_ip (network ! i)), na_port (network ! i))) [0..<length network]"

fun find_peer_from :: "network_address list \<Rightarrow> nat \<Rightarrow> bytes \<Rightarrow> u32 \<Rightarrow> array_error + int" where
  "find_peer_from [] i ip port = Inr (- 1)"
| "find_peer_from (p # ps) i ip port =
     rbind (strcmp_eq (na_ip p) ip) (\<lambda>eq.
       if eq \<and> na_port p = port then Inr (int i) else find_peer_from ps (i + 1) ip port)"

definition find_peer :: "network_address list \<Rightarrow> bytes \<Rightarrow> u32 \<Rightarrow> array_error + int" where
  "find_peer network ip port = find_peer_from network 0 ip port"

definition validate_signature :: "network_address list \<Rightarrow> request_header \<Rightarrow> array_error + bool" where
  "validate_signature network hdr =
     rbind (find_peer network (rh_ip hdr) (rh_port hdr)) (\<lambda>idx.
       if idx < 0 then Inr False
       else rbind (arr_get network idx) (\<lambda>p. Inr (rh_signature hdr = na_signature p)))"

text \<open>The loop that looks for a known peer and updates it: \<open>None\<close> if it runs to the end.\<close>

fun update_peer :: "network_address list \<Rightarrow> bytes \<Rightarrow> u32 \<Rightarrow> bytes \<Rightarrow> bytes \<Rightarrow> array_error + network_address list option" where
  "update_peer [] ip port signature salt = Inr None"
| "update_peer (p # ps) ip port signature salt =
     rbind (strcmp_eq (na_ip p) ip) (\<lambda>eq.
       if eq \<and> na_port p = port then Inr (Some (p\<lparr>na_signature := signature, na_salt := salt\<rparr> # ps))
       else rbind (update_peer ps ip port signature salt) (\<lambda>r. Inr (map_option (Cons p) r)))"

definition add_peer_to_network :: "network_address list \<Rightarrow> bytes \<Rightarrow> u32 \<Rightarrow> bytes \<Rightarrow> bytes \<Rightarrow>
    array_error + int \<times> network_address list" where
  "add_peer_to_network network ip port signature salt =
     rbind (update_peer network ip port signature salt) (\<lambda>r.
       case r of
         Some network' \<Rightarrow> Inr (0, network')
       | None \<Rightarrow> Inr (1, network @ [\<lparr>na_ip = ip, na_port = port, na_salt = salt, na_signature = signature\<rparr>]))"

fun is_unregistrered :: "network_address list \<Rightarrow> request_header \<Rightarrow> array_error + bool" where
  "is_unregistrered [] hdr = Inr True"
| "is_unregistrered (p # ps) hdr =
     rbind (strcmp_eq (na_ip p) (rh_ip hdr)) (\<lambda>eq.
       if eq \<and> na_port p = rh_port hdr then Inr False else is_unregistrered ps hdr)"

section \<open>The list as a map\<close>

text \<open>The abstract network: from address and port to signature and salt.\<close>

type_synonym peer_key = "bytes \<times> u32"

definition peer_key :: "network_address \<Rightarrow> peer_key" where
  "peer_key p = (c_bytes (na_ip p), na_port p)"

definition net_map :: "network_address list \<Rightarrow> peer_key \<Rightarrow> (bytes \<times> bytes) option" where
  "net_map network = map_of (map (\<lambda>p. (peer_key p, (na_signature p, na_salt p))) network)"

definition wf_network :: "network_address list \<Rightarrow> bool" where
  "wf_network network \<longleftrightarrow> list_all wf_address network \<and> distinct (map peer_key network)"

lemma net_map_simps [simp]:
  "net_map [] = Map.empty"
  "net_map (p # ps) = (net_map ps)(peer_key p \<mapsto> (na_signature p, na_salt p))"
  by (simp_all add: net_map_def)

lemma net_map_None: "net_map network k = None \<longleftrightarrow> k \<notin> set (map peer_key network)"
  by (induction network) auto

lemma strcmp_key:
  assumes "wf_address p" "length ip = 16"
  shows "strcmp_eq (na_ip p) ip = Inr (c_bytes (na_ip p) = c_bytes ip)"
  using assms strcmp_eq_terminated [of "na_ip p" ip] by (simp add: wf_address_def)

lemma peer_key_eq: "peer_key p = (c_bytes ip, port) \<longleftrightarrow> c_bytes (na_ip p) = c_bytes ip \<and> na_port p = port"
  by (simp add: peer_key_def)

lemma find_peer_from_right:
  "list_all wf_address network \<Longrightarrow> length ip = 16 \<Longrightarrow>
   find_peer_from network i ip port =
     (case net_map network (c_bytes ip, port) of
        None \<Rightarrow> Inr (- 1)
      | Some v \<Rightarrow> Inr (int (i + length (takeWhile (\<lambda>p. peer_key p \<noteq> (c_bytes ip, port)) network))))"
  by (induction network arbitrary: i) (auto simp: strcmp_key peer_key_def split: option.splits)

lemma takeWhile_key_nth:
  assumes "net_map network k = Some v"
  shows "length (takeWhile (\<lambda>p. peer_key p \<noteq> k) network) < length network"
    "(na_signature (network ! length (takeWhile (\<lambda>p. peer_key p \<noteq> k) network)),
      na_salt (network ! length (takeWhile (\<lambda>p. peer_key p \<noteq> k) network))) = v"
  using assms by (induction network) (auto split: if_splits)

lemma validate_signature_right:
  assumes "list_all wf_address network" "length (rh_ip hdr) = 16"
  shows "validate_signature network hdr =
    Inr (\<exists>salt. net_map network (c_bytes (rh_ip hdr), rh_port hdr) = Some (rh_signature hdr, salt))"
proof (cases "net_map network (c_bytes (rh_ip hdr), rh_port hdr)")
  case None
  then show ?thesis using find_peer_from_right [OF assms] by (simp add: validate_signature_def find_peer_def)
next
  case (Some v)
  from takeWhile_key_nth [OF this] Some show ?thesis
    using find_peer_from_right [OF assms, of 0] by (auto simp: validate_signature_def find_peer_def arr_get_ok)
qed

lemma update_peer_right:
  "list_all wf_address network \<Longrightarrow> length ip = 16 \<Longrightarrow>
   (case update_peer network ip port signature salt of
      Inl e \<Rightarrow> False
    | Inr None \<Rightarrow> net_map network (c_bytes ip, port) = None
    | Inr (Some network') \<Rightarrow> net_map network (c_bytes ip, port) \<noteq> None \<and>
        map peer_key network' = map peer_key network \<and> map na_ip network' = map na_ip network \<and>
        (length signature = 32 \<and> length salt = 16 \<longrightarrow> list_all wf_address network') \<and>
        net_map network' = (net_map network)((c_bytes ip, port) \<mapsto> (signature, salt)))"
proof (induction network)
  case (Cons p ps)
  then have s: "strcmp_eq (na_ip p) ip = Inr (c_bytes (na_ip p) = c_bytes ip)" by (simp add: strcmp_key)
  show ?case
  proof (cases "peer_key p = (c_bytes ip, port)")
    case True
    moreover have "length signature = 32 \<and> length salt = 16 \<longrightarrow> wf_address (p\<lparr>na_signature := signature, na_salt := salt\<rparr>)"
      using Cons.prems by (simp add: wf_address_def)
    ultimately show ?thesis using s Cons.prems by (simp add: peer_key_def)
  next
    case False
    with s have u: "update_peer (p # ps) ip port signature salt =
        rbind (update_peer ps ip port signature salt) (\<lambda>r. Inr (map_option (Cons p) r))"
      by (auto simp: peer_key_eq)
    show ?thesis
      using Cons False unfolding u by (auto split: sum.splits option.splits simp: fun_upd_twist)
  qed
qed simp

lemma is_unregistrered_right:
  "list_all wf_address network \<Longrightarrow> length (rh_ip hdr) = 16 \<Longrightarrow>
   is_unregistrered network hdr = Inr (net_map network (c_bytes (rh_ip hdr), rh_port hdr) = None)"
  by (induction network) (auto simp: strcmp_key peer_key_def)

text \<open>Entering a list of peers one after the other, as \<open>send_register\<close> does with the list it receives.\<close>

fun add_all :: "('d \<Rightarrow> 'e \<Rightarrow> array_error + int \<times> 'd) \<Rightarrow> 'd \<Rightarrow> 'e list \<Rightarrow> array_error + 'd" where
  "add_all add d [] = Inr d"
| "add_all add d (e # es) = rbind (add d e) (\<lambda>(_, d). add_all add d es)"

locale peer_directory =
  fixes add :: "'d \<Rightarrow> 'e \<Rightarrow> array_error + int \<times> 'd" and look :: "'d \<Rightarrow> 'k \<Rightarrow> 'v option"
    and key :: "'e \<Rightarrow> 'k" and val :: "'e \<Rightarrow> 'v" and inv :: "'d \<Rightarrow> bool" and ok :: "'e \<Rightarrow> bool"
  assumes add_right: "inv d \<Longrightarrow> ok e \<Longrightarrow> \<exists>d'. add d e = Inr (if look d (key e) = None then 1 else 0, d') \<and>
    inv d' \<and> look d' = (look d)(key e \<mapsto> val e)"
begin

lemma add_all_right:
  "inv d \<Longrightarrow> list_all ok es \<Longrightarrow> \<exists>d'. add_all add d es = Inr d' \<and> inv d' \<and>
    look d' = look d ++ map_of (rev (map (\<lambda>e. (key e, val e)) es))"
proof (induction es arbitrary: d)
  case (Cons e es)
  then obtain d1 where d1: "add d e = Inr (if look d (key e) = None then 1 else 0, d1)" "inv d1"
      "look d1 = (look d)(key e \<mapsto> val e)" using add_right by fastforce
  from Cons.IH [OF d1(2)] Cons.prems obtain d' where "add_all add d1 es = Inr d'" "inv d'"
      "look d' = look d1 ++ map_of (rev (map (\<lambda>e. (key e, val e)) es))" by auto
  with d1 show ?case by (simp add: map_add_upd_left)
qed simp

lemma add_all_knows:
  assumes "inv d" "list_all ok es" "e \<in> set es" "\<forall>e' \<in> set es. key e' = key e \<longrightarrow> val e' = val e"
  shows "\<exists>d'. add_all add d es = Inr d' \<and> inv d' \<and> look d' (key e) = Some (val e)"
proof -
  let ?m = "map_of (rev (map (\<lambda>e. (key e, val e)) es))"
  from assms(3) have "key e \<in> dom ?m" unfolding dom_map_of_conv_image_fst by (force simp: image_iff)
  then obtain v where v: "?m (key e) = Some v" by blast
  from map_of_SomeD [OF v] assms(4) have "v = val e" by auto
  with v have "?m (key e) = Some (val e)" by simp
  with add_all_right [OF assms(1,2)] show ?thesis by (auto simp: map_add_find_right)
qed

end

interpretation known_peers: peer_directory
  "\<lambda>network e. add_peer_to_network network (na_ip e) (na_port e) (na_signature e) (na_salt e)"
  net_map peer_key "\<lambda>e. (na_signature e, na_salt e)" wf_network wf_address
proof
  fix network e
  assume a: "wf_network network" "wf_address e"
  let ?k = "(c_bytes (na_ip e), na_port e)"
  have e: "length (na_ip e) = 16" "length (na_signature e) = 32" "length (na_salt e) = 16" using a(2) by (simp_all add: wf_address_def)
  have w: "list_all wf_address network" "distinct (map peer_key network)" using a(1) by (simp_all add: wf_network_def)
  note u = update_peer_right [OF w(1) e(1), of "na_port e" "na_signature e" "na_salt e"]
  show "\<exists>network'. add_peer_to_network network (na_ip e) (na_port e) (na_signature e) (na_salt e) =
      Inr (if net_map network (peer_key e) = None then 1 else 0, network') \<and> wf_network network' \<and>
      net_map network' = (net_map network)(peer_key e \<mapsto> (na_signature e, na_salt e))"
  proof (cases "net_map network ?k")
    case None
    have e_eq: "\<lparr>na_ip = na_ip e, na_port = na_port e, na_salt = na_salt e, na_signature = na_signature e\<rparr> = e" by (cases e) simp
    have "net_map (network @ [e]) = (net_map network)(peer_key e \<mapsto> (na_signature e, na_salt e))"
      using None by (induction network) (auto simp: peer_key_def fun_upd_twist split: if_splits)
    with None u w a(2) net_map_None [of network ?k] show ?thesis
      by (auto simp: e_eq add_peer_to_network_def peer_key_def wf_network_def split: sum.splits option.splits)
  next
    case (Some v)
    with u w e show ?thesis
      by (auto simp: add_peer_to_network_def peer_key_def [of e] wf_network_def split: sum.splits option.splits)
  qed
qed

section \<open>Properties\<close>

definition demo_address :: network_address where
  "demo_address = \<lparr>na_ip = [49, 46, 50, 46, 51, 46, 52] @ replicate 9 0, na_port = 5000, na_salt = replicate 16 65,
     na_signature = replicate 32 7\<rparr>"

lemma wf_demo_address: "wf_address demo_address"
  by (simp add: wf_address_def demo_address_def)

text \<open>
  C35: What a peer sends, the other reads back. The fields of a request header and of a reply header
  arrive as they were given, after the conversion from network order, whatever bytes follow; the
  headers have the lengths the protocol fixes; and a list of peers is taken apart into the same
  peers, 68 bytes each.
\<close>

theorem wire_formats_roundtrip:
  assumes "wf_address me" "list_all wf_address ps" "length th = 32" "length bh = 32"
  shows "let hdr = request_struct (request_message me cmd len @ rest);
      rep = reply_struct (add_response_header n st b nb (Some th) (Some bh) @ rest) in
    rh_ip hdr = na_ip me \<and> be32toh (rh_port hdr) = na_port me \<and> rh_signature hdr = na_signature me \<and>
    be32toh (rh_command hdr) = cmd \<and> be32toh (rh_length hdr) = len \<and>
    be32toh (rp_length rep) = n \<and> be32toh (rp_status rep) = st \<and> be32toh (rp_this_block rep) = b \<and>
    be32toh (rp_block_count rep) = nb \<and> rp_total_hash rep = th \<and> rp_block_hash rep = bh \<and>
    length (request_message me cmd len) = REQUEST_HEADER_LEN \<and>
    length (add_response_header n st b nb (Some th) (Some bh)) = REPLY_HEADER_LEN \<and>
    map (\<lambda>i. entry_struct (drop (i * PEER_ADDR_LEN) (concat (map peer_entry ps) @ rest))) [0..<length ps] = ps"
  using request.dec_enc [of "(me, cmd, len)" rest] request.enc_length [of "(me, cmd, len)"]
    reply.dec_enc [of "(n, st, b, nb, Some th, Some bh)" rest] reply.enc_length [of "(n, st, b, nb, Some th, Some bh)"]
    entry.dec_entries [OF assms(2), of rest] assms
  by (simp add: Let_def hash_field_def)

theorem wire_formats_roundtrip_witness:
  "be32toh (rh_port (request_struct (request_message demo_address COMMAND_REGISTER 0 @ [1]))) = 5000"
  using wire_formats_roundtrip [OF wf_demo_address, of "[]" "replicate 32 0" "replicate 32 0" COMMAND_REGISTER 0 "[1]"]
  by (simp add: Let_def demo_address_def)

text \<open>
  C34: The network list is a map from peers, by address and port, to their signature and salt, with
  no peer twice. Adding a peer never reads past an address, updates the map at the peer, keeps the
  list well formed, and says whether the peer was new; a peer counts as unregistered exactly when
  the map does not have it, and a request's signature is valid exactly if it is the one the
  map has for the sender.
\<close>

theorem network_refines_map:
  assumes "wf_network network" "wf_address e" "length (rh_ip hdr) = 16"
  shows "(\<exists>network'. add_peer_to_network network (na_ip e) (na_port e) (na_signature e) (na_salt e) =
       Inr (if net_map network (peer_key e) = None then 1 else 0, network') \<and> wf_network network' \<and>
       net_map network' = (net_map network)(peer_key e \<mapsto> (na_signature e, na_salt e))) \<and>
    is_unregistrered network hdr = Inr (net_map network (c_bytes (rh_ip hdr), rh_port hdr) = None) \<and>
    validate_signature network hdr =
      Inr (\<exists>salt. net_map network (c_bytes (rh_ip hdr), rh_port hdr) = Some (rh_signature hdr, salt))"
  using known_peers.add_right [OF assms(1,2)] assms(1,3)
  by (simp add: is_unregistrered_right validate_signature_right wf_network_def)

theorem network_refines_map_witness:
  "is_unregistrered [demo_address]
     \<lparr>rh_ip = na_ip demo_address, rh_port = na_port demo_address, rh_signature = [], rh_command = 1, rh_length = 0\<rparr> = Inr False"
proof -
  have "wf_network [demo_address]" by (simp add: wf_network_def wf_demo_address)
  from network_refines_map [OF this wf_demo_address,
      of "\<lparr>rh_ip = na_ip demo_address, rh_port = na_port demo_address, rh_signature = [], rh_command = 1, rh_length = 0\<rparr>"]
  show ?thesis using wf_demo_address by (simp add: peer_key_def wf_address_def)
qed

end
