(* ===== verification/Peer_Threads.thy ===== *)
theory Peer_Threads
  imports Peer_Wire
begin

text \<open>
  The list of known peers under the threads of \<open>Opgave4/src/peer.c\<close>. The functions of \<open>Peer_Wire\<close>
  run there from start to end; here one step is one access of one thread to the shared variables
  \<open>network\<close>, \<open>peer_count\<close>, \<open>network_mutex\<close> or to the memory behind \<open>network\<close>, and the steps of any number
  of threads interleave. Inside the lock, accesses that only the holder can observe are one step.

  \<open>network\<close> is the address of an array of addresses of structures. \<open>realloc\<close> grows the array in
  place or moves it, and then the old array is freed: which of the two, and where to, is up to the
  memory allocator, which always finds room. The structures are never freed. An access to an array
  that has been freed is a fault of the thread. The count is a number, since the memory ends before
  32 bits do.

  \<open>print_network\<close> and \<open>add_peer_to_network\<close> take the lock; \<open>find_peer\<close>, the access to the chosen peer in
  \<open>send_retrieve\<close> and the copy of the list in \<open>register_peer\<close> do not. The comparison of signatures in
  \<open>validate_signature\<close> and the loop of \<open>send_inform\<close>, which read the list in the same way without the
  lock, have no steps of their own here.
\<close>

section \<open>State\<close>

type_synonym thread = nat

datatype net_fault = FreedArray | PastTheEnd

datatype net_result =
    RetAdd int
  | RetRows nat "(bytes \<times> u32) list"
  | RetFind bytes u32 int
  | RetPeer nat bytes u32
  | RetInvalid int
  | RetList "(bytes \<times> u32) list"

text \<open>
  The result of a search or an access carries what was asked for. The positions in the code: those
  of \<open>add_peer_to_network\<close> carry the peer to add, those of the readers what they have read so far and,
  last, the value of \<open>network\<close> they have loaded.
\<close>

datatype net_pos =
    AtRest
  | AddLock network_address
  | AddScan network_address nat
  | AddSignature network_address nat
  | AddSalt network_address nat
  | AddKnown network_address
  | AddRealloc network_address
  | AddStore network_address nat
  | AddMalloc network_address
  | AddFill network_address
  | AddCount network_address
  | AddNew network_address
  | PrintLock
  | PrintHead
  | PrintRow nat nat "(bytes \<times> u32) list"
  | PrintUnlock nat "(bytes \<times> u32) list"
  | FindTest bytes u32 nat
  | FindLoadIp bytes u32 nat
  | FindIp bytes u32 nat nat
  | FindLoadPort bytes u32 nat
  | FindPort bytes u32 nat nat
  | GetTest int
  | GetLoadPort nat
  | GetPort nat nat
  | GetLoadIp nat u32
  | GetIp nat u32 nat
  | RegSize
  | RegTest nat nat "(bytes \<times> u32) list"
  | RegLoadIp nat nat "(bytes \<times> u32) list"
  | RegIp nat nat "(bytes \<times> u32) list" nat
  | RegLoadPort nat nat "(bytes \<times> u32) list" bytes
  | RegPort nat nat "(bytes \<times> u32) list" bytes nat nat
  | RegSend nat "(bytes \<times> u32) list"
  | Done net_result
  | Faulted net_fault

record net_state =
  arrays :: "nat \<Rightarrow> nat list option"
  structs :: "nat \<Rightarrow> network_address"
  next_struct :: nat
  network :: nat
  peer_count :: nat
  network_mutex :: "thread option"
  pos :: "thread \<Rightarrow> net_pos"

definition net_init :: net_state where
  "net_init = \<lparr>arrays = (\<lambda>_. None),
     structs = (\<lambda>_. \<lparr>na_ip = [], na_port = 0, na_salt = [], na_signature = []\<rparr>),
     next_struct = 0, network = 0, peer_count = 0,
     network_mutex = None, pos = (\<lambda>_. AtRest)\<rparr>"

definition at_pos :: "thread \<Rightarrow> net_pos \<Rightarrow> net_state \<Rightarrow> net_state" where
  "at_pos t p s = s\<lparr>pos := (pos s)(t := p)\<rparr>"

text \<open>The access \<open>network[i]\<close> with the value \<open>p\<close> of \<open>network\<close>.\<close>

definition slot :: "net_state \<Rightarrow> nat \<Rightarrow> nat \<Rightarrow> nat option" where
  "slot s p i = (case arrays s p of None \<Rightarrow> None | Some ids \<Rightarrow> if i < length ids then Some (ids ! i) else None)"

definition with_slot :: "thread \<Rightarrow> net_state \<Rightarrow> nat \<Rightarrow> nat \<Rightarrow> (nat \<Rightarrow> net_state) \<Rightarrow> net_state" where
  "with_slot t s p i f = (case slot s p i of None \<Rightarrow> at_pos t (Faulted FreedArray) s | Some a \<Rightarrow> f a)"

definition same_ip :: "thread \<Rightarrow> net_state \<Rightarrow> nat \<Rightarrow> bytes \<Rightarrow> (bool \<Rightarrow> net_state) \<Rightarrow> net_state" where
  "same_ip t s a ip f = (case strcmp_eq (na_ip (structs s a)) ip of Inl e \<Rightarrow> at_pos t (Faulted PastTheEnd) s | Inr eq \<Rightarrow> f eq)"

section \<open>Steps\<close>

text \<open>The array after \<open>realloc\<close> at the address \<open>q\<close>; the contents of the new slot are arbitrary.\<close>

definition moved_to :: "nat \<Rightarrow> net_state \<Rightarrow> net_state" where
  "moved_to q s =
     (let ids = (case arrays s (network s) of None \<Rightarrow> [] | Some ids \<Rightarrow> take (peer_count s) ids) in
      s\<lparr>arrays := (arrays s)(network s := None, q := Some (ids @ [0]))\<rparr>)"

text \<open>\<open>add_peer_to_network\<close>; the argument \<open>q\<close> is where \<open>realloc\<close> puts the array.\<close>

fun add_next :: "nat \<Rightarrow> thread \<Rightarrow> net_pos \<Rightarrow> net_state \<Rightarrow> net_state option" where
  "add_next q t (AddLock e) s =
     (if network_mutex s = None then Some (at_pos t (AddScan e 0) (s\<lparr>network_mutex := Some t\<rparr>)) else None)"
| "add_next q t (AddScan e i) s = Some (
     if i < peer_count s then
       with_slot t s (network s) i (\<lambda>a. same_ip t s a (na_ip e) (\<lambda>eq.
         at_pos t (if eq \<and> na_port (structs s a) = na_port e then AddSignature e i else AddScan e (i + 1)) s))
     else at_pos t (AddRealloc e) s)"
| "add_next q t (AddSignature e i) s = Some (
     with_slot t s (network s) i (\<lambda>a. at_pos t (AddSalt e i)
       (s\<lparr>structs := (structs s)(a := (structs s a)\<lparr>na_signature := na_signature e\<rparr>)\<rparr>)))"
| "add_next q t (AddSalt e i) s = Some (
     with_slot t s (network s) i (\<lambda>a. at_pos t (AddKnown e)
       (s\<lparr>structs := (structs s)(a := (structs s a)\<lparr>na_salt := na_salt e\<rparr>)\<rparr>)))"
| "add_next q t (AddKnown e) s = Some (at_pos t (Done (RetAdd 0)) (s\<lparr>network_mutex := None\<rparr>))"
| "add_next q t (AddRealloc e) s =
     (if q \<noteq> 0 \<and> (q = network s \<or> arrays s q = None) then Some (at_pos t (AddStore e q) (moved_to q s)) else None)"
| "add_next q t (AddStore e q') s = Some (at_pos t (AddMalloc e) (s\<lparr>network := q'\<rparr>))"
| "add_next q t (AddMalloc e) s = Some (
     with_slot t s (network s) (peer_count s) (\<lambda>_. at_pos t (AddFill e)
       (s\<lparr>arrays := (arrays s)(network s := map_option (\<lambda>ids. ids[peer_count s := next_struct s]) (arrays s (network s))),
          next_struct := next_struct s + 1\<rparr>)))"
| "add_next q t (AddFill e) s = Some (
     with_slot t s (network s) (peer_count s) (\<lambda>a. at_pos t (AddCount e) (s\<lparr>structs := (structs s)(a := e)\<rparr>)))"
| "add_next q t (AddCount e) s = Some (at_pos t (AddNew e) (s\<lparr>peer_count := peer_count s + 1\<rparr>))"
| "add_next q t (AddNew e) s = Some (at_pos t (Done (RetAdd 1)) (s\<lparr>network_mutex := None\<rparr>))"
| "add_next q t _ s = None"

fun print_next :: "thread \<Rightarrow> net_pos \<Rightarrow> net_state \<Rightarrow> net_state option" where
  "print_next t PrintLock s =
     (if network_mutex s = None then Some (at_pos t PrintHead (s\<lparr>network_mutex := Some t\<rparr>)) else None)"
| "print_next t PrintHead s = Some (at_pos t (PrintRow (peer_count s) 0 []) s)"
| "print_next t (PrintRow n i rows) s = Some (
     if i < peer_count s then
       with_slot t s (network s) i (\<lambda>a. at_pos t
         (PrintRow n (i + 1) (rows @ [(c_bytes (na_ip (structs s a)), na_port (structs s a))])) s)
     else at_pos t (PrintUnlock n rows) s)"
| "print_next t (PrintUnlock n rows) s = Some (at_pos t (Done (RetRows n rows)) (s\<lparr>network_mutex := None\<rparr>))"
| "print_next t _ s = None"

text \<open>\<open>find_peer\<close>, and the same loop in \<open>is_unregistrered\<close>.\<close>

fun find_next :: "thread \<Rightarrow> net_pos \<Rightarrow> net_state \<Rightarrow> net_state option" where
  "find_next t (FindTest ip port i) s = Some (at_pos t
     (if i < peer_count s then FindLoadIp ip port i else Done (RetFind ip port (- 1))) s)"
| "find_next t (FindLoadIp ip port i) s = Some (at_pos t (FindIp ip port i (network s)) s)"
| "find_next t (FindIp ip port i p) s = Some (
     with_slot t s p i (\<lambda>a. same_ip t s a ip (\<lambda>eq.
       at_pos t (if eq then FindLoadPort ip port i else FindTest ip port (i + 1)) s)))"
| "find_next t (FindLoadPort ip port i) s = Some (at_pos t (FindPort ip port i (network s)) s)"
| "find_next t (FindPort ip port i p) s = Some (
     with_slot t s p i (\<lambda>a. at_pos t
       (if na_port (structs s a) = port then Done (RetFind ip port (int i)) else FindTest ip port (i + 1)) s))"
| "find_next t _ s = None"

text \<open>The access to the chosen peer in \<open>send_retrieve\<close>: the test of the index, the port, the address.\<close>

fun get_next :: "thread \<Rightarrow> net_pos \<Rightarrow> net_state \<Rightarrow> net_state option" where
  "get_next t (GetTest i) s = Some (at_pos t (if i < 0 \<or> peer_count s \<le> nat i then Done (RetInvalid i) else GetLoadPort (nat i)) s)"
| "get_next t (GetLoadPort i) s = Some (at_pos t (GetPort i (network s)) s)"
| "get_next t (GetPort i p) s = Some (with_slot t s p i (\<lambda>a. at_pos t (GetLoadIp i (na_port (structs s a))) s))"
| "get_next t (GetLoadIp i port) s = Some (at_pos t (GetIp i port (network s)) s)"
| "get_next t (GetIp i port p) s = Some (
     with_slot t s p i (\<lambda>a. at_pos t (Done (RetPeer i (na_ip (structs s a)) port)) s))"
| "get_next t _ s = None"

text \<open>
  The copy of the list in \<open>register_peer\<close>: the array \<open>data\<close> gets room for the \<open>n\<close> peers counted first
  and one more; the loop counts again before each entry, and so does the call of \<open>respond\<close>.
\<close>

fun reg_next :: "thread \<Rightarrow> net_pos \<Rightarrow> net_state \<Rightarrow> net_state option" where
  "reg_next t RegSize s = Some (at_pos t (RegTest (peer_count s) 0 []) s)"
| "reg_next t (RegTest n i xs) s = Some (at_pos t (if i < peer_count s then RegLoadIp n i xs else RegSend n xs) s)"
| "reg_next t (RegLoadIp n i xs) s = Some (at_pos t (RegIp n i xs (network s)) s)"
| "reg_next t (RegIp n i xs p) s = Some (
     with_slot t s p i (\<lambda>a. at_pos t
       (if i < n then RegLoadPort n i xs (na_ip (structs s a)) else Faulted PastTheEnd) s))"
| "reg_next t (RegLoadPort n i xs ip) s = Some (at_pos t (RegPort n i xs ip (network s) (peer_count s - 1)) s)"
| "reg_next t (RegPort n i xs ip p j) s = Some (
     with_slot t s p j (\<lambda>a. at_pos t (RegTest n (i + 1) (xs @ [(ip, na_port (structs s a))])) s))"
| "reg_next t (RegSend n xs) s = Some (at_pos t (if peer_count s \<le> n then Done (RetList xs) else Faulted PastTheEnd) s)"
| "reg_next t _ s = None"

definition net_next :: "nat \<Rightarrow> thread \<Rightarrow> net_state \<Rightarrow> net_state option" where
  "net_next q t s =
     (let p = pos s t in
      case add_next q t p s of Some s' \<Rightarrow> Some s'
      | None \<Rightarrow> case print_next t p s of Some s' \<Rightarrow> Some s'
      | None \<Rightarrow> case find_next t p s of Some s' \<Rightarrow> Some s'
      | None \<Rightarrow> case get_next t p s of Some s' \<Rightarrow> Some s'
      | None \<Rightarrow> reg_next t p s)"

text \<open>What a thread that is at rest, or done, may call.\<close>

fun is_call :: "net_pos \<Rightarrow> bool" where
  "is_call (AddLock e) = wf_address e"
| "is_call PrintLock = True"
| "is_call (FindTest ip port i) = (i = 0 \<and> length ip = 16)"
| "is_call (GetTest i) = True"
| "is_call RegSize = True"
| "is_call _ = False"

fun at_rest :: "net_pos \<Rightarrow> bool" where
  "at_rest AtRest = True"
| "at_rest (Done r) = True"
| "at_rest _ = False"

text \<open>The additions that are complete, with what they return, in the order in which they let go of the lock.\<close>

fun completes :: "net_pos \<Rightarrow> (network_address \<times> int) list" where
  "completes (AddKnown e) = [(e, 0)]"
| "completes (AddNew e) = [(e, 1)]"
| "completes _ = []"

inductive net_run :: "net_state \<Rightarrow> (network_address \<times> int) list \<Rightarrow> net_state \<Rightarrow> bool" where
  net_start: "net_run s [] s"
| net_call: "net_run s es s' \<Longrightarrow> at_rest (pos s' t) \<Longrightarrow> is_call p \<Longrightarrow> net_run s es (at_pos t p s')"
| net_step: "net_run s es s' \<Longrightarrow> net_next q t s' = Some s'' \<Longrightarrow> net_run s (es @ completes (pos s' t)) s''"

section \<open>Schedules\<close>

text \<open>A schedule says which thread calls what, and which thread steps (with the address for \<open>realloc\<close>).\<close>

datatype net_move = Call thread net_pos | Step thread nat

fun play :: "net_move list \<Rightarrow> (network_address \<times> int) list \<times> net_state \<Rightarrow> ((network_address \<times> int) list \<times> net_state) option" where
  "play [] c = Some c"
| "play (Call t p # ms) (es, s) = (if at_rest (pos s t) \<and> is_call p then play ms (es, at_pos t p s) else None)"
| "play (Step t q # ms) (es, s) =
     (case net_next q t s of None \<Rightarrow> None | Some s' \<Rightarrow> play ms (es @ completes (pos s t), s'))"

lemma play_run: "play ms (es, s) = Some (es', s') \<Longrightarrow> net_run s0 es s \<Longrightarrow> net_run s0 es' s'"
  by (induction ms "(es, s)" arbitrary: es s rule: play.induct)
    (auto split: if_splits option.splits intro: net_call net_step)

lemma play_Cons: "play (m # ms) c = (case play [m] c of None \<Rightarrow> None | Some c' \<Rightarrow> play ms c')"
  by (cases m; cases c) (auto split: option.split)

fun steps_of :: "thread \<Rightarrow> net_move list \<Rightarrow> nat" where
  "steps_of t [] = 0"
| "steps_of t (Call u p # ms) = steps_of t ms"
| "steps_of t (Step u q # ms) = (if u = t then 1 else 0) + steps_of t ms"

end
