(* ===== verification/Peer_Lock.thy ===== *)
theory Peer_Lock
  imports Peer_Threads
begin

text \<open>
  What the holder of \<open>network_mutex\<close> does to the list of peers of \<open>Peer_Threads\<close>. The list in memory is
  read off the array of addresses (\<open>view\<close>); \<open>net_ok\<close> relates it, for each position of the holder, to
  the list that the completed additions left. Every step of the holder keeps it, and its last step is
  an addition of \<open>add_peer_to_network\<close>.
\<close>

section \<open>The invariant\<close>

fun in_section :: "net_pos \<Rightarrow> bool" where
  "in_section (AddScan e i) = True"
| "in_section (AddSignature e i) = True"
| "in_section (AddSalt e i) = True"
| "in_section (AddKnown e) = True"
| "in_section (AddRealloc e) = True"
| "in_section (AddStore e q) = True"
| "in_section (AddMalloc e) = True"
| "in_section (AddFill e) = True"
| "in_section (AddCount e) = True"
| "in_section (AddNew e) = True"
| "in_section PrintHead = True"
| "in_section (PrintRow n i rows) = True"
| "in_section (PrintUnlock n rows) = True"
| "in_section _ = False"

definition holder_pos :: "net_state \<Rightarrow> net_pos" where
  "holder_pos s = (case network_mutex s of None \<Rightarrow> AtRest | Some t \<Rightarrow> pos s t)"

text \<open>The address of the array, also between the return of \<open>realloc\<close> and the assignment; the peers counted.\<close>

definition block_of :: "net_state \<Rightarrow> nat" where
  "block_of s = (case holder_pos s of AddStore e q \<Rightarrow> q | _ \<Rightarrow> network s)"

definition ids_at :: "net_state \<Rightarrow> nat \<Rightarrow> nat list" where
  "ids_at s p = (case arrays s p of None \<Rightarrow> [] | Some ids \<Rightarrow> ids)"

definition ids :: "net_state \<Rightarrow> nat list" where
  "ids s = take (peer_count s) (ids_at s (block_of s))"

definition view :: "net_state \<Rightarrow> network_address list" where
  "view s = map (structs s) (ids s)"

definition addrs :: "net_state \<Rightarrow> (bytes \<times> u32) list" where
  "addrs s = map (\<lambda>e. (na_ip e, na_port e)) (view s)"

definition array_ok :: "net_state \<Rightarrow> bool" where
  "array_ok s \<longleftrightarrow> length (ids s) = peer_count s \<and> distinct (ids s) \<and> (\<forall>a \<in> set (ids s). a < next_struct s) \<and>
     wf_network (view s) \<and> (\<forall>r. arrays s r \<noteq> None \<longrightarrow> r = block_of s)"

definition no_match :: "network_address list \<Rightarrow> network_address \<Rightarrow> nat \<Rightarrow> bool" where
  "no_match L e i \<longleftrightarrow> (\<forall>j < i. peer_key (L ! j) \<noteq> peer_key e)"

definition first_match :: "network_address list \<Rightarrow> network_address \<Rightarrow> nat \<Rightarrow> bool" where
  "first_match L e i \<longleftrightarrow> i < length L \<and> no_match L e i \<and> peer_key (L ! i) = peer_key e"

definition adds :: "network_address list \<Rightarrow> network_address \<Rightarrow> int \<Rightarrow> network_address list \<Rightarrow> bool" where
  "adds L e r L' \<longleftrightarrow> add_peer_to_network L (na_ip e) (na_port e) (na_signature e) (na_salt e) = Inr (r, L')"

definition slots :: "net_state \<Rightarrow> nat" where
  "slots s = length (ids_at s (block_of s))"

text \<open>
  What the holder of the lock has done to the list \<open>L\<close> that the completed additions left; \<open>V\<close> is
  the list in memory.
\<close>

fun progress :: "net_pos \<Rightarrow> net_state \<Rightarrow> network_address list \<Rightarrow> network_address list \<Rightarrow> bool" where
  "progress (AddScan e i) s L V \<longleftrightarrow> V = L \<and> slots s = peer_count s \<and> wf_address e \<and> i \<le> length L \<and> no_match L e i"
| "progress (AddSignature e i) s L V \<longleftrightarrow> V = L \<and> slots s = peer_count s \<and> wf_address e \<and> first_match L e i"
| "progress (AddSalt e i) s L V \<longleftrightarrow> wf_network L \<and> slots s = peer_count s \<and> wf_address e \<and> first_match L e i \<and>
     V = L[i := (L ! i)\<lparr>na_signature := na_signature e\<rparr>]"
| "progress (AddKnown e) s L V \<longleftrightarrow> slots s = peer_count s \<and> adds L e 0 V"
| "progress (AddRealloc e) s L V \<longleftrightarrow> V = L \<and> slots s = peer_count s \<and> wf_address e \<and> no_match L e (length L)"
| "progress (AddStore e q) s L V \<longleftrightarrow> V = L \<and> slots s = peer_count s + 1 \<and> wf_address e \<and> no_match L e (length L)"
| "progress (AddMalloc e) s L V \<longleftrightarrow> V = L \<and> slots s = peer_count s + 1 \<and> wf_address e \<and> no_match L e (length L)"
| "progress (AddFill e) s L V \<longleftrightarrow> V = L \<and> slots s = peer_count s + 1 \<and> wf_address e \<and> no_match L e (length L) \<and>
     ids_at s (network s) ! peer_count s < next_struct s \<and> ids_at s (network s) ! peer_count s \<notin> set (ids s)"
| "progress (AddCount e) s L V \<longleftrightarrow> V = L \<and> slots s = peer_count s + 1 \<and> wf_address e \<and> no_match L e (length L) \<and>
     ids_at s (network s) ! peer_count s < next_struct s \<and> ids_at s (network s) ! peer_count s \<notin> set (ids s) \<and>
     structs s (ids_at s (network s) ! peer_count s) = e"
| "progress (AddNew e) s L V \<longleftrightarrow> slots s = peer_count s \<and> adds L e 1 V"
| "progress (PrintRow n i rows) s L V \<longleftrightarrow> V = L \<and> slots s = peer_count s \<and> n = length L \<and> i \<le> length L \<and> rows = map peer_key (take i L)"
| "progress (PrintUnlock n rows) s L V \<longleftrightarrow> V = L \<and> slots s = peer_count s \<and> n = length L \<and> rows = map peer_key L"
| "progress _ s L V \<longleftrightarrow> V = L \<and> slots s = peer_count s"

definition lock_ok :: "net_state \<Rightarrow> bool" where
  "lock_ok s \<longleftrightarrow> (\<forall>t. in_section (pos s t) \<longleftrightarrow> network_mutex s = Some t)"

definition net_ok :: "net_state \<Rightarrow> network_address list \<Rightarrow> bool" where
  "net_ok s L \<longleftrightarrow> lock_ok s \<and> array_ok s \<and> progress (holder_pos s) s L (view s)"

section \<open>What an addition does to the list\<close>

lemma update_peer_first:
  "list_all wf_address L \<Longrightarrow> wf_address e \<Longrightarrow> first_match L e i \<Longrightarrow>
   update_peer L (na_ip e) (na_port e) (na_signature e) (na_salt e) =
     Inr (Some (L[i := (L ! i)\<lparr>na_signature := na_signature e, na_salt := na_salt e\<rparr>]))"
proof (induction L arbitrary: i)
  case (Cons p L)
  have s: "strcmp_eq (na_ip p) (na_ip e) = Inr (c_bytes (na_ip p) = c_bytes (na_ip e))"
    using Cons.prems by (intro strcmp_key) (auto simp: wf_address_def)
  show ?case
  proof (cases i)
    case 0
    then show ?thesis
      using Cons.prems(3) s by (simp add: first_match_def peer_key_def)
  next
    case (Suc j)
    then have "first_match L e j" "peer_key p \<noteq> peer_key e"
      using Cons.prems(3) by (auto simp: first_match_def no_match_def)
    then show ?thesis
      using Cons.IH [of j] Cons.prems(1,2) Suc s by (auto simp: peer_key_def)
  qed
qed (simp add: first_match_def)

lemma update_peer_none:
  "list_all wf_address L \<Longrightarrow> wf_address e \<Longrightarrow> no_match L e (length L) \<Longrightarrow>
   update_peer L (na_ip e) (na_port e) (na_signature e) (na_salt e) = Inr None"
proof (induction L)
  case (Cons p L)
  have s: "strcmp_eq (na_ip p) (na_ip e) = Inr (c_bytes (na_ip p) = c_bytes (na_ip e))"
    using Cons.prems by (intro strcmp_key) (auto simp: wf_address_def)
  have "no_match L e (length L)" "peer_key p \<noteq> peer_key e"
    using Cons.prems(3) by (auto simp: no_match_def)
  then show ?case
    using Cons s by (auto simp: peer_key_def)
qed simp

lemma adds_known:
  assumes "wf_network L" "wf_address e" "first_match L e i"
  shows "adds L e 0 (L[i := (L ! i)\<lparr>na_signature := na_signature e, na_salt := na_salt e\<rparr>])"
  using update_peer_first [of L e i] assms by (simp add: adds_def add_peer_to_network_def wf_network_def)

lemma adds_new:
  assumes "wf_network L" "wf_address e" "no_match L e (length L)"
  shows "adds L e 1 (L @ [e])"
  using update_peer_none [of L e] assms
  by (cases e) (simp add: adds_def add_peer_to_network_def wf_network_def)

lemma adds_wf:
  assumes "wf_network L" "wf_address e" "adds L e r L'"
  shows "wf_network L'"
  using known_peers.add_right [OF assms(1,2)] assms(3) by (auto simp: adds_def)

section \<open>Steps outside and inside the section\<close>

lemma at_pos_sel [simp]:
  "arrays (at_pos t p s) = arrays s" "structs (at_pos t p s) = structs s" "next_struct (at_pos t p s) = next_struct s"
  "network (at_pos t p s) = network s" "peer_count (at_pos t p s) = peer_count s"
  "network_mutex (at_pos t p s) = network_mutex s" "pos (at_pos t p s) = (pos s)(t := p)"
  by (simp_all add: at_pos_def)

lemma holder_pos_Some: "network_mutex s = Some t \<Longrightarrow> holder_pos s = pos s t"
  by (simp add: holder_pos_def)

lemma holder_pos_None: "network_mutex s = None \<Longrightarrow> holder_pos s = AtRest"
  by (simp add: holder_pos_def)

text \<open>The list in memory depends on the memory and on the address of the array only.\<close>

lemma shared_cong:
  assumes "arrays s' = arrays s" "structs s' = structs s" "next_struct s' = next_struct s" "peer_count s' = peer_count s"
    "block_of s' = block_of s"
  shows "ids_at s' = ids_at s" "ids s' = ids s" "view s' = view s" "slots s' = slots s" "array_ok s' = array_ok s"
proof -
  show at: "ids_at s' = ids_at s"
    using assms by (simp add: ids_at_def fun_eq_iff)
  show i: "ids s' = ids s" and "slots s' = slots s"
    using assms at by (simp_all add: ids_def slots_def)
  show v: "view s' = view s"
    using assms i by (simp add: view_def)
  show "array_ok s' = array_ok s"
    using assms i v by (simp add: array_ok_def)
qed

lemma progress_cong:
  assumes "arrays s' = arrays s" "structs s' = structs s" "next_struct s' = next_struct s" "peer_count s' = peer_count s"
    "block_of s' = block_of s" "network s' = network s"
  shows "progress p s' L V = progress p s L V"
  using shared_cong [OF assms(1-5)] assms by (cases p) simp_all

text \<open>A thread outside the section moves.\<close>

lemma net_ok_local:
  assumes "net_ok s L" "network_mutex s \<noteq> Some t" "\<not> in_section p"
  shows "net_ok (at_pos t p s) L" "view (at_pos t p s) = view s"
proof -
  have h: "holder_pos (at_pos t p s) = holder_pos s"
    using assms(2) by (auto simp: holder_pos_def split: option.split)
  then have b: "block_of (at_pos t p s) = block_of s"
    by (simp add: block_of_def split: net_pos.split)
  note c = shared_cong [of "at_pos t p s" s, OF at_pos_sel(1-3,5) b]
  show "view (at_pos t p s) = view s"
    by (rule c)
  have "lock_ok (at_pos t p s)"
    using assms by (auto simp: net_ok_def lock_ok_def)
  then show "net_ok (at_pos t p s) L"
    using assms(1) h c progress_cong [of "at_pos t p s" s, OF at_pos_sel(1-3,5) b at_pos_sel(4)]
    by (simp add: net_ok_def)
qed

text \<open>The holder of the lock moves and changes nothing.\<close>

lemma block_of_plain:
  "(\<And>e q. holder_pos s \<noteq> AddStore e q) \<Longrightarrow> block_of s = network s"
  by (simp add: block_of_def split: net_pos.split)

lemma net_ok_move:
  assumes "net_ok s L" "network_mutex s = Some t" "\<And>e q. pos s t \<noteq> AddStore e q" "\<And>e q. p \<noteq> AddStore e q"
    "in_section p" "progress p s L (view s)"
  shows "net_ok (at_pos t p s) L" "view (at_pos t p s) = view s"
proof -
  have h: "holder_pos (at_pos t p s) = p"
    using assms(2) by (simp add: holder_pos_def)
  have b: "block_of (at_pos t p s) = block_of s"
    using assms(2-4) by (simp add: block_of_plain h holder_pos_Some)
  note c = shared_cong [of "at_pos t p s" s, OF at_pos_sel(1-3,5) b]
  show "view (at_pos t p s) = view s"
    by (rule c)
  have "lock_ok (at_pos t p s)"
    using assms by (auto simp: net_ok_def lock_ok_def)
  then show "net_ok (at_pos t p s) L"
    using assms(1,6) h c progress_cong [of "at_pos t p s" s, OF at_pos_sel(1-3,5) b at_pos_sel(4)]
    by (simp add: net_ok_def)
qed

text \<open>Taking the lock and giving it back.\<close>

lemma net_ok_acquire:
  assumes "net_ok s L" "network_mutex s = None" "\<And>e q. p \<noteq> AddStore e q" "in_section p"
    "progress p s L (view s)"
  shows "net_ok (at_pos t p (s\<lparr>network_mutex := Some t\<rparr>)) L" "view (at_pos t p (s\<lparr>network_mutex := Some t\<rparr>)) = view s"
proof -
  let ?s = "at_pos t p (s\<lparr>network_mutex := Some t\<rparr>)"
  have h: "holder_pos ?s = p"
    by (simp add: holder_pos_def)
  have b: "block_of ?s = block_of s"
    using assms(2,3) by (simp add: block_of_plain h holder_pos_None)
  have f: "arrays ?s = arrays s" "structs ?s = structs s" "next_struct ?s = next_struct s" "peer_count ?s = peer_count s"
      "network ?s = network s"
    by simp_all
  note c = shared_cong [of ?s s, OF f(1-4) b]
  show "view ?s = view s"
    by (rule c)
  have "lock_ok ?s"
    using assms(1,2,4) by (auto simp: net_ok_def lock_ok_def)
  then show "net_ok ?s L"
    using assms(1,5) h c progress_cong [of ?s s, OF f(1-4) b f(5)] by (simp add: net_ok_def)
qed

lemma net_ok_release:
  assumes "net_ok s L" "network_mutex s = Some t" "\<And>e q. pos s t \<noteq> AddStore e q" "slots s = peer_count s"
  shows "net_ok (at_pos t (Done r) (s\<lparr>network_mutex := None\<rparr>)) (view s)"
    "view (at_pos t (Done r) (s\<lparr>network_mutex := None\<rparr>)) = view s"
proof -
  let ?s = "at_pos t (Done r) (s\<lparr>network_mutex := None\<rparr>)"
  have h: "holder_pos ?s = AtRest"
    by (simp add: holder_pos_def)
  have b: "block_of ?s = block_of s"
    using assms(2,3) by (simp add: block_of_plain h holder_pos_Some)
  have f: "arrays ?s = arrays s" "structs ?s = structs s" "next_struct ?s = next_struct s" "peer_count ?s = peer_count s"
    by simp_all
  note c = shared_cong [of ?s s, OF f b]
  show v: "view ?s = view s"
    by (rule c)
  have "lock_ok ?s"
    using assms(1,2) by (auto simp: net_ok_def lock_ok_def)
  then show "net_ok ?s (view s)"
    using assms(1,4) h c v by (simp add: net_ok_def)
qed

section \<open>Accesses to the array\<close>

lemma slot_ids_at: "slot s p i = Some a \<longleftrightarrow> i < length (ids_at s p) \<and> a = ids_at s p ! i"
  by (auto simp: slot_def ids_at_def split: option.split)

text \<open>Under the lock the access finds the entry of the list.\<close>

lemma slot_held:
  assumes "net_ok s L" "block_of s = network s" "i < peer_count s"
  shows "slot s (network s) i = Some (ids s ! i)" "ids s ! i \<in> set (ids s)" "structs s (ids s ! i) = view s ! i"
    "i < length (view s)"
proof -
  have l: "length (ids s) = peer_count s"
    using assms(1) by (simp add: net_ok_def array_ok_def)
  then show "ids s ! i \<in> set (ids s)" "structs s (ids s ! i) = view s ! i" "i < length (view s)"
    using assms(3) by (simp_all add: view_def)
  show "slot s (network s) i = Some (ids s ! i)"
    using l assms(2,3) by (auto simp: slot_ids_at ids_def)
qed

text \<open>Any access that does not fault, also one with an old value of \<open>network\<close>, finds it too.\<close>

lemma slot_any:
  assumes "net_ok s L" "slot s p i = Some a" "i < peer_count s"
  shows "a = ids s ! i" "structs s a = view s ! i"
proof -
  have l: "length (ids s) = peer_count s" and live: "\<forall>r. arrays s r \<noteq> None \<longrightarrow> r = block_of s"
    using assms(1) by (simp_all add: net_ok_def array_ok_def)
  have "arrays s p \<noteq> None"
    using assms(2) by (auto simp: slot_def split: option.splits)
  then have "p = block_of s"
    using live by blast
  then show a: "a = ids s ! i"
    using assms(2,3) by (auto simp: slot_ids_at ids_def)
  then show "structs s a = view s ! i"
    using l assms(3) by (simp add: view_def)
qed

lemma view_wf:
  assumes "net_ok s L" "i < peer_count s"
  shows "wf_address (view s ! i)" "i < length (view s)"
proof -
  show "i < length (view s)"
    using assms by (simp add: net_ok_def array_ok_def view_def)
  then show "wf_address (view s ! i)"
    using assms(1) by (auto simp: net_ok_def array_ok_def wf_network_def list_all_length)
qed

section \<open>The steps of the holder that change the memory\<close>

lemma map_upd_nth:
  assumes "distinct xs" "i < length xs"
  shows "map (f(xs ! i := y)) xs = (map f xs)[i := y]"
  by (rule nth_equalityI) (use assms in \<open>auto simp: nth_list_update nth_eq_iff_index_eq\<close>)

lemma net_ok_intro:
  assumes "net_ok s L" "network_mutex s = Some t" "network_mutex s' = Some t" "pos s' = (pos s)(t := p)" "in_section p"
    "array_ok s'" "progress p s' L (view s')"
  shows "net_ok s' L"
proof -
  have "lock_ok s'"
    using assms(1-5) by (auto simp: net_ok_def lock_ok_def)
  then show ?thesis
    using assms(3,4,6,7) by (simp add: net_ok_def holder_pos_def)
qed

text \<open>A structure of the list is written; address and port stay.\<close>

lemma struct_written:
  assumes ok: "net_ok s L" and m: "network_mutex s = Some t" and p: "\<And>e q. pos s t \<noteq> AddStore e q" "\<And>e q. p \<noteq> AddStore e q"
    and i: "i < peer_count s" and x: "wf_address x" "na_ip x = na_ip (view s ! i)" "na_port x = na_port (view s ! i)"
    and s': "s' = at_pos t p (s\<lparr>structs := (structs s)(ids s ! i := x)\<rparr>)"
  shows "array_ok s'" "view s' = (view s)[i := x]" "slots s' = slots s" "addrs s' = addrs s"
proof -
  have h: "holder_pos s' = p" "holder_pos s = pos s t" and f: "peer_count s' = peer_count s"
    using m by (simp_all add: holder_pos_def s')
  then have b: "block_of s' = network s" "block_of s = network s"
    using p by (simp_all add: block_of_plain s')
  have at: "ids_at s' = ids_at s"
    by (simp add: ids_at_def fun_eq_iff s')
  then show "slots s' = slots s"
    by (simp add: slots_def b)
  have id: "ids s' = ids s"
    using at f by (simp add: ids_def b)
  have a: "length (ids s) = peer_count s" "distinct (ids s)" "wf_network (view s)"
    using ok by (simp_all add: net_ok_def array_ok_def)
  show v: "view s' = (view s)[i := x]"
    unfolding view_def id using a i by (simp add: s' map_upd_nth)
  show "addrs s' = addrs s"
    unfolding addrs_def v using x(2,3) by (metis (no_types, lifting) list_update_id map_update)
  have "peer_key x = peer_key (view s ! i)"
    using x(2,3) by (simp add: peer_key_def)
  then have "map peer_key ((view s)[i := x]) = map peer_key (view s)"
    by (metis list_update_id map_update)
  then have "wf_network ((view s)[i := x])"
    using a(3) x(1) set_update_subset_insert [of "view s" i x] by (fastforce simp: wf_network_def list_all_iff)
  then show "array_ok s'"
    using ok b id v by (simp add: net_ok_def array_ok_def s')
qed

lemmas net_ok_parts = net_ok_def array_ok_def

lemma step_signature:
  assumes ok: "net_ok s L" and m: "network_mutex s = Some t" and p: "pos s t = AddSignature e i"
    and n: "add_next q t (AddSignature e i) s = Some s'"
  shows "net_ok s' L" "addrs s' = addrs s"
proof -
  have g: "view s = L" "slots s = peer_count s" "wf_address e" "first_match L e i"
    using ok m p by (simp_all add: net_ok_def holder_pos_Some)
  have i: "i < peer_count s"
    using g ok by (auto simp: first_match_def net_ok_parts view_def)
  have b: "block_of s = network s"
    using m p by (simp add: block_of_plain holder_pos_Some)
  let ?x = "(L ! i)\<lparr>na_signature := na_signature e\<rparr>"
  have s': "s' = at_pos t (AddSalt e i) (s\<lparr>structs := (structs s)(ids s ! i := ?x)\<rparr>)"
    using n slot_held [OF ok b i] g(1) by (simp add: with_slot_def)
  have "wf_address ?x"
    using view_wf [OF ok i] g(1,3) by (simp add: wf_address_def)
  note w = struct_written [OF ok m _ _ i this _ _ s', unfolded p g(1), simplified]
  show "addrs s' = addrs s"
    by (rule w)
  have "wf_network L"
    using ok g(1) by (auto simp: net_ok_parts)
  then show "net_ok s' L"
    using g w by (intro net_ok_intro [OF ok m, of s' "AddSalt e i"]) (simp_all add: s' m)
qed

lemma step_salt:
  assumes ok: "net_ok s L" and m: "network_mutex s = Some t" and p: "pos s t = AddSalt e i"
    and n: "add_next q t (AddSalt e i) s = Some s'"
  shows "net_ok s' L" "addrs s' = addrs s"
proof -
  have g: "wf_network L" "slots s = peer_count s" "wf_address e" "first_match L e i"
      "view s = L[i := (L ! i)\<lparr>na_signature := na_signature e\<rparr>]"
    using ok m p by (simp_all add: net_ok_def holder_pos_Some)
  have "length L = peer_count s"
    using g(5) ok by (metis length_list_update length_map net_ok_parts(1,2) view_def)
  then have i: "i < peer_count s" "i < length L"
    using g(4) by (simp_all add: first_match_def)
  have b: "block_of s = network s"
    using m p by (simp add: block_of_plain holder_pos_Some)
  have vi: "view s ! i = (L ! i)\<lparr>na_signature := na_signature e\<rparr>"
    using g(5) i by simp
  let ?x = "(L ! i)\<lparr>na_signature := na_signature e, na_salt := na_salt e\<rparr>"
  have s': "s' = at_pos t (AddKnown e) (s\<lparr>structs := (structs s)(ids s ! i := ?x)\<rparr>)"
    using n slot_held [OF ok b i(1)] vi by (simp add: with_slot_def)
  have "wf_address ?x"
    using view_wf [OF ok i(1)] vi g(3) by (simp add: wf_address_def)
  note w = struct_written [OF ok m _ _ i(1) this _ _ s', unfolded p vi, simplified]
  show "addrs s' = addrs s"
    by (rule w)
  have "adds L e 0 (view s')"
    using adds_known [OF g(1,3,4)] w(2) g(5) by simp
  then show "net_ok s' L"
    using g w by (intro net_ok_intro [OF ok m, of s' "AddKnown e"]) (simp_all add: s' m)
qed

text \<open>\<open>realloc\<close> keeps the entries; the other steps of an addition leave them alone until the count grows.\<close>

lemma same_list:
  assumes "net_ok s L" "ids s' = ids s" "\<And>a. a \<in> set (ids s) \<Longrightarrow> structs s' a = structs s a" "peer_count s' = peer_count s"
    "next_struct s \<le> next_struct s'" "\<And>r. arrays s' r \<noteq> None \<Longrightarrow> r = block_of s'"
  shows "array_ok s'" "view s' = view s" "addrs s' = addrs s"
proof -
  show v: "view s' = view s"
    using assms(2,3) by (simp add: view_def)
  then show "addrs s' = addrs s"
    by (simp add: addrs_def)
  show "array_ok s'"
    using assms v by (fastforce simp: net_ok_parts)
qed

lemma only_block: "net_ok s L \<Longrightarrow> arrays s r \<noteq> None \<Longrightarrow> r = block_of s"
  by (simp add: net_ok_parts)

lemma step_realloc:
  assumes ok: "net_ok s L" and m: "network_mutex s = Some t" and p: "pos s t = AddRealloc e"
    and n: "add_next q t (AddRealloc e) s = Some s'"
  shows "net_ok s' L" "addrs s' = addrs s"
proof -
  have g: "view s = L" "slots s = peer_count s" "wf_address e" "no_match L e (length L)"
    using ok m p by (simp_all add: net_ok_def holder_pos_Some)
  have b: "block_of s = network s"
    using m p by (simp add: block_of_plain holder_pos_Some)
  have s': "s' = at_pos t (AddStore e q) (moved_to q s)"
    using n by (simp split: if_splits)
  then have f: "structs s' = structs s" "next_struct s' = next_struct s" "peer_count s' = peer_count s"
      "network_mutex s' = Some t" "pos s' = (pos s)(t := AddStore e q)"
    using m by (simp_all add: moved_to_def)
  then have b': "block_of s' = q"
    by (simp add: block_of_def holder_pos_def)
  have at: "ids_at s' q = ids_at s (network s) @ [0]"
    using g(2) by (auto simp: s' moved_to_def ids_at_def slots_def b split: option.splits)
  then have id: "ids s' = ids s" and sl: "slots s' = peer_count s' + 1"
    using g(2) by (simp_all add: ids_def slots_def b b' f(3))
  have l: "arrays s' r \<noteq> None \<Longrightarrow> r = block_of s'" for r
    using only_block [OF ok, of r] b b' by (auto simp: s' moved_to_def split: if_splits)
  note w = same_list [OF ok id _ f(3) _ l, unfolded f, simplified]
  show "addrs s' = addrs s"
    by (rule w)
  show "net_ok s' L"
    using g w sl f(3) by (intro net_ok_intro [OF ok m f(4,5)]) simp_all
qed

lemma step_store:
  assumes ok: "net_ok s L" and m: "network_mutex s = Some t" and p: "pos s t = AddStore e r"
    and n: "add_next q t (AddStore e r) s = Some s'"
  shows "net_ok s' L" "addrs s' = addrs s"
proof -
  have s': "s' = at_pos t (AddMalloc e) (s\<lparr>network := r\<rparr>)"
    using n by simp
  have b: "block_of s' = block_of s"
    using m p by (simp add: block_of_def holder_pos_def s')
  have f: "arrays s' = arrays s" "structs s' = structs s" "next_struct s' = next_struct s" "peer_count s' = peer_count s"
    by (simp_all add: s')
  note c = shared_cong [OF f b]
  show "addrs s' = addrs s"
    by (simp add: addrs_def c)
  show "net_ok s' L"
    using ok m p c f(4) by (intro net_ok_intro [OF ok m, of s' "AddMalloc e"]) (simp_all add: s' net_ok_def holder_pos_Some)
qed

lemma step_malloc:
  assumes ok: "net_ok s L" and m: "network_mutex s = Some t" and p: "pos s t = AddMalloc e"
    and n: "add_next q t (AddMalloc e) s = Some s'"
  shows "net_ok s' L" "addrs s' = addrs s"
proof -
  have g: "view s = L" "slots s = peer_count s + 1" "wf_address e" "no_match L e (length L)"
    using ok m p by (simp_all add: net_ok_def holder_pos_Some)
  have b: "block_of s = network s"
    using m p by (simp add: block_of_plain holder_pos_Some)
  obtain xs where xs: "arrays s (network s) = Some xs" "length xs = peer_count s + 1"
    using g(2) by (auto simp: slots_def b ids_at_def split: option.splits)
  have s': "s' = at_pos t (AddFill e) (s\<lparr>arrays := (arrays s)(network s := Some (xs[peer_count s := next_struct s])),
      next_struct := next_struct s + 1\<rparr>)"
    using n xs by (auto simp: with_slot_def slot_def)
  then have f: "structs s' = structs s" "next_struct s' = next_struct s + 1" "peer_count s' = peer_count s"
      "network_mutex s' = Some t" "pos s' = (pos s)(t := AddFill e)" "network s' = network s"
    using m by simp_all
  have b': "block_of s' = network s"
    by (simp add: block_of_plain holder_pos_def f)
  have at: "ids_at s (network s) = xs" "ids_at s' (network s) = xs[peer_count s := next_struct s]"
    using xs by (simp_all add: ids_at_def s')
  then have id: "ids s' = ids s" and sl: "slots s' = peer_count s' + 1"
    using xs(2) by (simp_all add: ids_def slots_def b b' f(3))
  have l: "arrays s' r \<noteq> None \<Longrightarrow> r = block_of s'" for r
    using only_block [OF ok, of r] b b' by (auto simp: s' split: if_splits)
  note w = same_list [OF ok id _ f(3) _ l, unfolded f, simplified]
  show "addrs s' = addrs s"
    by (rule w)
  have "next_struct s \<notin> set (ids s)"
    using ok by (auto simp: net_ok_parts)
  then show "net_ok s' L"
    using g w sl at xs(2) id by (intro net_ok_intro [OF ok m f(4,5)]) (simp_all add: f(2,3,6))
qed

lemma step_fill:
  assumes ok: "net_ok s L" and m: "network_mutex s = Some t" and p: "pos s t = AddFill e"
    and n: "add_next q t (AddFill e) s = Some s'"
  shows "net_ok s' L" "addrs s' = addrs s"
proof -
  let ?a = "ids_at s (network s) ! peer_count s"
  have g: "view s = L" "slots s = peer_count s + 1" "wf_address e" "no_match L e (length L)"
      "?a < next_struct s" "?a \<notin> set (ids s)"
    using ok m p by (simp_all add: net_ok_def holder_pos_Some)
  have b: "block_of s = network s"
    using m p by (simp add: block_of_plain holder_pos_Some)
  have "slot s (network s) (peer_count s) = Some ?a"
    using g(2) by (simp add: slot_ids_at slots_def b)
  then have s': "s' = at_pos t (AddCount e) (s\<lparr>structs := (structs s)(?a := e)\<rparr>)"
    using n by (simp add: with_slot_def)
  then have f: "arrays s' = arrays s" "next_struct s' = next_struct s" "peer_count s' = peer_count s"
      "network_mutex s' = Some t" "pos s' = (pos s)(t := AddCount e)" "network s' = network s" "structs s' ?a = e"
    using m by simp_all
  have b': "block_of s' = network s"
    by (simp add: block_of_plain holder_pos_def f)
  have at: "ids_at s' = ids_at s"
    by (simp add: ids_at_def f(1) fun_eq_iff)
  then have id: "ids s' = ids s" and sl: "slots s' = slots s"
    by (simp_all add: ids_def slots_def b b' f(3))
  have st: "structs s' x = structs s x" if "x \<in> set (ids s)" for x
    using that g(6) by (auto simp: s')
  have l: "arrays s' r \<noteq> None \<Longrightarrow> r = block_of s'" for r
    using only_block [OF ok, of r] b b' f(1) by simp
  note w = same_list [OF ok id st f(3) _ l, unfolded f, simplified]
  show "addrs s' = addrs s"
    by (rule w)
  show "net_ok s' L"
    using g w(1,2) sl id by (intro net_ok_intro [OF ok m f(4,5)]) (simp_all add: f(2,3,6,7) at)
qed

lemma step_count:
  assumes ok: "net_ok s L" and m: "network_mutex s = Some t" and p: "pos s t = AddCount e"
    and n: "add_next q t (AddCount e) s = Some s'"
  shows "net_ok s' L" "addrs s' = addrs s @ [(na_ip e, na_port e)]"
proof -
  let ?a = "ids_at s (network s) ! peer_count s"
  have g: "view s = L" "slots s = peer_count s + 1" "wf_address e" "no_match L e (length L)"
      "?a < next_struct s" "?a \<notin> set (ids s)" "structs s ?a = e"
    using ok m p by (simp_all add: net_ok_def holder_pos_Some)
  have b: "block_of s = network s"
    using m p by (simp add: block_of_plain holder_pos_Some)
  have s': "s' = at_pos t (AddNew e) (s\<lparr>peer_count := peer_count s + 1\<rparr>)"
    using n by simp
  then have f: "arrays s' = arrays s" "next_struct s' = next_struct s" "peer_count s' = peer_count s + 1"
      "network_mutex s' = Some t" "pos s' = (pos s)(t := AddNew e)" "structs s' = structs s"
    using m by simp_all
  have b': "block_of s' = network s"
    by (simp add: block_of_plain holder_pos_def f) (simp add: s')
  have at: "ids_at s' = ids_at s"
    by (simp add: ids_at_def f(1) fun_eq_iff)
  have "take (Suc (peer_count s)) (ids_at s (network s)) = take (peer_count s) (ids_at s (network s)) @ [?a]"
    using g(2) by (intro take_Suc_conv_app_nth) (simp add: slots_def b)
  then have id: "ids s' = ids s @ [?a]"
    by (simp add: ids_def b b' at f(3))
  have v: "view s' = L @ [e]"
    using g(1,7) by (simp add: view_def id f(6))
  then show "addrs s' = addrs s @ [(na_ip e, na_port e)]"
    using g(1) by (simp add: addrs_def)
  have a: "wf_network L" "length (ids s) = peer_count s" "distinct (ids s)" "\<forall>a\<in>set (ids s). a < next_struct s"
      "\<forall>r. arrays s r \<noteq> None \<longrightarrow> r = block_of s"
    using ok g(1) by (auto simp: net_ok_parts)
  note new = adds_new [OF a(1) g(3,4)]
  have "array_ok s'"
    using a g(5,6) adds_wf [OF a(1) g(3) new] by (simp add: array_ok_def id v f(1-3) b b')
  then show "net_ok s' L"
    using new g(2) by (intro net_ok_intro [OF ok m f(4,5)]) (simp_all add: v f(3) slots_def b b' at)
qed

section \<open>Every step of the holder\<close>

text \<open>The additions one after the other, with what each returns.\<close>

fun seq_adds :: "network_address list \<Rightarrow> (network_address \<times> int) list \<Rightarrow> network_address list option" where
  "seq_adds L [] = Some L"
| "seq_adds L ((e, r) # es) =
     (case add_peer_to_network L (na_ip e) (na_port e) (na_signature e) (na_salt e) of
        Inl _ \<Rightarrow> None
      | Inr (r', L') \<Rightarrow> if r' = r then seq_adds L' es else None)"

lemma seq_adds_append:
  "seq_adds L (es @ fs) = (case seq_adds L es of None \<Rightarrow> None | Some L' \<Rightarrow> seq_adds L' fs)"
  by (induction L es rule: seq_adds.induct) (auto split: sum.splits option.splits)

text \<open>The list after the step is the one the additions completed so far give, and the addresses only grow.\<close>

definition step_right :: "net_state \<Rightarrow> network_address list \<Rightarrow> thread \<Rightarrow> net_state \<Rightarrow> bool" where
  "step_right s L t s' \<longleftrightarrow> (\<exists>L'. seq_adds L (completes (pos s t)) = Some L' \<and> net_ok s' L') \<and> (\<exists>B. addrs s' = addrs s @ B)"

lemma step_right_same: "net_ok s' L \<Longrightarrow> addrs s' = addrs s \<Longrightarrow> completes (pos s t) = [] \<Longrightarrow> step_right s L t s'"
  by (simp add: step_right_def)

lemma step_right_move:
  assumes "net_ok s L" "network_mutex s = Some t" "\<And>e q. pos s t \<noteq> AddStore e q" "\<And>e q. p \<noteq> AddStore e q"
    "in_section p" "progress p s L (view s)" "completes (pos s t) = []"
  shows "step_right s L t (at_pos t p s)"
  using net_ok_move [OF assms(1-6)] assms(7) by (intro step_right_same) (simp_all add: addrs_def)

lemma step_right_release:
  assumes ok: "net_ok s L" and m: "network_mutex s = Some t" and p: "\<And>e q. pos s t \<noteq> AddStore e q"
    and c: "slots s = peer_count s" "seq_adds L (completes (pos s t)) = Some (view s)"
  shows "step_right s L t (at_pos t (Done r) (s\<lparr>network_mutex := None\<rparr>))"
  using net_ok_release [OF ok m p c(1), of r] c(2) by (auto simp: step_right_def addrs_def)

lemma step_scan:
  assumes ok: "net_ok s L" and m: "network_mutex s = Some t" and p: "pos s t = AddScan e i"
    and n: "add_next q t (AddScan e i) s = Some s'"
  shows "step_right s L t s'"
proof -
  have g: "view s = L" "slots s = peer_count s" "wf_address e" "i \<le> length L" "no_match L e i"
    using ok m p by (simp_all add: net_ok_def holder_pos_Some)
  have len: "length L = peer_count s"
    using ok g(1) by (auto simp: net_ok_parts view_def)
  have b: "block_of s = network s"
    using m p by (simp add: block_of_plain holder_pos_Some)
  note move = step_right_move [OF ok m, unfolded p g(1), simplified]
  show ?thesis
  proof (cases "i < peer_count s")
    case True
    note h = slot_held [OF ok b True] view_wf [OF ok True]
    have "strcmp_eq (na_ip (L ! i)) (na_ip e) = Inr (c_bytes (na_ip (L ! i)) = c_bytes (na_ip e))"
      using h g(1,3) by (intro strcmp_key) (simp_all add: wf_address_def)
    then have s': "s' = at_pos t (if peer_key (L ! i) = peer_key e then AddSignature e i else AddScan e (i + 1)) s"
      using n True h g(1) by (simp add: with_slot_def same_ip_def peer_key_def)
    show ?thesis
    proof (cases "peer_key (L ! i) = peer_key e")
      case True
      then have "first_match L e i"
        using h g by (simp add: first_match_def)
      then show ?thesis
        using s' True g by (simp add: move)
    next
      case False
      then have "no_match L e (i + 1)"
        using g(5) by (auto simp: no_match_def less_Suc_eq)
      then show ?thesis
        using s' False g h by (simp add: move)
    qed
  next
    case False
    then have "s' = at_pos t (AddRealloc e) s" "i = length L"
      using n g(4) len by simp_all
    then show ?thesis
      using g by (simp add: move)
  qed
qed

lemma step_row:
  assumes ok: "net_ok s L" and m: "network_mutex s = Some t" and p: "pos s t = PrintRow k i rows"
    and n: "print_next t (PrintRow k i rows) s = Some s'"
  shows "step_right s L t s'"
proof -
  have g: "view s = L" "slots s = peer_count s" "k = length L" "i \<le> length L" "rows = map peer_key (take i L)"
    using ok m p by (simp_all add: net_ok_def holder_pos_Some)
  have len: "length L = peer_count s"
    using ok g(1) by (auto simp: net_ok_parts view_def)
  have b: "block_of s = network s"
    using m p by (simp add: block_of_plain holder_pos_Some)
  note move = step_right_move [OF ok m, unfolded p g(1), simplified]
  show ?thesis
  proof (cases "i < peer_count s")
    case True
    note h = slot_held [OF ok b True]
    have s': "s' = at_pos t (PrintRow k (i + 1) (rows @ [peer_key (L ! i)])) s"
      using n True h g(1) by (simp add: with_slot_def peer_key_def)
    have "rows @ [peer_key (L ! i)] = map peer_key (take (i + 1) L)"
      using g(5) True len by (simp add: take_Suc_conv_app_nth)
    then show ?thesis
      using s' g True len by (simp add: move)
  next
    case False
    then have "s' = at_pos t (PrintUnlock k rows) s" "i = length L"
      using n g(4) len by simp_all
    then show ?thesis
      using g by (simp add: move)
  qed
qed

lemma net_next_add: "add_next q t (pos s t) s = Some s' \<Longrightarrow> net_next q t s = Some s'"
  by (simp add: net_next_def Let_def)

lemma holder_step:
  assumes ok: "net_ok s L" and m: "network_mutex s = Some t" and n: "net_next q t s = Some s'"
  shows "step_right s L t s'"
proof -
  have sec: "in_section (pos s t)"
    using ok m by (simp add: net_ok_def lock_ok_def)
  have g: "progress (pos s t) s L (view s)"
    using ok m by (simp add: net_ok_def holder_pos_Some)
  show ?thesis
  proof (cases "pos s t")
    case (AddScan e i)
    then show ?thesis
      using n by (intro step_scan [OF ok m AddScan, of q]) (simp add: net_next_def)
  next
    case (AddSignature e i)
    then show ?thesis
      using step_signature [OF ok m AddSignature, of q s'] n by (intro step_right_same) (simp_all add: net_next_def)
  next
    case (AddSalt e i)
    then show ?thesis
      using step_salt [OF ok m AddSalt, of q s'] n by (intro step_right_same) (simp_all add: net_next_def)
  next
    case (AddKnown e)
    then show ?thesis
      using step_right_release [OF ok m] n g by (auto simp: net_next_def adds_def)
  next
    case (AddRealloc e)
    then show ?thesis
      using step_realloc [OF ok m AddRealloc, of q s'] n
      by (intro step_right_same) (simp_all add: net_next_def split: if_splits)
  next
    case (AddStore e r)
    then show ?thesis
      using step_store [OF ok m AddStore, of q s'] n by (intro step_right_same) (simp_all add: net_next_def)
  next
    case (AddMalloc e)
    then show ?thesis
      using step_malloc [OF ok m AddMalloc, of q s'] n by (intro step_right_same) (simp_all add: net_next_def)
  next
    case (AddFill e)
    then show ?thesis
      using step_fill [OF ok m AddFill, of q s'] n by (intro step_right_same) (simp_all add: net_next_def)
  next
    case (AddCount e)
    then show ?thesis
      using step_count [OF ok m AddCount, of q s'] n by (auto simp: step_right_def net_next_def)
  next
    case (AddNew e)
    then show ?thesis
      using step_right_release [OF ok m] n g by (auto simp: net_next_def adds_def)
  next
    case PrintHead
    moreover have "peer_count s = length L"
      using ok g PrintHead by (auto simp: net_ok_parts view_def)
    ultimately show ?thesis
      using step_right_move [OF ok m, of "PrintRow (peer_count s) 0 []"] n g by (simp add: net_next_def)
  next
    case (PrintRow k i rows)
    then show ?thesis
      using n by (intro step_row [OF ok m PrintRow]) (simp add: net_next_def)
  next
    case (PrintUnlock k rows)
    then show ?thesis
      using step_right_release [OF ok m] n g by (auto simp: net_next_def)
  qed (use sec in simp_all)
qed

end
