(* ===== verification/Peer_Readers.thy ===== *)
theory Peer_Readers
  imports Peer_Lock
begin

text \<open>
  The threads that read the list of peers without the lock, and the properties of all runs: what the
  readers know stays true while the list grows, so their results are right, but the array they have
  loaded may be freed under them.
\<close>

section \<open>The threads outside the section\<close>

text \<open>
  What a thread that does not hold the lock knows of the addresses \<open>A\<close> in the list. It stays true
  when the list grows.
\<close>

definition hit :: "(bytes \<times> u32) list \<Rightarrow> bytes \<Rightarrow> u32 \<Rightarrow> nat \<Rightarrow> bool" where
  "hit A ip port j \<longleftrightarrow> c_bytes (fst (A ! j)) = c_bytes ip \<and> snd (A ! j) = port"

definition searched :: "(bytes \<times> u32) list \<Rightarrow> bytes \<Rightarrow> u32 \<Rightarrow> nat \<Rightarrow> bool" where
  "searched A ip port i \<longleftrightarrow> length ip = 16 \<and> i \<le> length A \<and> (\<forall>j < i. \<not> hit A ip port j)"

definition copied :: "(bytes \<times> u32) list \<Rightarrow> nat \<Rightarrow> nat \<Rightarrow> (bytes \<times> u32) list \<Rightarrow> bool" where
  "copied A n i xs \<longleftrightarrow> i \<le> n \<and> n \<le> length A \<and> map fst xs = map fst (take i A) \<and>
     (\<forall>k < i. \<exists>j. k \<le> j \<and> j < length A \<and> snd (xs ! k) = snd (A ! j))"

fun thread_ok :: "net_pos \<Rightarrow> (bytes \<times> u32) list \<Rightarrow> bool" where
  "thread_ok (AddLock e) A = wf_address e"
| "thread_ok (FindTest ip port i) A = searched A ip port i"
| "thread_ok (FindLoadIp ip port i) A = (searched A ip port i \<and> i < length A)"
| "thread_ok (FindIp ip port i p) A = (searched A ip port i \<and> i < length A)"
| "thread_ok (FindLoadPort ip port i) A = (searched A ip port i \<and> i < length A \<and> c_bytes (fst (A ! i)) = c_bytes ip)"
| "thread_ok (FindPort ip port i p) A = (searched A ip port i \<and> i < length A \<and> c_bytes (fst (A ! i)) = c_bytes ip)"
| "thread_ok (GetLoadPort i) A = (i < length A)"
| "thread_ok (GetPort i p) A = (i < length A)"
| "thread_ok (GetLoadIp i port) A = (i < length A \<and> port = snd (A ! i))"
| "thread_ok (GetIp i port p) A = (i < length A \<and> port = snd (A ! i))"
| "thread_ok (RegTest n i xs) A = copied A n i xs"
| "thread_ok (RegLoadIp n i xs) A = (copied A n i xs \<and> i < length A)"
| "thread_ok (RegIp n i xs p) A = (copied A n i xs \<and> i < length A)"
| "thread_ok (RegLoadPort n i xs ip) A = (copied A n i xs \<and> i < n \<and> ip = fst (A ! i))"
| "thread_ok (RegPort n i xs ip p j) A = (copied A n i xs \<and> i < n \<and> ip = fst (A ! i) \<and> i \<le> j \<and> j < length A)"
| "thread_ok (RegSend n xs) A = copied A n n xs"
| "thread_ok _ A = True"

lemma searched_grows: "searched A ip port i \<Longrightarrow> searched (A @ B) ip port i"
  by (auto simp: searched_def hit_def nth_append)

lemma copied_grows: "copied A n i xs \<Longrightarrow> copied (A @ B) n i xs"
  by (fastforce simp: copied_def nth_append)

lemma thread_ok_grows: "thread_ok p A \<Longrightarrow> thread_ok p (A @ B)"
  by (cases p) (auto simp: searched_grows copied_grows nth_append dest: copied_def [THEN iffD1])

lemma addrs_nth:
  assumes "net_ok s L"
  shows "length (addrs s) = peer_count s"
    "i < peer_count s \<Longrightarrow> addrs s ! i = (na_ip (view s ! i), na_port (view s ! i))"
  using assms by (auto simp: addrs_def net_ok_parts view_def)

text \<open>An access of an unlocked reader: the array it has loaded is the present one, or it faults.\<close>

fun held_array :: "net_pos \<Rightarrow> nat option" where
  "held_array (FindIp ip port i p) = Some p"
| "held_array (FindPort ip port i p) = Some p"
| "held_array (GetPort i p) = Some p"
| "held_array (GetIp i port p) = Some p"
| "held_array (RegIp n i xs p) = Some p"
| "held_array (RegPort n i xs ip p j) = Some p"
| "held_array _ = None"

lemma with_slot_read:
  assumes ok: "net_ok s L" and i: "i < length (addrs s)"
  shows "p \<noteq> block_of s \<Longrightarrow> with_slot t s p i f = at_pos t (Faulted FreedArray) s"
    "p = block_of s \<Longrightarrow> with_slot t s p i f = f (ids s ! i)"
    "(na_ip (structs s (ids s ! i)), na_port (structs s (ids s ! i))) = addrs s ! i"
    "wf_address (structs s (ids s ! i))"
proof -
  have l: "length (ids s) = peer_count s"
    using ok by (simp add: net_ok_parts)
  have i': "i < peer_count s"
    using i addrs_nth(1) [OF ok] by simp
  show "with_slot t s p i f = at_pos t (Faulted FreedArray) s" if "p \<noteq> block_of s"
  proof -
    have "arrays s p = None"
      using only_block [OF ok, of p] that by blast
    then show ?thesis
      by (simp add: with_slot_def slot_def)
  qed
  show "with_slot t s p i f = f (ids s ! i)" if "p = block_of s"
  proof -
    have "slot s p i = Some (ids s ! i)"
      using l i' that by (auto simp: slot_ids_at ids_def)
    then show ?thesis
      by (simp add: with_slot_def)
  qed
  have v: "structs s (ids s ! i) = view s ! i"
    using l i' by (simp add: view_def)
  show "(na_ip (structs s (ids s ! i)), na_port (structs s (ids s ! i))) = addrs s ! i"
    using addrs_nth(2) [OF ok i'] v by simp
  show "wf_address (structs s (ids s ! i))"
    using view_wf(1) [OF ok i'] v by simp
qed

text \<open>A result is right if it is what the list \<open>V\<close> gives.\<close>

fun result_right :: "net_result \<Rightarrow> network_address list \<Rightarrow> bool" where
  "result_right (RetAdd r) V = True"
| "result_right (RetRows n rows) V = (n = length V \<and> rows = map peer_key V)"
| "result_right (RetFind ip port r) V = (find_peer V ip port = Inr r)"
| "result_right (RetPeer i ip port) V = (i < length V \<and> na_ip (V ! i) = ip \<and> na_port (V ! i) = port)"
| "result_right (RetInvalid i) V = (i < 0 \<or> int (length V) \<le> i)"
| "result_right (RetList xs) V = (map fst xs = map na_ip V \<and>
     (\<forall>k < length V. \<exists>j. k \<le> j \<and> j < length V \<and> snd (xs ! k) = na_port (V ! j)))"

lemma find_from_none:
  "list_all wf_address V \<Longrightarrow> length ip = 16 \<Longrightarrow> (\<And>j. j < length V \<Longrightarrow> peer_key (V ! j) \<noteq> (c_bytes ip, port)) \<Longrightarrow>
   find_peer_from V k ip port = Inr (- 1)"
proof (induction V arbitrary: k)
  case (Cons p V)
  have "peer_key (V ! j) \<noteq> (c_bytes ip, port)" if "j < length V" for j
    using Cons.prems(3) [of "Suc j"] that by simp
  moreover have "peer_key p \<noteq> (c_bytes ip, port)"
    using Cons.prems(3) [of 0] by simp
  ultimately show ?case
    using Cons.IH Cons.prems(1,2) by (auto simp: strcmp_key peer_key_def)
qed simp

lemma find_from_hit:
  "list_all wf_address V \<Longrightarrow> length ip = 16 \<Longrightarrow> i < length V \<Longrightarrow> (\<And>j. j < i \<Longrightarrow> peer_key (V ! j) \<noteq> (c_bytes ip, port)) \<Longrightarrow>
   peer_key (V ! i) = (c_bytes ip, port) \<Longrightarrow> find_peer_from V k ip port = Inr (int (k + i))"
proof (induction V arbitrary: k i)
  case (Cons p V)
  show ?case
  proof (cases i)
    case 0
    then show ?thesis
      using Cons.prems by (simp add: strcmp_key peer_key_def)
  next
    case (Suc i')
    have "peer_key (V ! j) \<noteq> (c_bytes ip, port)" if "j < i'" for j
      using Cons.prems(4) [of "Suc j"] that Suc by simp
    moreover have "peer_key p \<noteq> (c_bytes ip, port)"
      using Cons.prems(4) [of 0] Suc by simp
    ultimately show ?thesis
      using Cons.IH [of i' "Suc k"] Cons.prems Suc by (auto simp: strcmp_key peer_key_def)
  qed
qed simp

lemma hit_view: "net_ok s L \<Longrightarrow> j < peer_count s \<Longrightarrow> hit (addrs s) ip port j \<longleftrightarrow> peer_key (view s ! j) = (c_bytes ip, port)"
  by (simp add: hit_def addrs_nth peer_key_def)

lemma search_found:
  assumes ok: "net_ok s L" and h: "searched (addrs s) ip port i" "i < length (addrs s)" "hit (addrs s) ip port i"
  shows "find_peer (view s) ip port = Inr (int i)"
proof -
  have i: "i < peer_count s" "i < length (view s)"
    using h(2) addrs_nth(1) [OF ok] view_wf(2) [OF ok] by simp_all
  have "list_all wf_address (view s)"
    using ok by (simp add: net_ok_parts wf_network_def)
  moreover have "peer_key (view s ! j) \<noteq> (c_bytes ip, port)" if "j < i" for j
    using h(1) hit_view [OF ok, of j ip port] that i by (simp add: searched_def)
  ultimately show ?thesis
    using find_from_hit [of "view s" ip i port 0] h(1,3) hit_view [OF ok i(1)] i by (simp add: find_peer_def searched_def)
qed

lemma search_ended:
  assumes ok: "net_ok s L" and h: "searched (addrs s) ip port i" "peer_count s \<le> i"
  shows "find_peer (view s) ip port = Inr (- 1)"
proof -
  have l: "length (view s) = peer_count s"
    using ok by (simp add: net_ok_parts view_def)
  have "list_all wf_address (view s)"
    using ok by (simp add: net_ok_parts wf_network_def)
  moreover have "peer_key (view s ! j) \<noteq> (c_bytes ip, port)" if "j < length (view s)" for j
    using h hit_view [OF ok, of j ip port] that l by (simp add: searched_def)
  ultimately show ?thesis
    using find_from_none [of "view s" ip port 0] h(1) by (simp add: find_peer_def searched_def)
qed

text \<open>One step of an unlocked reader.\<close>

definition faults :: "net_pos \<Rightarrow> net_state \<Rightarrow> net_fault \<Rightarrow> bool" where
  "faults p s f \<longleftrightarrow>
     (case f of FreedArray \<Rightarrow> (\<exists>q. held_array p = Some q \<and> q \<noteq> block_of s)
      | PastTheEnd \<Rightarrow> (\<exists>n i xs. p = RegIp n i xs (block_of s) \<and> n \<le> i) \<or> (\<exists>n xs. p = RegSend n xs \<and> n < peer_count s))"

definition reader_right :: "net_state \<Rightarrow> thread \<Rightarrow> net_pos \<Rightarrow> bool" where
  "reader_right s t p \<longleftrightarrow> \<not> in_section p \<and> thread_ok p (addrs s) \<and>
     (\<forall>f. p = Faulted f \<longleftrightarrow> faults (pos s t) s f) \<and> (\<forall>r. p = Done r \<longrightarrow> result_right r (view s))"

lemma reader_right_iff:
  "reader_right s t p \<longleftrightarrow> \<not> in_section p \<and> thread_ok p (addrs s) \<and>
     (p = Faulted FreedArray \<longleftrightarrow> faults (pos s t) s FreedArray) \<and> (p = Faulted PastTheEnd \<longleftrightarrow> faults (pos s t) s PastTheEnd) \<and>
     (\<forall>r. p = Done r \<longrightarrow> result_right r (view s))"
  by (auto simp: reader_right_def) (metis net_fault.exhaust)+

lemmas reader_right_simps = reader_right_iff faults_def

definition reader_moves :: "net_state \<Rightarrow> thread \<Rightarrow> net_state \<Rightarrow> bool" where
  "reader_moves s t s' \<longleftrightarrow> s' = at_pos t (pos s' t) s \<and> reader_right s t (pos s' t)"

lemma reader_moves_at [simp]: "reader_moves s t (at_pos t p s) = reader_right s t p"
  by (simp add: reader_moves_def)

lemma reader_right_fault:
  assumes "held_array (pos s t) = Some q" "q \<noteq> block_of s"
  shows "reader_right s t (Faulted FreedArray)"
  using assms by (auto simp: reader_right_simps)

lemma searched_next: "searched A ip port i \<Longrightarrow> i < length A \<Longrightarrow> \<not> hit A ip port i \<Longrightarrow> searched A ip port (i + 1)"
  by (auto simp: searched_def less_Suc_eq)

lemma find_step:
  assumes ok: "net_ok s L" and th: "thread_ok (pos s t) (addrs s)" and n: "find_next t (pos s t) s = Some s'"
  shows "reader_moves s t s'"
proof -
  note len = addrs_nth(1) [OF ok]
  show ?thesis
  proof (cases "pos s t")
    case (FindTest ip port i)
    then show ?thesis
      using n th len search_ended [OF ok, of ip port i] by (auto simp: reader_right_simps)
  next
    case (FindLoadIp ip port i)
    then show ?thesis
      using n th by (auto simp: reader_right_simps)
  next
    case (FindIp ip port i p)
    with th have g: "searched (addrs s) ip port i" "i < length (addrs s)"
      by simp_all
    note w = with_slot_read [OF ok g(2)]
    show ?thesis
    proof (cases "p = block_of s")
      case True
      have "strcmp_eq (na_ip (structs s (ids s ! i))) ip = Inr (c_bytes (fst (addrs s ! i)) = c_bytes ip)"
        using strcmp_key [OF w(4), of ip] g(1) w(3) by (metis fst_conv searched_def)
      then have "s' = at_pos t (if c_bytes (fst (addrs s ! i)) = c_bytes ip then FindLoadPort ip port i else FindTest ip port (i + 1)) s"
        using n FindIp w(2) [OF True] by (simp add: same_ip_def)
      then show ?thesis
        using FindIp g True searched_next [OF g] by (auto simp: reader_right_simps hit_def)
    next
      case False
      then show ?thesis
        using n FindIp w(1) reader_right_fault [of s t p] by auto
    qed
  next
    case (FindLoadPort ip port i)
    then show ?thesis
      using n th by (auto simp: reader_right_simps)
  next
    case (FindPort ip port i p)
    with th have g: "searched (addrs s) ip port i" "i < length (addrs s)" "c_bytes (fst (addrs s ! i)) = c_bytes ip"
      by simp_all
    note w = with_slot_read [OF ok g(2)]
    show ?thesis
    proof (cases "p = block_of s")
      case True
      have "na_port (structs s (ids s ! i)) = snd (addrs s ! i)"
        using w(3) by (metis snd_conv)
      then have "s' = at_pos t (if snd (addrs s ! i) = port then Done (RetFind ip port (int i)) else FindTest ip port (i + 1)) s"
        using n FindPort w(2) [OF True] by simp
      then show ?thesis
        using FindPort g True searched_next [OF g(1,2)] search_found [OF ok g(1,2)]
        by (auto simp: reader_right_simps hit_def)
    next
      case False
      then show ?thesis
        using n FindPort w(1) reader_right_fault [of s t p] by auto
    qed
  qed (use n in simp_all)
qed

lemma get_step:
  assumes ok: "net_ok s L" and th: "thread_ok (pos s t) (addrs s)" and n: "get_next t (pos s t) s = Some s'"
  shows "reader_moves s t s'"
proof -
  note len = addrs_nth(1) [OF ok]
  show ?thesis
  proof (cases "pos s t")
    case (GetTest i)
    moreover have "length (view s) = peer_count s"
      using len by (simp add: addrs_def)
    ultimately show ?thesis
      using n th len by (auto simp: reader_right_simps)
  next
    case (GetLoadPort i)
    then show ?thesis
      using n th by (auto simp: reader_right_simps)
  next
    case (GetPort i p)
    with th have g: "i < length (addrs s)"
      by simp
    note w = with_slot_read [OF ok g]
    show ?thesis
    proof (cases "p = block_of s")
      case True
      have "na_port (structs s (ids s ! i)) = snd (addrs s ! i)"
        using w(3) by (metis snd_conv)
      then show ?thesis
        using n GetPort g w(2) True by (auto simp: reader_right_simps)
    next
      case False
      then show ?thesis
        using n GetPort w(1) reader_right_fault [of s t p] by auto
    qed
  next
    case (GetLoadIp i port)
    then show ?thesis
      using n th by (auto simp: reader_right_simps)
  next
    case (GetIp i port p)
    with th have g: "i < length (addrs s)" "port = snd (addrs s ! i)"
      by simp_all
    note w = with_slot_read [OF ok g(1)]
    show ?thesis
    proof (cases "p = block_of s")
      case True
      have "result_right (RetPeer i (na_ip (structs s (ids s ! i))) port) (view s)"
        using w(3) g len addrs_nth(2) [OF ok, of i] by (simp add: addrs_def)
      then show ?thesis
        using n GetIp g w(2) True by (auto simp: reader_right_simps)
    next
      case False
      then show ?thesis
        using n GetIp w(1) reader_right_fault [of s t p] by auto
    qed
  qed (use n in simp_all)
qed

lemma copied_next:
  assumes c: "copied A n i xs" and i: "i < n" and j: "i \<le> j" "j < length A"
  shows "copied A n (i + 1) (xs @ [(fst (A ! i), snd (A ! j))])"
proof -
  have l: "length xs = i"
    using c by (auto simp: copied_def dest: arg_cong [of _ _ length])
  have "\<exists>j'. k \<le> j' \<and> j' < length A \<and> snd ((xs @ [(fst (A ! i), snd (A ! j))]) ! k) = snd (A ! j')" if "k < i + 1" for k
    using that c j l by (cases "k < i") (auto simp: copied_def nth_append less_Suc_eq)
  then show ?thesis
    using c i j by (auto simp: copied_def take_Suc_conv_app_nth)
qed

lemma copied_all:
  assumes c: "copied (addrs s) n i xs" and i: "length (addrs s) \<le> i"
  shows "result_right (RetList xs) (view s)"
proof -
  have l: "length (addrs s) = length (view s)" "map fst (addrs s) = map na_ip (view s)"
    by (simp_all add: addrs_def)
  have "map fst xs = map na_ip (view s)"
    using c i l by (simp add: copied_def)
  moreover have "\<exists>j. k \<le> j \<and> j < length (view s) \<and> snd (xs ! k) = na_port (view s ! j)" if "k < length (view s)" for k
  proof -
    have "k < i"
      using that i l by simp
    then obtain j where "k \<le> j" "j < length (addrs s)" "snd (xs ! k) = snd (addrs s ! j)"
      using c unfolding copied_def by blast
    then show ?thesis
      using l by (intro exI [of _ j]) (simp add: addrs_def)
  qed
  ultimately show ?thesis
    by simp
qed

lemma reg_step:
  assumes ok: "net_ok s L" and th: "thread_ok (pos s t) (addrs s)" and n: "reg_next t (pos s t) s = Some s'"
  shows "reader_moves s t s'"
proof -
  note len = addrs_nth(1) [OF ok]
  show ?thesis
  proof (cases "pos s t")
    case RegSize
    then show ?thesis
      using n len by (auto simp: reader_right_simps copied_def)
  next
    case (RegTest k i xs)
    moreover have "i = k" if "copied (addrs s) k i xs" "\<not> i < peer_count s"
      using that len by (simp add: copied_def)
    ultimately show ?thesis
      using n th len by (auto simp: reader_right_simps)
  next
    case (RegLoadIp k i xs)
    then show ?thesis
      using n th by (auto simp: reader_right_simps)
  next
    case (RegIp k i xs p)
    with th have g: "copied (addrs s) k i xs" "i < length (addrs s)"
      by simp_all
    note w = with_slot_read [OF ok g(2)]
    show ?thesis
    proof (cases "p = block_of s")
      case True
      have "na_ip (structs s (ids s ! i)) = fst (addrs s ! i)"
        using w(3) by (metis fst_conv)
      then show ?thesis
        using n RegIp g w(2) True by (auto simp: reader_right_simps)
    next
      case False
      then show ?thesis
        using n RegIp w(1) reader_right_fault [of s t p] by auto
    qed
  next
    case (RegLoadPort k i xs ip)
    with th have "copied (addrs s) k i xs" "i < k" "ip = fst (addrs s ! i)"
      by simp_all
    moreover from this have "i \<le> peer_count s - 1" "peer_count s - 1 < length (addrs s)"
      using len by (auto simp: copied_def)
    ultimately show ?thesis
      using n RegLoadPort by (auto simp: reader_right_simps)
  next
    case (RegPort k i xs ip p j)
    with th have g: "copied (addrs s) k i xs" "i < k" "i \<le> j" "j < length (addrs s)" "ip = fst (addrs s ! i)"
      by simp_all
    note w = with_slot_read [OF ok g(4)]
    show ?thesis
    proof (cases "p = block_of s")
      case True
      have "na_port (structs s (ids s ! j)) = snd (addrs s ! j)"
        using w(3) by (metis snd_conv)
      then show ?thesis
        using n RegPort g(5) copied_next [OF g(1-4)] w(2) True
        by (auto simp: reader_right_simps)
    next
      case False
      then show ?thesis
        using n RegPort w(1) reader_right_fault [of s t p] by auto
    qed
  next
    case (RegSend k xs)
    then show ?thesis
      using n th len copied_all [of s k k xs] by (auto simp: reader_right_simps)
  qed (use n in simp_all)
qed

section \<open>Runs\<close>

definition net_inv :: "net_state \<Rightarrow> network_address list \<Rightarrow> bool" where
  "net_inv s L \<longleftrightarrow> net_ok s L \<and> (\<forall>t. thread_ok (pos s t) (addrs s))"

lemma net_inv_init: "net_inv net_init []"
  by (simp add: net_inv_def net_ok_parts lock_ok_def net_init_def holder_pos_def block_of_def ids_def ids_at_def view_def slots_def
      wf_network_def)

lemma net_inv_call:
  assumes inv: "net_inv s L" and r: "at_rest (pos s t)" and c: "is_call p"
  shows "net_inv (at_pos t p s) L"
proof -
  have ok: "net_ok s L"
    using inv by (simp add: net_inv_def)
  then have "network_mutex s \<noteq> Some t"
    using r by (cases "pos s t") (auto simp: net_ok_def lock_ok_def dest: spec [of _ t])
  moreover have "\<not> in_section p" "thread_ok p (addrs s)"
    using c by (cases p; auto simp: searched_def)+
  ultimately show ?thesis
    using inv net_ok_local [OF ok, of t p] by (simp add: net_inv_def addrs_def)
qed

lemma thread_ok_section: "in_section p \<Longrightarrow> thread_ok p A"
  by (cases p) simp_all

text \<open>The holder keeps the lock until it has a result.\<close>

lemma holder_keeps:
  assumes ok: "net_ok s L" and m: "network_mutex s = Some t" and n: "net_next q t s = Some s'"
  shows "network_mutex s' = Some t \<or> network_mutex s' = None \<and> (\<exists>r. pos s' t = Done r \<and> result_right r (view s))"
proof -
  have "in_section (pos s t)" and g: "progress (pos s t) s L (view s)"
    using ok m by (simp_all add: net_ok_def lock_ok_def holder_pos_Some)
  then show ?thesis
    using m n
    by (cases "pos s t")
      (auto simp: net_next_def with_slot_def same_ip_def moved_to_def Let_def split: if_splits option.splits sum.splits)
qed

text \<open>The other threads stay where they are.\<close>

lemma pos_other:
  assumes "net_next q t s = Some s'" "u \<noteq> t"
  shows "pos s' u = pos s u"
  using assms
  by (cases "pos s t")
    (auto simp: net_next_def with_slot_def same_ip_def moved_to_def Let_def split: if_splits option.splits sum.splits)

lemma reader_next:
  assumes "\<not> in_section (pos s t)" "pos s t \<noteq> PrintLock" "\<And>e. pos s t \<noteq> AddLock e" "net_next q t s = Some s'"
  shows "find_next t (pos s t) s = Some s' \<or> get_next t (pos s t) s = Some s' \<or> reg_next t (pos s t) s = Some s'"
    "completes (pos s t) = []"
  using assms by (cases "pos s t"; simp add: net_next_def)+

lemma step_cases:
  assumes inv: "net_inv s L" and n: "net_next q t s = Some s'"
  obtains (holder) "network_mutex s = Some t" "step_right s L t s'"
  | (lock) p where "network_mutex s = None" "\<not> in_section (pos s t)" "in_section p" "pos s t = PrintLock \<or> (\<exists>e. pos s t = AddLock e)"
      "s' = at_pos t p (s\<lparr>network_mutex := Some t\<rparr>)" "net_ok s' L" "view s' = view s"
  | (reader) "network_mutex s \<noteq> Some t" "reader_moves s t s'" "completes (pos s t) = []"
proof -
  have ok: "net_ok s L" and th: "thread_ok (pos s t) (addrs s)"
    using inv by (simp_all add: net_inv_def)
  have sec: "in_section (pos s t) \<longleftrightarrow> network_mutex s = Some t"
    using ok by (simp add: net_ok_def lock_ok_def)
  show thesis
  proof (cases "network_mutex s = Some t")
    case True
    then show thesis
      using holder [OF True holder_step [OF ok True n]] by blast
  next
    case False
    consider (AddLock) e where "pos s t = AddLock e" | (PrintLock) "pos s t = PrintLock"
      | (neither) "pos s t \<noteq> PrintLock" "\<And>e. pos s t \<noteq> AddLock e"
      by blast
    then show thesis
    proof cases
      case (AddLock e)
      then have m: "network_mutex s = None" and s': "s' = at_pos t (AddScan e 0) (s\<lparr>network_mutex := Some t\<rparr>)"
        using n by (auto simp: net_next_def split: if_splits)
      have "progress (AddScan e 0) s L (view s)"
        using ok th AddLock m by (simp add: net_ok_def holder_pos_None no_match_def)
      then show thesis
        using net_ok_acquire [OF ok m, of "AddScan e 0" t] m s' AddLock by (intro lock [of "AddScan e 0"]) simp_all
    next
      case PrintLock
      then have m: "network_mutex s = None" and s': "s' = at_pos t PrintHead (s\<lparr>network_mutex := Some t\<rparr>)"
        using n by (auto simp: net_next_def split: if_splits)
      have "progress PrintHead s L (view s)"
        using ok m by (simp add: net_ok_def holder_pos_None)
      then show thesis
        using net_ok_acquire [OF ok m, of PrintHead t] m s' PrintLock by (intro lock [of PrintHead]) simp_all
    next
      case neither
      note nx = reader_next [OF _ neither n]
      have "reader_moves s t s'"
        using nx(1) False sec find_step [OF ok th] get_step [OF ok th] reg_step [OF ok th] by blast
      then show thesis
        using reader [OF False] nx(2) False sec by blast
    qed
  qed
qed

lemma net_inv_step:
  assumes inv: "net_inv s L" and n: "net_next q t s = Some s'"
  shows "\<exists>L'. seq_adds L (completes (pos s t)) = Some L' \<and> net_inv s' L'"
proof -
  have ok: "net_ok s L" and th: "\<And>u. thread_ok (pos s u) (addrs s)"
    using inv by (simp_all add: net_inv_def)
  note others = pos_other [OF n]
  show ?thesis
    using inv n
  proof (cases rule: step_cases)
    case holder
    then obtain L' B where L': "seq_adds L (completes (pos s t)) = Some L'" "net_ok s' L'" "addrs s' = addrs s @ B"
      by (auto simp: step_right_def)
    have "thread_ok (pos s' t) (addrs s')"
      using holder_keeps [OF ok holder(1) n] L'(2) by (auto simp: net_ok_def lock_ok_def intro: thread_ok_section)
    moreover have "thread_ok (pos s' u) (addrs s')" if "u \<noteq> t" for u
      using th [of u] others [OF that] L'(3) by (simp add: thread_ok_grows)
    ultimately have "thread_ok (pos s' u) (addrs s')" for u
      by (cases "u = t") simp_all
    then show ?thesis
      using L'(1,2) by (simp add: net_inv_def)
  next
    case (lock p)
    have "thread_ok (pos s' u) (addrs s')" for u
      using th [of u] lock by (auto simp: addrs_def thread_ok_section)
    moreover have "completes (pos s t) = []"
      using lock(4) by auto
    ultimately show ?thesis
      using lock(6) by (simp add: net_inv_def)
  next
    case reader
    then have s': "s' = at_pos t (pos s' t) s" and p: "\<not> in_section (pos s' t)" "thread_ok (pos s' t) (addrs s)"
      by (simp_all add: reader_moves_def reader_right_def)
    have "net_ok s' L" "addrs s' = addrs s"
      using net_ok_local [OF ok reader(1) p(1)] s' by (simp_all add: addrs_def)
    moreover have "thread_ok (pos s' u) (addrs s)" for u
      using p(2) th [of u] others [of u] by (cases "u = t") simp_all
    ultimately show ?thesis
      using reader(3) by (simp add: net_inv_def)
  qed
qed

lemma run_inv:
  assumes "net_run net_init es s"
  shows "\<exists>L. seq_adds [] es = Some L \<and> net_inv s L"
  using assms
proof (induction net_init es s rule: net_run.induct)
  case net_start
  then show ?case
    by (simp add: net_inv_init)
next
  case (net_call es s t p)
  then show ?case
    using net_inv_call by blast
next
  case (net_step es s q t s')
  then show ?case
    using net_inv_step by (fastforce simp: seq_adds_append)
qed

text \<open>The steps the holder has left.\<close>

fun section_left :: "net_pos \<Rightarrow> nat \<Rightarrow> nat" where
  "section_left (AddScan e i) n = (n - i) + 7"
| "section_left (AddSignature e i) n = 3"
| "section_left (AddSalt e i) n = 2"
| "section_left (AddKnown e) n = 1"
| "section_left (AddRealloc e) n = 6"
| "section_left (AddStore e q) n = 5"
| "section_left (AddMalloc e) n = 4"
| "section_left (AddFill e) n = 3"
| "section_left (AddCount e) n = 2"
| "section_left (AddNew e) n = 1"
| "section_left PrintHead n = n + 3"
| "section_left (PrintRow k i rows) n = (n - i) + 2"
| "section_left (PrintUnlock k rows) n = 1"
| "section_left _ n = 0"

lemma section_left_bound: "section_left p n \<le> n + 7"
  by (cases p) simp_all

lemma section_left_step:
  assumes m: "in_section (pos s t)" and n: "net_next q t s = Some s'"
  shows "section_left (pos s' t) (peer_count s') < section_left (pos s t) (peer_count s)"
  using assms
  by (cases "pos s t")
    (auto simp: net_next_def with_slot_def same_ip_def moved_to_def Let_def split: if_splits option.splits sum.splits)

lemma holder_can_step:
  assumes ok: "net_ok s L" and m: "network_mutex s = Some t"
  shows "\<exists>q s'. net_next q t s = Some s'"
proof -
  have sec: "in_section (pos s t)"
    using ok m by (simp add: net_ok_def lock_ok_def)
  show ?thesis
  proof (cases "\<exists>e. pos s t = AddRealloc e")
    case True
    then obtain e where e: "pos s t = AddRealloc e"
      by blast
    then have b: "block_of s = network s"
      using m by (simp add: block_of_plain holder_pos_Some)
    let ?q = "if network s = 0 then 1 else network s"
    have "?q = network s \<or> arrays s ?q = None"
      using only_block [OF ok, of ?q] b by metis
    then show ?thesis
      using e by (intro exI [of _ ?q]) (auto simp: net_next_def)
  next
    case False
    then show ?thesis
      using sec by (cases "pos s t") (auto simp: net_next_def)
  qed
qed

text \<open>While a thread holds the lock the others change neither the count nor the lock.\<close>

lemma other_step:
  assumes inv: "net_inv s L" and m: "network_mutex s = Some t" and u: "u \<noteq> t" and n: "net_next q u s = Some s'"
  shows "network_mutex s' = Some t" "pos s' t = pos s t" "peer_count s' = peer_count s"
proof -
  show "pos s' t = pos s t"
    using pos_other [OF n] u by simp
  have "reader_moves s u s'"
    using inv n by (cases rule: step_cases) (use m u in auto)
  then have "s' = at_pos u (pos s' u) s"
    by (simp add: reader_moves_def)
  then have "network_mutex s' = network_mutex s" "peer_count s' = peer_count s"
    by (metis at_pos_sel(6), metis at_pos_sel(5))
  then show "network_mutex s' = Some t" "peer_count s' = peer_count s"
    using m by simp_all
qed

lemma lock_back:
  assumes "net_inv s L" "network_mutex s = Some t" "play ms (es, s) = Some (es', s')"
    "section_left (pos s t) (peer_count s) \<le> steps_of t ms"
  shows "\<exists>ms1 ms2 es1 s1. ms = ms1 @ ms2 \<and> play ms1 (es, s) = Some (es1, s1) \<and> network_mutex s1 = None"
  using assms
proof (induction ms arbitrary: es s L)
  case Nil
  then have "in_section (pos s t)"
    by (simp add: net_inv_def net_ok_def lock_ok_def)
  with Nil(4) show ?case
    by (cases "pos s t") simp_all
next
  case (Cons m ms)
  note inv = Cons.prems(1) and mx = Cons.prems(2)
  have sec: "in_section (pos s t)" and ok: "net_ok s L"
    using inv mx by (simp_all add: net_inv_def net_ok_def lock_ok_def)
  have later: ?case if "play [m] (es, s) = Some (es1, s1)" "\<exists>ms1 ms2 es2 s2. ms = ms1 @ ms2 \<and> play ms1 (es1, s1) = Some (es2, s2) \<and> network_mutex s2 = None" for es1 s1
    using that play_Cons [of m] by (metis append_Cons option.simps(5))
  show ?case
  proof (cases m)
    case (Call u p)
    then have c: "at_rest (pos s u)" "is_call p" "play ms (es, at_pos u p s) = Some (es', s')"
      using Cons.prems(3) by (simp_all split: if_splits)
    then have "u \<noteq> t"
      using sec by (cases "pos s u") auto
    then show ?thesis
      using Cons.IH [OF net_inv_call [OF inv c(1,2)] _ c(3)] Cons.prems(4) mx Call c by (intro later) simp_all
  next
    case (Step u q)
    then obtain s1 where s1: "net_next q u s = Some s1" "play ms (es @ completes (pos s u), s1) = Some (es', s')"
      using Cons.prems(3) by (auto split: option.splits)
    then have p1: "play [m] (es, s) = Some (es @ completes (pos s u), s1)"
      using Step by simp
    obtain L1 where inv1: "net_inv s1 L1"
      using net_inv_step [OF inv s1(1)] by blast
    show ?thesis
    proof (cases "network_mutex s1 = Some t")
      case True
      have "section_left (pos s1 t) (peer_count s1) \<le> steps_of t ms"
        using other_step [OF inv mx _ s1(1)] section_left_step [OF sec, of q s1] s1(1) Cons.prems(4) Step
        by (cases "u = t") auto
      then show ?thesis
        using Cons.IH [OF inv1 True s1(2)] p1 by (intro later) simp_all
    next
      case False
      then have "network_mutex s1 = None"
        using other_step(1) [OF inv mx _ s1(1)] holder_keeps [OF ok mx, of q s1] s1(1) by (cases "u = t") auto
      then have "ms = [] @ ms \<and> play [] (es @ completes (pos s u), s1) = Some (es @ completes (pos s u), s1) \<and>
          network_mutex s1 = None"
        by simp
      then show ?thesis
        using later [OF p1] by blast
    qed
  qed
qed

section \<open>Properties\<close>

definition some_peer :: "8 word \<Rightarrow> network_address" where
  "some_peer b = \<lparr>na_ip = b # replicate 15 0, na_port = 5000, na_salt = replicate 16 65, na_signature = replicate 32 7\<rparr>"

definition two_adders :: "net_move list" where
  "two_adders = [Call 0 (AddLock (some_peer 49)), Call 1 (AddLock (some_peer 50))] @ replicate 8 (Step 1 3) @
     replicate 9 (Step 0 3) @ [Call 1 (AddLock (some_peer 50))] @ replicate 5 (Step 1 3)"

text \<open>
  C9: The additions of peers are atomic, whatever the threads do. In every state that calls and
  steps of any threads reach from the start, the additions that have returned have had the results
  that the same calls have one after the other, in the order in which they gave back the lock, and
  when no thread is in an addition the list in memory is the one they give. The list in memory
  always holds each address and port once, and a thread is between taking and giving back the lock
  exactly if \<open>network_mutex\<close> belongs to it.
\<close>

theorem peer_list_linearizable:
  assumes "net_run net_init es s"
  shows "\<exists>L. seq_adds [] es = Some L \<and> (network_mutex s = None \<longrightarrow> view s = L) \<and> wf_network (view s) \<and>
     (\<forall>t. in_section (pos s t) \<longleftrightarrow> network_mutex s = Some t)"
proof -
  obtain L where L: "seq_adds [] es = Some L" "net_inv s L"
    using run_inv [OF assms] by blast
  then have "lock_ok s" "wf_network (view s)" "network_mutex s = None \<longrightarrow> view s = L"
    by (auto simp: net_inv_def net_ok_parts holder_pos_None)
  with L(1) show ?thesis
    by (auto simp: lock_ok_def)
qed

theorem peer_list_linearizable_witness:
  "\<exists>es s. play two_adders ([], net_init) = Some (es, s) \<and> map snd es = [1, 1, 0] \<and>
     seq_adds [] es = Some (view s)"
proof -
  have "map_option (\<lambda>(es, s). (map snd es, network_mutex s)) (play two_adders ([], net_init)) = Some ([1, 1, 0], None)"
    by code_simp
  then obtain es s where p: "play two_adders ([], net_init) = Some (es, s)" "map snd es = [1, 1, 0]" "network_mutex s = None"
    by auto
  show ?thesis
    using peer_list_linearizable [OF play_run [OF p(1) net_start]] p by auto
qed

text \<open>
  C10: What a call returns is right for the list at the moment of its last step, for the callers that
  take no lock too. A search that returns gives the index that \<open>find_peer\<close> gives on the list in
  memory then; a chosen peer has the port and the address of one entry; \<open>print_network\<close> prints the
  whole list; \<open>register_peer\<close> copies every address, with the port of the same or a later entry.
\<close>

theorem thread_results_right:
  assumes "net_run net_init es s" "net_next q t s = Some s'" "pos s' t = Done r"
  shows "result_right r (view s)"
proof -
  obtain L where inv: "net_inv s L"
    using run_inv [OF assms(1)] by blast
  then have ok: "net_ok s L"
    by (simp add: net_inv_def)
  show ?thesis
    using inv assms(2)
  proof (cases rule: step_cases)
    case holder
    then have "network_mutex s' \<noteq> Some t"
      using assms(3) by (auto simp: step_right_def net_ok_def lock_ok_def dest: spec [of _ t])
    then show ?thesis
      using holder_keeps [OF ok holder(1) assms(2)] assms(3) by simp
  next
    case (lock p)
    then show ?thesis
      using assms(3) by (cases p) simp_all
  next
    case reader
    then show ?thesis
      using assms(3) by (simp add: reader_moves_def reader_right_def)
  qed
qed

definition add_and_find :: "net_move list" where
  "add_and_find = [Call 0 (AddLock (some_peer 49))] @ replicate 8 (Step 0 3) @
     [Call 1 (FindTest (na_ip (some_peer 49)) 5000 0), Step 1 0, Step 1 0, Step 1 0, Step 1 0]"

theorem thread_results_right_witness:
  "\<exists>es s. play add_and_find ([], net_init) = Some (es, s) \<and> find_peer (view s) (na_ip (some_peer 49)) 5000 = Inr 0"
proof -
  have "map_option (\<lambda>(es, s). map_option (\<lambda>s'. pos s' 1) (net_next 0 1 s)) (play add_and_find ([], net_init)) =
      Some (Some (Done (RetFind (na_ip (some_peer 49)) 5000 0)))"
    by code_simp
  then obtain es s s' where p: "play add_and_find ([], net_init) = Some (es, s)" "net_next 0 1 s = Some s'"
      "pos s' 1 = Done (RetFind (na_ip (some_peer 49)) 5000 0)"
    by auto
  show ?thesis
    using thread_results_right [OF play_run [OF p(1) net_start] p(2,3)] p(1) by simp
qed


text \<open>
  Two schedules that end in a fault: \<open>send_retrieve\<close> loads \<open>network\<close>, the other thread adds a second peer,
  which moves the array; and \<open>register_peer\<close> makes \<open>data\<close> for one peer, copies it, and the other thread
  adds a second one before the loop counts again.
\<close>

definition stale_read :: "net_move list" where
  "stale_read = [Call 0 (AddLock (some_peer 49))] @ replicate 8 (Step 0 3) @ [Call 1 (GetTest 0), Step 1 0, Step 1 0] @
     [Call 0 (AddLock (some_peer 50))] @ replicate 4 (Step 0 4)"

definition late_entry :: "net_move list" where
  "late_entry = [Call 0 (AddLock (some_peer 49))] @ replicate 8 (Step 0 3) @ [Call 1 RegSize] @ replicate 6 (Step 1 0) @
     [Call 0 (AddLock (some_peer 50))] @ replicate 9 (Step 0 4) @ replicate 2 (Step 1 0)"

lemma stale_read_runs:
  "\<exists>es s. play stale_read ([], net_init) = Some (es, s) \<and> (\<exists>s'. net_next 0 1 s = Some s' \<and> pos s' 1 = Faulted FreedArray)"
proof -
  have "map_option (\<lambda>(es, s). map_option (\<lambda>s'. pos s' 1) (net_next 0 1 s)) (play stale_read ([], net_init)) =
      Some (Some (Faulted FreedArray))"
    by code_simp
  then show ?thesis
    by auto
qed

lemma late_entry_runs:
  "\<exists>es s. play late_entry ([], net_init) = Some (es, s) \<and> (\<exists>s'. net_next 0 1 s = Some s' \<and> pos s' 1 = Faulted PastTheEnd)"
proof -
  have "map_option (\<lambda>(es, s). map_option (\<lambda>s'. pos s' 1) (net_next 0 1 s)) (play late_entry ([], net_init)) =
      Some (Some (Faulted PastTheEnd))"
    by code_simp
  then show ?thesis
    by auto
qed


text \<open>
  C1: The lock does not make the readers safe, since they do not take it: there are runs in which a thread
  that reads the list uses the array after \<open>realloc\<close> has freed it, and runs in which \<open>register_peer\<close>
  writes past the end of \<open>data\<close>.
\<close>

theorem unlocked_readers_fault:
  "(\<exists>es s t. net_run net_init es s \<and> pos s t = Faulted FreedArray) \<and>
   (\<exists>es s t. net_run net_init es s \<and> pos s t = Faulted PastTheEnd)"
proof (intro conjI)
  obtain es s s' where p: "play stale_read ([], net_init) = Some (es, s)" "net_next 0 1 s = Some s'"
      "pos s' 1 = Faulted FreedArray"
    using stale_read_runs by blast
  show "\<exists>es s t. net_run net_init es s \<and> pos s t = Faulted FreedArray"
    using net_step [OF play_run [OF p(1) net_start] p(2)] p(3) by blast
next
  obtain es s s' where p: "play late_entry ([], net_init) = Some (es, s)" "net_next 0 1 s = Some s'"
      "pos s' 1 = Faulted PastTheEnd"
    using late_entry_runs by blast
  show "\<exists>es s t. net_run net_init es s \<and> pos s t = Faulted PastTheEnd"
    using net_step [OF play_run [OF p(1) net_start] p(2)] p(3) by blast
qed

text \<open>
  C12: The lock is always given back. A thread that holds it can always take its next step, and in
  every schedule in which it takes as many steps as there are peers and seven more, whatever the other threads do in
  between, there is a moment at which the lock is free.
\<close>

theorem lock_given_back:
  assumes "net_run net_init es s" "network_mutex s = Some t"
  shows "(\<exists>q s'. net_next q t s = Some s') \<and>
     (play ms (es, s) = Some (es', s') \<longrightarrow> peer_count s + 7 \<le> steps_of t ms \<longrightarrow>
       (\<exists>ms1 ms2 es1 s1. ms = ms1 @ ms2 \<and> play ms1 (es, s) = Some (es1, s1) \<and> network_mutex s1 = None))"
proof -
  obtain L where inv: "net_inv s L"
    using run_inv [OF assms(1)] by blast
  then have "\<exists>q s'. net_next q t s = Some s'"
    using holder_can_step [OF _ assms(2), of L] by (simp add: net_inv_def)
  moreover have "\<exists>ms1 ms2 es1 s1. ms = ms1 @ ms2 \<and> play ms1 (es, s) = Some (es1, s1) \<and> network_mutex s1 = None"
    if "play ms (es, s) = Some (es', s')" "peer_count s + 7 \<le> steps_of t ms"
    using lock_back [OF inv assms(2) that(1)] that(2) section_left_bound [of "pos s t" "peer_count s"] by simp
  ultimately show ?thesis
    by blast
qed

theorem lock_given_back_witness:
  "\<exists>es s q s'. play [Call 0 (AddLock (some_peer 49)), Call 1 PrintLock, Step 0 3] ([], net_init) = Some (es, s) \<and>
     network_mutex s = Some 0 \<and> net_next q 0 s = Some s' \<and>
     (\<exists>ms1 ms2 es1 s1. replicate 7 (Step 0 3) @ [Step 1 0, Step 1 0] = ms1 @ ms2 \<and>
        play ms1 (es, s) = Some (es1, s1) \<and> network_mutex s1 = None)"
proof -
  let ?ms = "replicate 7 (Step 0 3) @ [Step 1 0, Step 1 0]"
  have "map_option (\<lambda>(es, s). (network_mutex s, peer_count s, play ?ms (es, s) \<noteq> None))
      (play [Call 0 (AddLock (some_peer 49)), Call 1 PrintLock, Step 0 3] ([], net_init)) = Some (Some 0, 0, True)"
    by code_simp
  then obtain es s es' s' where p: "play [Call 0 (AddLock (some_peer 49)), Call 1 PrintLock, Step 0 3] ([], net_init) = Some (es, s)"
      "network_mutex s = Some 0" "peer_count s = 0" "play ?ms (es, s) = Some (es', s')"
    by auto
  show ?thesis
    using lock_given_back [OF play_run [OF p(1) net_start] p(2), of ?ms es' s'] p by (simp add: numeral_eq_Suc)
qed

end
