(* ===== verification/Peer_Transfer.thy ===== *)
theory Peer_Transfer
  imports Peer_Wire
begin

text \<open>
  The transfer of a file between two peers, from \<open>Opgave4/src/peer.c\<close>: \<open>respond\<close>, which cuts data
  into blocks with a header each, \<open>retrive\<close>, which answers a request for a file, and
  \<open>receive_file_blocks\<close>, which puts the blocks together on the other side.
\<close>

section \<open>Connections\<close>

text \<open>
  An open connection: what will arrive on it, what \<open>write\<close> will answer in each call of \<open>writen\<close>
  (together with whether \<open>errno\<close> is \<open>EINTR\<close> before it; after the last, everything is written at
  once), and what has been sent.
\<close>

record peer_fd =
  incoming :: conn
  answers :: "(bool \<times> write_answer list) list"
  sent :: bytes

definition fd_readn :: "peer_fd \<Rightarrow> nat \<Rightarrow> int \<times> bytes \<times> peer_fd" where
  "fd_readn fd n = (let (r, bs, c) = compsys_helper_readn (incoming fd) n in (r, bs, fd\<lparr>incoming := c\<rparr>))"

definition fd_writen :: "peer_fd \<Rightarrow> bytes \<Rightarrow> int \<times> peer_fd" where
  "fd_writen fd data =
     (case answers fd of
        [] \<Rightarrow> (int (length data), fd\<lparr>sent := sent fd @ data\<rparr>)
      | (errno, ws) # rest \<Rightarrow>
          let (r, out) = compsys_helper_writen ws errno data
          in (r, fd\<lparr>answers := rest, sent := sent fd @ out\<rparr>))"

section \<open>Sending\<close>

text \<open>
  The number of blocks is \<open>ceil\<close> of a division in single precision, which is exact for less than
  \<open>2 ^ 24\<close> bytes. The last block takes all that is left.
\<close>

definition block_data_max :: nat where
  "block_data_max = MAX_MSG_LEN - REPLY_HEADER_LEN"

definition response_blocks :: "nat \<Rightarrow> nat" where
  "response_blocks bytes = (bytes + (MAX_MSG_LEN - 1)) div MAX_MSG_LEN"

function respond_loop :: "u32 \<Rightarrow> bytes \<Rightarrow> bytes \<Rightarrow> nat \<Rightarrow> nat \<Rightarrow> nat \<Rightarrow> peer_fd \<Rightarrow> array_error + peer_fd" where
  "respond_loop status data total_hash nblocks i bytes_send fd =
     (if i < nblocks then
        let this_length = (if i = nblocks - 1 then length data - bytes_send else block_data_max);
            payload = take this_length (drop bytes_send data)
        in rbind (data_sha payload) (\<lambda>block_hash.
             let message = add_response_header (of_nat this_length) status (of_nat i) (of_nat nblocks)
                   (Some total_hash) (Some block_hash) @ payload;
                 (r, fd) = fd_writen fd message
             in if r < 0 then Inr fd
                else respond_loop status data total_hash nblocks (i + 1) (bytes_send + this_length) fd)
      else Inr fd)"
  by pat_completeness auto
termination
  by (relation "measure (\<lambda>(status, data, th, nblocks, i, bs, fd). nblocks - i)") auto

declare respond_loop.simps [simp del]

definition respond :: "peer_fd \<Rightarrow> u32 \<Rightarrow> bytes \<Rightarrow> array_error + peer_fd" where
  "respond fd status data =
     rbind (data_sha data) (\<lambda>total_hash.
       if length data = 0
       then Inr (snd (fd_writen fd (add_response_header 0 status 0 1 None None)))
       else respond_loop status data total_hash (response_blocks (length data)) 0 0 fd)"

section \<open>Reading the file\<close>

text \<open>
  \<open>retrive\<close> reads the file into a buffer that doubles when it is full. The result of \<open>fgetc\<close> goes
  through a \<open>char\<close>, so the byte \<open>0xFF\<close> looks like the end of the file. \<open>fresh n\<close> is the contents of
  \<open>n\<close> newly allocated bytes.
\<close>

function read_file_loop :: "(nat \<Rightarrow> bytes) \<Rightarrow> bytes \<Rightarrow> bytes \<Rightarrow> nat \<Rightarrow> nat \<Rightarrow> array_error + bytes \<times> nat" where
  "read_file_loop fresh f buffer bufferSize currentBufferIndex =
     (case f of
        [] \<Rightarrow> Inr (buffer, currentBufferIndex)
      | c # f \<Rightarrow>
          if c = 0xFF then Inr (buffer, currentBufferIndex)
          else let (buffer, bufferSize) =
                     (if currentBufferIndex = bufferSize
                      then (take bufferSize buffer @ drop bufferSize (fresh (bufferSize * 2)), bufferSize * 2)
                      else (buffer, bufferSize))
               in rbind (arr_set buffer (int currentBufferIndex) c) (\<lambda>buffer.
                    read_file_loop fresh f buffer bufferSize (currentBufferIndex + 1)))"
  by pat_completeness auto
termination
  by (relation "measure (\<lambda>(fresh, f, b, n, i). length f)") auto

declare read_file_loop.simps [simp del]

text \<open>
  The path is read into an array of the announced length and one, of which a failed or short read
  leaves the contents \<open>junk\<close>; \<open>fs\<close> opens a path. The length is still in network order.
\<close>

definition retrive :: "(nat \<Rightarrow> bytes) \<Rightarrow> (bytes \<Rightarrow> bytes option) \<Rightarrow> bytes \<Rightarrow> peer_fd \<Rightarrow> request_header \<Rightarrow> array_error + peer_fd" where
  "retrive fresh fs junk fd hdr =
     (let n = unat (be32toh (rh_length hdr));
          (r, got, fd) = fd_readn fd n;
          file_path = take n (overwrite junk got)
      in case fs (c_bytes file_path) of
           None \<Rightarrow> respond fd STATUS_BAD_REQUEST []
         | Some contents \<Rightarrow>
             rbind (read_file_loop fresh contents (fresh 128) 128 0) (\<lambda>(buffer, currentBufferIndex).
               respond fd STATUS_OK (take currentBufferIndex buffer)))"

section \<open>Receiving\<close>

text \<open>Access to the buffer the blocks are put together in.\<close>

definition store_at :: "bytes \<Rightarrow> nat \<Rightarrow> bytes \<Rightarrow> array_error + bytes" where
  "store_at buf off bs =
     (if bs = [] then Inr buf
      else if off + length bs \<le> length buf then Inr (take off buf @ bs @ drop (off + length bs) buf)
      else Inl OutOfBounds)"

definition load_at :: "bytes \<Rightarrow> nat \<Rightarrow> nat \<Rightarrow> array_error + bytes" where
  "load_at buf off n =
     (if n = 0 then Inr []
      else if off + n \<le> length buf then Inr (take n (drop off buf))
      else Inl OutOfBounds)"

text \<open>
  The payload of one block: read it to its place, and compare its hash with the one in the header.
  The source has this twice, for block 0 and in the loop. \<open>None\<close> is the return of \<open>- 1\<close>.
\<close>

definition receive_payload :: "bytes \<Rightarrow> u32 \<Rightarrow> reply_header \<Rightarrow> peer_fd \<Rightarrow> array_error + bytes option \<times> peer_fd" where
  "receive_payload filebuf offset reply fd =
     (let len = unat (be32toh (rp_length reply));
          (r, bs, fd) = (if len > 0 then fd_readn fd len else (1, [], fd))
      in rbind (store_at filebuf (unat offset) bs) (\<lambda>filebuf.
           if r \<le> 0 then Inr (None, fd)
           else rbind (load_at filebuf (unat offset) len) (\<lambda>block.
                rbind (data_sha block) (\<lambda>local_hash.
                  Inr (if local_hash \<noteq> rp_block_hash reply then None else Some filebuf, fd)))))"

function receive_loop :: "nat \<Rightarrow> nat \<Rightarrow> bytes \<Rightarrow> u32 \<Rightarrow> bytes \<Rightarrow> peer_fd \<Rightarrow> array_error + (bytes \<times> u32) option \<times> peer_fd" where
  "receive_loop b block_count filebuf offset memory fd =
     (if b < block_count then
        let (r, got, fd) = fd_readn fd REPLY_HEADER_LEN in
        if r \<le> 0 then Inr (None, fd)
        else let memory = overwrite memory got; reply = reply_struct memory in
             if be32toh (rp_status reply) \<noteq> STATUS_OK then Inr (None, fd)
             else if be32toh (rp_this_block reply) \<noteq> of_nat b then Inr (None, fd)
             else rbind (receive_payload filebuf offset reply fd) (\<lambda>(filebuf', fd).
                    case filebuf' of
                      None \<Rightarrow> Inr (None, fd)
                    | Some filebuf \<Rightarrow> receive_loop (b + 1) block_count filebuf (offset + be32toh (rp_length reply)) memory fd)
      else Inr (Some (filebuf, offset), fd))"
  by pat_completeness auto
termination
  by (relation "measure (\<lambda>(b, n, buf, off, m, fd). n - b)") auto

declare receive_loop.simps [simp del]

text \<open>
  The whole function: its result, the contents of the file it writes, and the connection.
  \<open>alloc n\<close> is what \<open>malloc\<close> returns for \<open>n\<close> bytes, \<open>can_write\<close> whether the file can be created.
\<close>

definition receive_file_blocks :: "(nat \<Rightarrow> bytes option) \<Rightarrow> bool \<Rightarrow> bytes \<Rightarrow> peer_fd \<Rightarrow>
    array_error + int \<times> bytes option \<times> peer_fd" where
  "receive_file_blocks alloc can_write junk fd =
     (let (r, got, fd) = fd_readn fd REPLY_HEADER_LEN in
      if r \<le> 0 then Inr (- 1, None, fd)
      else
        let memory = overwrite junk got; reply = reply_struct memory;
            block_count = be32toh (rp_block_count reply);
            max_total = block_count * of_nat block_data_max
        in if be32toh (rp_status reply) \<noteq> STATUS_OK then Inr (- 1, None, fd)
           else if be32toh (rp_this_block reply) \<noteq> 0 then Inr (- 1, None, fd)
           else case alloc (unat max_total) of
             None \<Rightarrow> Inr (- 1, None, fd)
           | Some filebuf \<Rightarrow>
               rbind (receive_payload filebuf 0 reply fd) (\<lambda>(filebuf', fd).
               case filebuf' of
                 None \<Rightarrow> Inr (- 1, None, fd)
               | Some filebuf \<Rightarrow>
                   rbind (receive_loop 1 (unat block_count) filebuf (be32toh (rp_length reply)) memory fd) (\<lambda>(done, fd).
                   case done of
                     None \<Rightarrow> Inr (- 1, None, fd)
                   | Some (filebuf, offset) \<Rightarrow>
                       rbind (load_at filebuf 0 (unat offset)) (\<lambda>contents.
                       rbind (data_sha contents) (\<lambda>computed_total.
                         if computed_total \<noteq> rp_total_hash reply then Inr (- 1, None, fd)
                         else if \<not> can_write then Inr (- 1, None, fd)
                         else Inr (sint offset, Some contents, fd))))))"

section \<open>From one side to the other\<close>

lemma unat_of_nat32: "k < 2 ^ 32 \<Longrightarrow> unat (of_nat k :: u32) = k"
  by (simp add: unsigned_of_nat take_bit_nat_eq_self)

lemma fd_readn_exact:
  assumes "stream (incoming fd) = (s, ok)" "n \<le> length s"
  shows "\<exists>c. fd_readn fd n = (int n, take n s, fd\<lparr>incoming := c\<rparr>) \<and> stream c = (drop n s, ok)"
proof -
  from readn_loop_right [OF assms(1) order_refl, of n "[]"] assms(2)
  obtain c where "compsys_helper_readn (incoming fd) n = (int n, take n s, c)" "stream c = (drop n s, ok)"
    by (auto simp: compsys_helper_readn_def)
  then show ?thesis by (intro exI [of _ c]) (simp add: fd_readn_def)
qed

text \<open>The blocks of some data, when it is cut into \<open>nb\<close>.\<close>

definition block_payload :: "bytes \<Rightarrow> nat \<Rightarrow> nat \<Rightarrow> bytes" where
  "block_payload data nb i =
     take (if i = nb - 1 then length data - i * block_data_max else block_data_max) (drop (i * block_data_max) data)"

definition block_header :: "u32 \<Rightarrow> bytes \<Rightarrow> nat \<Rightarrow> nat \<Rightarrow> bytes" where
  "block_header status data nb i = add_response_header (of_nat (length (block_payload data nb i))) status (of_nat i) (of_nat nb)
     (Some (std_sha256 data)) (Some (std_sha256 (block_payload data nb i)))"

definition block_message :: "u32 \<Rightarrow> bytes \<Rightarrow> nat \<Rightarrow> nat \<Rightarrow> bytes" where
  "block_message status data nb i = block_header status data nb i @ block_payload data nb i"

lemma block_payload_length:
  assumes "(nb - 1) * block_data_max < length data" "i < nb"
  shows "length (block_payload data nb i) = (if i = nb - 1 then length data - i * block_data_max else block_data_max)"
    "0 < length (block_payload data nb i)"
proof -
  have "i \<noteq> nb - 1 \<Longrightarrow> (i + 1) * block_data_max \<le> (nb - 1) * block_data_max" using assms(2) by (intro mult_le_mono1) simp
  with assms show "length (block_payload data nb i) = (if i = nb - 1 then length data - i * block_data_max else block_data_max)"
    by (auto simp: block_payload_def)
  with assms show "0 < length (block_payload data nb i)" by (auto simp: block_data_max_def length_defs split: if_splits)
qed

lemma respond_loop_sends:
  assumes "(nb - 1) * block_data_max < length data" "answers fd = []" "i \<le> nb"
  shows "i = nb \<or> off = i * block_data_max \<Longrightarrow>
    respond_loop status data (std_sha256 data) nb i off fd =
      Inr (fd\<lparr>sent := sent fd @ concat (map (block_message status data nb) [i..<nb])\<rparr>)"
  using assms(2,3)
proof (induction "nb - i" arbitrary: i fd off)
  case 0
  then show ?case by (subst respond_loop.simps) simp
next
  case (Suc k)
  then have i: "i < nb" "off = i * block_data_max" by auto
  define L where "L = length (block_payload data nb i)"
  have l: "(if i = nb - Suc 0 then length data - off else block_data_max) = L"
    using block_payload_length(1) [OF assms(1) i(1)] i(2) by (simp add: L_def)
  have p: "take L (drop off data) = block_payload data nb i"
    unfolding l [symmetric] using i by (simp add: block_payload_def)
  let ?fd = "fd\<lparr>sent := sent fd @ block_message status data nb i\<rparr>"
  have w: "fd_writen fd (block_message status data nb i) = (int (length (block_message status data nb i)), ?fd)"
    using Suc.prems(2) by (simp add: fd_writen_def)
  have "respond_loop status data (std_sha256 data) nb i off fd =
      respond_loop status data (std_sha256 data) nb (i + 1) (off + L) ?fd"
    using i(1) w by (subst respond_loop.simps)
      (simp add: l p Let_def data_sha_std block_message_def block_header_def L_def [symmetric] split del: if_split)
  also have "\<dots> = Inr (?fd\<lparr>sent := sent ?fd @ concat (map (block_message status data nb) [i + 1..<nb])\<rparr>)"
    using Suc i l by (intro Suc.hyps(1)) (auto split: if_splits)
  finally show ?case using i(1) by (simp add: upt_conv_Cons)
qed

lemma block_header_decode:
  "reply_struct (block_header status data nb i @ rest) =
     \<lparr>rp_length = htobe32 (of_nat (length (block_payload data nb i))), rp_status = htobe32 status,
      rp_this_block = htobe32 (of_nat i), rp_block_count = htobe32 (of_nat nb),
      rp_block_hash = std_sha256 (block_payload data nb i), rp_total_hash = std_sha256 data\<rparr>"
  "length (block_header status data nb i) = REPLY_HEADER_LEN"
  using reply.dec_enc [of "(of_nat (length (block_payload data nb i)), status, of_nat i, of_nat nb,
      Some (std_sha256 data), Some (std_sha256 (block_payload data nb i)))" rest]
    reply.enc_length [of "(of_nat (length (block_payload data nb i)), status, of_nat i, of_nat nb,
      Some (std_sha256 data), Some (std_sha256 (block_payload data nb i)))"]
  by (simp_all add: block_header_def hash_field_def length_std_sha256)

lemma receive_payload_block:
  assumes "be32toh (rp_length reply) = of_nat (length P)" "rp_block_hash reply = std_sha256 P" "P \<noteq> []" "length P < 2 ^ 32"
    "stream (incoming fd) = (P @ rest, ok)"
  shows "\<exists>c. stream c = (rest, ok) \<and> receive_payload filebuf offset reply fd =
    (if unat offset + length P \<le> length filebuf
     then Inr (Some (take (unat offset) filebuf @ P @ drop (unat offset + length P) filebuf), fd\<lparr>incoming := c\<rparr>)
     else Inl OutOfBounds)"
proof -
  from fd_readn_exact [OF assms(5), of "length P"]
  obtain c where c: "fd_readn fd (length P) = (int (length P), P, fd\<lparr>incoming := c\<rparr>)" "stream c = (rest, ok)" by auto
  have "unat (be32toh (rp_length reply)) = length P" using assms(1,4) by (simp add: unat_of_nat32)
  with c assms(2,3) show ?thesis
    by (intro exI [of _ c])
      (simp add: receive_payload_def store_at_def load_at_def data_sha_std Let_def Suc_le_eq)
qed

text \<open>One header and its payload, then the rest of the blocks.\<close>

lemma take_store:
  assumes "take off buf = take off data" "P = take (length P) (drop off data)" "off \<le> length buf"
  shows "take (off + length P) (take off buf @ P @ zs) = take (off + length P) data"
proof -
  have "take (off + length P) data = take off data @ P" using assms(2) by (simp add: take_add)
  moreover have "take (off + length P) (take off buf @ P @ zs) = take off buf @ P" using assms(3) by simp
  ultimately show ?thesis using assms(1) by simp
qed

lemma block_payload_take: "block_payload data nb i = take (length (block_payload data nb i)) (drop (i * block_data_max) data)"
  by (simp add: block_payload_def min_def)

definition blocks_from :: "bytes \<Rightarrow> nat \<Rightarrow> nat \<Rightarrow> bytes" where
  "blocks_from data nb b = concat (map (block_message STATUS_OK data nb) [b..<nb])"

lemma blocks_from_step: "b < nb \<Longrightarrow> blocks_from data nb b =
    block_header STATUS_OK data nb b @ block_payload data nb b @ blocks_from data nb (b + 1)"
  by (simp add: blocks_from_def upt_conv_Cons block_message_def)

lemma receive_loop_step:
  assumes "(nb - 1) * block_data_max < length data" "length data < 2 ^ 32"
    "b < nb" "stream (incoming fd) = (blocks_from data nb b, ok)" "P = block_payload data nb b"
    "unat offset = b * block_data_max"
  shows "\<exists>memory' fd'. stream (incoming fd') = (blocks_from data nb (b + 1), ok) \<and>
    receive_loop b nb filebuf offset memory fd =
      (if b * block_data_max + length P \<le> length filebuf
       then receive_loop (b + 1) nb (take (b * block_data_max) filebuf @ P @ drop (b * block_data_max + length P) filebuf)
         (offset + of_nat (length P)) memory' fd'
       else Inl OutOfBounds)"
proof -
  have P: "P \<noteq> []" "length P < 2 ^ 32"
    using block_payload_length(2) [OF assms(1,3)] assms(2,5) by (auto simp: block_payload_def)
  have s: "stream (incoming fd) = (block_header STATUS_OK data nb b @ P @ blocks_from data nb (b + 1), ok)"
    using assms(3,4,5) by (simp add: blocks_from_step)
  from fd_readn_exact [OF s, of REPLY_HEADER_LEN] obtain c where
    c: "fd_readn fd REPLY_HEADER_LEN = (80, block_header STATUS_OK data nb b, fd\<lparr>incoming := c\<rparr>)"
      "stream c = (P @ blocks_from data nb (b + 1), ok)"
    by (auto simp: block_header_decode(2) REPLY_HEADER_LEN_def)
  let ?m = "overwrite memory (block_header STATUS_OK data nb b)"
  have rep: "reply_struct ?m = \<lparr>rp_length = htobe32 (of_nat (length P)), rp_status = htobe32 STATUS_OK,
      rp_this_block = htobe32 (of_nat b), rp_block_count = htobe32 (of_nat nb), rp_block_hash = std_sha256 P,
      rp_total_hash = std_sha256 data\<rparr>"
    by (simp add: overwrite_def block_header_decode(1) assms(5))
  have conds: "be32toh (rp_length (reply_struct ?m)) = of_nat (length P)" "rp_block_hash (reply_struct ?m) = std_sha256 P"
      "stream (incoming (fd\<lparr>incoming := c\<rparr>)) = (P @ blocks_from data nb (b + 1), ok)"
    using c(2) by (simp_all add: rep)
  obtain d where d: "stream d = (blocks_from data nb (b + 1), ok)"
      "receive_payload filebuf offset (reply_struct ?m) (fd\<lparr>incoming := c\<rparr>) =
        (if b * block_data_max + length P \<le> length filebuf
         then Inr (Some (take (b * block_data_max) filebuf @ P @ drop (b * block_data_max + length P) filebuf),
           fd\<lparr>incoming := c\<rparr>\<lparr>incoming := d\<rparr>)
         else Inl OutOfBounds)"
    using receive_payload_block [OF conds(1,2) P conds(3), of filebuf offset] unfolding assms(6) by blast
  show ?thesis
    using c(1) d assms(3) rep
    by (intro exI [of _ ?m] exI [of _ "fd\<lparr>incoming := c\<rparr>\<lparr>incoming := d\<rparr>"], subst receive_loop.simps) (simp add: Let_def)
qed

text \<open>Where the buffer and the data agree before a block is stored, they agree after it.\<close>

lemma block_stored:
  assumes "b < nb" "length filebuf = nb * block_data_max"
    "take (b * block_data_max) filebuf = take (b * block_data_max) data" "P = block_payload data nb b"
    "b * block_data_max + length P \<le> length filebuf"
  defines "buf \<equiv> take (b * block_data_max) filebuf @ P @ drop (b * block_data_max + length P) filebuf"
  shows "length buf = nb * block_data_max"
    "take (b * block_data_max + length P) buf = take (b * block_data_max + length P) data"
proof -
  have fits: "b * block_data_max \<le> length filebuf" using assms(5) by simp
  show "length buf = nb * block_data_max" using assms(2,5) by (simp add: buf_def)
  show "take (b * block_data_max + length P) buf = take (b * block_data_max + length P) data"
    unfolding buf_def assms(4) by (rule take_store [OF assms(3) block_payload_take fits])
qed

lemma receive_loop_blocks:
  assumes "(nb - 1) * block_data_max < length data" "length data < 2 ^ 32"
  shows "b < nb \<Longrightarrow> stream (incoming fd) = (blocks_from data nb b, ok) \<Longrightarrow> length filebuf = nb * block_data_max \<Longrightarrow>
    take (b * block_data_max) filebuf = take (b * block_data_max) data \<Longrightarrow> offset = of_nat (b * block_data_max) \<Longrightarrow>
    (if length data \<le> nb * block_data_max
     then \<exists>buf fd'. receive_loop b nb filebuf offset memory fd = Inr (Some (buf, of_nat (length data)), fd') \<and>
       length buf = nb * block_data_max \<and> take (length data) buf = data
     else receive_loop b nb filebuf offset memory fd = Inl OutOfBounds)"
proof (induction "nb - b" arbitrary: b fd filebuf offset memory)
  case (Suc k)
  define P where "P = block_payload data nb b"
  note len = block_payload_length(1) [OF assms(1) Suc.prems(1), folded P_def]
  have bm: "b * block_data_max \<le> (nb - 1) * block_data_max" using Suc.prems(1) by (intro mult_le_mono1) simp
  with assms have "b * block_data_max < 2 ^ 32" by linarith
  from unat_of_nat32 [OF this] have off: "unat offset = b * block_data_max" unfolding Suc.prems(5) .
  obtain m' fd' where step: "stream (incoming fd') = (blocks_from data nb (b + 1), ok)"
      "receive_loop b nb filebuf offset memory fd =
      (if b * block_data_max + length P \<le> length filebuf
       then receive_loop (b + 1) nb (take (b * block_data_max) filebuf @ P @ drop (b * block_data_max + length P) filebuf)
         (offset + of_nat (length P)) m' fd'
       else Inl OutOfBounds)"
    using receive_loop_step [OF assms Suc.prems(1,2) P_def off] by blast
  note stored = block_stored [OF Suc.prems(1,3,4) P_def]
  have o: "offset + of_nat (length P) = of_nat (b * block_data_max + length P)" unfolding Suc.prems(5) by simp
  show ?case
  proof (cases "b = nb - 1")
    case True
    then have t: "b * block_data_max + length P = length data" using len assms(1) bm by simp
    have "receive_loop (b + 1) nb buf o' m f = Inr (Some (buf, o'), f)" for buf o' m f
      using True Suc.prems(1) by (subst receive_loop.simps) simp
    then show ?thesis using stored Suc.prems(3) unfolding step(2) o t by auto
  next
    case False
    then have nb: "b + 1 < nb" using Suc.prems(1) by simp
    have l: "b * block_data_max + length P = (b + 1) * block_data_max" using False len by simp
    then have room: "b * block_data_max + length P \<le> length filebuf"
      using nb Suc.prems(3) by (metis mult_le_mono1 less_imp_le)
    have k: "k = nb - (b + 1)" using Suc.hyps(2) by simp
    have t: "take ((b + 1) * block_data_max) (take (b * block_data_max) filebuf @ P @ drop (b * block_data_max + length P) filebuf) =
        take ((b + 1) * block_data_max) data" using stored(2) [OF room] by (simp only: l)
    have o': "offset + of_nat (length P) = of_nat ((b + 1) * block_data_max)" by (simp only: o l)
    show ?thesis
      using Suc.hyps(1) [OF k nb step(1) stored(1) [OF room] t o'] room unfolding step(2) by (simp only: if_True)
  qed
qed simp

lemma response_blocks_bounds:
  assumes "0 < n"
  shows "0 < response_blocks n" "(response_blocks n - 1) * block_data_max < n" "response_blocks n \<le> n"
proof -
  have *: "(n - 1) div 8196 + 1 = (n + 8195) div 8196" using assms by (cases n) simp_all
  have "(n - 1) div 8196 * 8116 \<le> (n - 1) div 8196 * 8196" by simp
  also have "\<dots> \<le> n - 1" by simp
  finally show "0 < response_blocks n" "(response_blocks n - 1) * block_data_max < n" "response_blocks n \<le> n"
    using assms by (auto simp: response_blocks_def block_data_max_def length_defs * [symmetric])
qed

lemma respond_sends:
  assumes "answers fd = []" "data \<noteq> []"
  shows "respond fd STATUS_OK data = Inr (fd\<lparr>sent := sent fd @ blocks_from data (response_blocks (length data)) 0\<rparr>)"
proof -
  have "0 < length data" using assms(2) by simp
  from respond_loop_sends [OF response_blocks_bounds(2) [OF this] assms(1), of 0 0 STATUS_OK] assms(2)
  show ?thesis by (simp add: respond_def blocks_from_def)
qed

text \<open>After the checks of the first header, the function receives all blocks as its loop does.\<close>

lemma receive_file_blocks_loop:
  assumes "fd_readn fd REPLY_HEADER_LEN = (80, H, fd1)" "reply_struct (overwrite junk H) = reply"
    "be32toh (rp_status reply) = STATUS_OK" "be32toh (rp_this_block reply) = 0" "be32toh (rp_block_count reply) = of_nat nb"
    "0 < nb" "nb < 2 ^ 32" "alloc (unat (of_nat nb * of_nat block_data_max :: u32)) = Some filebuf"
  shows "receive_file_blocks alloc True junk fd =
    rbind (receive_loop 0 nb filebuf 0 junk fd) (\<lambda>(done, fd).
      case done of
        None \<Rightarrow> Inr (- 1, None, fd)
      | Some (filebuf, offset) \<Rightarrow>
          rbind (load_at filebuf 0 (unat offset)) (\<lambda>contents.
            if std_sha256 contents \<noteq> rp_total_hash reply then Inr (- 1, None, fd)
            else Inr (sint offset, Some contents, fd)))"
proof -
  have nb: "unat (of_nat nb :: u32) = nb" using assms(7) by (rule unat_of_nat32)
  have "receive_loop 0 nb filebuf 0 junk fd = rbind (receive_payload filebuf 0 reply fd1) (\<lambda>(filebuf', fd).
      case filebuf' of
        None \<Rightarrow> Inr (None, fd)
      | Some filebuf \<Rightarrow> receive_loop 1 nb filebuf (be32toh (rp_length reply)) (overwrite junk H) fd)"
    using assms(1,3-6) unfolding assms(2) [symmetric]
    by (subst receive_loop.simps) (simp add: Let_def cong: option.case_cong)
  then show ?thesis
    using assms(1-5,8) nb
    by (cases "receive_payload filebuf 0 reply fd1")
      (auto simp: receive_file_blocks_def Let_def split: option.splits cong: option.case_cong prod.case_cong if_cong)
qed

section \<open>Properties\<close>

text \<open>
  C29: A file of less than \<open>2 ^ 24\<close> bytes, sent by \<open>respond\<close> and received by \<open>receive_file_blocks\<close>
  however the connection cuts it into packets, arrives as it was sent, if it is not empty and its length
  is at most 8116 times the number of blocks. Otherwise the last block is longer than the receiver has
  made room for, and it writes past the end of its buffer: the sender cuts by the length of a
  message (8196) where the receiver reckons with the payload of a message (8116).
\<close>

theorem file_transfer_roundtrip:
  assumes "answers fd = []" "sent fd = []" "data \<noteq> []" "length data < 2 ^ 24"
    "respond fd STATUS_OK data = Inr fd1" "stream (incoming rfd) = (sent fd1, ok)"
    "\<And>n. alloc n \<noteq> None" "\<And>n buf. alloc n = Some buf \<Longrightarrow> length buf = n"
  shows "if length data \<le> 8116 * response_blocks (length data)
    then \<exists>rfd'. receive_file_blocks alloc True junk rfd = Inr (int (length data), Some data, rfd')
    else receive_file_blocks alloc True junk rfd = Inl OutOfBounds"
proof -
  define nb where "nb = response_blocks (length data)"
  have nb: "0 < nb" "(nb - 1) * block_data_max < length data" "nb \<le> length data"
    using response_blocks_bounds [of "length data"] assms(3) by (auto simp: nb_def)
  then have lim: "nb < 2 ^ 32" "length data < 2 ^ 32" using assms(4) by simp_all
  have sent: "stream (incoming rfd) = (blocks_from data nb 0, ok)"
    using assms(2,5,6) respond_sends [OF assms(1,3)] by (auto simp: nb_def)
  then have "stream (incoming rfd) = (block_header STATUS_OK data nb 0 @ block_payload data nb 0 @ blocks_from data nb 1, ok)"
    using nb(1) by (simp add: blocks_from_step)
  from fd_readn_exact [OF this, of REPLY_HEADER_LEN]
  obtain fd2 where hd: "fd_readn rfd REPLY_HEADER_LEN = (80, block_header STATUS_OK data nb 0, fd2)"
    by (auto simp: block_header_decode(2) REPLY_HEADER_LEN_def)
  have small: "nb * 8116 < 2 ^ 32"
    using nb(2) assms(4) by (cases nb) (auto simp: block_data_max_def length_defs)
  then have total: "unat (of_nat nb * of_nat block_data_max :: u32) = nb * block_data_max"
    using unat_of_nat32 [of "nb * 8116"] by (simp add: block_data_max_def length_defs)
  obtain filebuf where buf: "alloc (nb * block_data_max) = Some filebuf" "length filebuf = nb * block_data_max"
    using assms(7,8) by (metis option.exhaust)
  note loop = receive_loop_blocks [OF nb(2) lim(2) nb(1) sent buf(2), of 0 junk]
  have rep: "reply_struct (overwrite junk (block_header STATUS_OK data nb 0)) =
      \<lparr>rp_length = htobe32 (of_nat (length (block_payload data nb 0))), rp_status = htobe32 STATUS_OK,
        rp_this_block = htobe32 (of_nat 0), rp_block_count = htobe32 (of_nat nb),
        rp_block_hash = std_sha256 (block_payload data nb 0), rp_total_hash = std_sha256 data\<rparr>"
    by (simp only: overwrite_def block_header_decode(1))
  have "alloc (unat (of_nat nb * of_nat block_data_max :: u32)) = Some filebuf" using buf(1) by (simp only: total)
  note whole = receive_file_blocks_loop [where alloc = alloc and filebuf = filebuf, OF hd rep _ _ _ nb(1) lim(1) this, simplified]
  have "sint (of_nat (length data) :: u32) = int (length data)" "unat (of_nat (length data) :: u32) = length data"
    using assms(4) by (simp_all add: sint_uint signed_take_bit_int_eq_self unsigned_of_nat take_bit_nat_eq_self)
  then show ?thesis
    using loop whole assms(3)
    by (auto simp: nb_def [symmetric] load_at_def overwrite_def block_header_decode(2) block_data_max_def length_defs
        mult.commute split: if_splits)
qed

text \<open>The two sides on a small file, and on a file one byte longer than the payload of a message.\<close>

definition zero_alloc :: "nat \<Rightarrow> bytes option" where
  "zero_alloc n = Some (replicate n 0)"

definition idle_fd :: "conn \<Rightarrow> peer_fd" where
  "idle_fd c = \<lparr>incoming = c, answers = [], sent = []\<rparr>"

theorem file_transfer_roundtrip_witness:
  "(\<exists>fd1 rfd'. respond (idle_fd []) STATUS_OK [1, 2, 3] = Inr fd1 \<and>
      receive_file_blocks zero_alloc True [] (idle_fd [Interrupted, Data (sent fd1)]) = Inr (3, Some [1, 2, 3], rfd')) \<and>
   (\<exists>fd1. respond (idle_fd []) STATUS_OK (replicate 8117 0) = Inr fd1 \<and>
      receive_file_blocks zero_alloc True [] (idle_fd [Data (sent fd1)]) = Inl OutOfBounds)"
proof -
  have arrives: "stream (incoming (idle_fd [Interrupted, Data bs])) = (bs, True)" "stream (incoming (idle_fd [Data bs])) = (bs, True)"
    for bs by (simp_all add: idle_fd_def)
  have idle: "answers (idle_fd []) = []" "sent (idle_fd []) = []" by (simp_all add: idle_fd_def)
  have alloc: "zero_alloc n \<noteq> None" "zero_alloc n = Some buf \<Longrightarrow> length buf = n" for n buf by (auto simp: zero_alloc_def)
  have r: "\<exists>fd1. respond (idle_fd []) STATUS_OK data = Inr fd1" if "data \<noteq> []" for data
    using respond_sends [OF idle(1) that] by simp
  have nb: "response_blocks 3 = 1" "response_blocks 8117 = 1" by (simp_all add: response_blocks_def MAX_MSG_LEN_def)
  define S D :: bytes where "S = [1, 2, 3]" and "D = replicate 8117 0"
  have S: "length S = 3" "S \<noteq> []" by (simp_all add: S_def)
  have D: "length D = 8117" unfolding D_def length_replicate by (rule refl)
  then have D': "D \<noteq> []" by auto
  from r [OF S(2)] obtain a where a: "respond (idle_fd []) STATUS_OK S = Inr a" by blast
  from r [OF D'] obtain b where b: "respond (idle_fd []) STATUS_OK D = Inr b" by blast
  have "\<exists>rfd'. receive_file_blocks zero_alloc True [] (idle_fd [Interrupted, Data (sent a)]) = Inr (3, Some S, rfd')"
    using file_transfer_roundtrip [where alloc = zero_alloc and junk = "[]", OF idle S(2) _ a arrives(1) alloc] by (simp add: S(1) nb)
  moreover have "receive_file_blocks zero_alloc True [] (idle_fd [Data (sent b)]) = Inl OutOfBounds"
    using file_transfer_roundtrip [where alloc = zero_alloc and junk = "[]", OF idle D' _ b arrives(2) alloc] by (simp add: D nb)
  ultimately show ?thesis using a b unfolding S_def D_def by blast
qed

lemma read_file_loop_right:
  assumes "\<And>n. length (fresh n) = n"
  shows "length buffer = bufferSize \<Longrightarrow> i \<le> bufferSize \<Longrightarrow> 0 < bufferSize \<Longrightarrow>
    \<exists>buffer'. read_file_loop fresh f buffer bufferSize i =
      Inr (buffer', i + length (takeWhile (\<lambda>c. c \<noteq> 0xFF) f)) \<and>
      take (i + length (takeWhile (\<lambda>c. c \<noteq> 0xFF) f)) buffer' = take i buffer @ takeWhile (\<lambda>c. c \<noteq> 0xFF) f"
proof (induction f arbitrary: buffer bufferSize i)
  case Nil
  then show ?case by (subst read_file_loop.simps) simp
next
  case (Cons c f)
  show ?case
  proof (cases "c = 0xFF")
    case True
    then show ?thesis by (subst read_file_loop.simps) simp
  next
    case False
    let ?b = "if i = bufferSize then take bufferSize buffer @ drop bufferSize (fresh (bufferSize * 2)) else buffer"
    let ?n = "if i = bufferSize then bufferSize * 2 else bufferSize"
    have lens: "length ?b = ?n" "i < length ?b" "take i ?b = take i buffer" using Cons.prems assms by auto
    have step: "read_file_loop fresh (c # f) buffer bufferSize i = read_file_loop fresh f (?b[i := c]) ?n (i + 1)"
      using False lens by (cases "i = bufferSize"; subst read_file_loop.simps; simp add: arr_set_ok)
    have "take (i + 1) (?b[i := c]) = take i buffer @ [c]" using lens by (simp add: take_Suc_conv_app_nth)
    with Cons.IH [of "?b[i := c]" ?n "i + 1"] lens Cons.prems False show ?thesis unfolding step by auto
  qed
qed

text \<open>
  A request for a file is answered with the contents of the file up to its first byte \<open>0xFF\<close> (all
  of it, if it has none), and with the status for a bad request if there is no such file. The path is
  the one that arrives after the header; the buffer grows without an access outside it.
\<close>

theorem retrive_answers:
  assumes "stream (incoming fd) = (path @ rest, ok)" "be32toh (rh_length hdr) = of_nat (length path)" "length path < 2 ^ 32"
    "\<And>n. length (fresh n) = n"
  shows "\<exists>c. stream c = (rest, ok) \<and> retrive fresh fs junk fd hdr =
    (case fs (c_bytes path) of
       None \<Rightarrow> respond (fd\<lparr>incoming := c\<rparr>) STATUS_BAD_REQUEST []
     | Some contents \<Rightarrow> respond (fd\<lparr>incoming := c\<rparr>) STATUS_OK (takeWhile (\<lambda>b. b \<noteq> 0xFF) contents))"
proof -
  have n: "unat (be32toh (rh_length hdr)) = length path" using assms(2,3) by (simp add: unat_of_nat32)
  from fd_readn_exact [OF assms(1), of "length path"] obtain c
    where c: "fd_readn fd (length path) = (int (length path), path, fd\<lparr>incoming := c\<rparr>)" "stream c = (rest, ok)" by auto
  have "\<exists>buffer'. read_file_loop fresh f (fresh 128) 128 0 = Inr (buffer', length (takeWhile (\<lambda>b. b \<noteq> 0xFF) f)) \<and>
      take (length (takeWhile (\<lambda>b. b \<noteq> 0xFF) f)) buffer' = takeWhile (\<lambda>b. b \<noteq> 0xFF) f" for f
    using read_file_loop_right [OF assms(4), of "fresh 128" 128 0 f] assms(4) by simp
  note file_read = this
  have "retrive fresh fs junk fd hdr =
    (case fs (c_bytes path) of
       None \<Rightarrow> respond (fd\<lparr>incoming := c\<rparr>) STATUS_BAD_REQUEST []
     | Some contents \<Rightarrow> respond (fd\<lparr>incoming := c\<rparr>) STATUS_OK (takeWhile (\<lambda>b. b \<noteq> 0xFF) contents))"
  proof (cases "fs (c_bytes path)")
    case (Some f)
    with file_read [of f] c n show ?thesis by (auto simp: retrive_def Let_def overwrite_def)
  qed (use c n in \<open>simp add: retrive_def Let_def overwrite_def\<close>)
  with c(2) show ?thesis by blast
qed

theorem retrive_answers_witness:
  "\<exists>c. retrive (\<lambda>n. replicate n 0) (\<lambda>p. if p = [102] then Some [1, 255, 2] else None) [] (idle_fd [Data [102, 0]])
     \<lparr>rh_ip = [], rh_port = 0, rh_signature = [], rh_command = 2, rh_length = htobe32 2\<rparr> =
   respond (idle_fd [Data [102, 0]]\<lparr>incoming := c\<rparr>) STATUS_OK [1]"
proof -
  have "stream (incoming (idle_fd [Data [102, 0]])) = ([102, 0] @ [], True)" by (simp add: idle_fd_def)
  from retrive_answers [OF this, of "\<lparr>rh_ip = [], rh_port = 0, rh_signature = [], rh_command = 2, rh_length = htobe32 2\<rparr>"
      "\<lambda>n. replicate n 0" "\<lambda>p. if p = [102] then Some [1, 255, 2] else None" "[]"]
  show ?thesis by (auto simp: c_bytes_def)
qed

end
