(* ===== verification/Peer_Server.thy ===== *)
theory Peer_Server
  imports Peer_Transfer
begin

text \<open>
  The two sides of a peer, from \<open>Opgave4/src/peer.c\<close>: the server thread with its handlers for
  \<open>REGISTER\<close>, \<open>INFORM\<close> and \<open>RETRIEVE\<close>, the commands of the client thread, and \<open>main\<close> up to the start
  of the threads. Debug output is left out. The buffers for port numbers as text, which are a byte too short
  for five digits, are outside the model.
\<close>

record peer =
  my_address :: network_address
  network :: "network_address list"

definition chars :: "bytes \<Rightarrow> string" where
  "chars bs = map (\<lambda>b. char_of (unat b)) bs"

section \<open>Informing other peers\<close>

text \<open>
  \<open>dial\<close> is the result of opening a connection to an address and port: a descriptor, or negative. A
  message that is handed to an open connection is listed with its destination.
\<close>

type_synonym post = "bytes \<times> u32 \<times> bytes"

definition send_to_client :: "(bytes \<Rightarrow> u32 \<Rightarrow> int) \<Rightarrow> bytes \<Rightarrow> bytes \<Rightarrow> u32 \<Rightarrow> post list" where
  "send_to_client dial message ip port = (if dial ip port \<ge> 0 then [(ip, port, message)] else [])"

definition send_inform :: "(bytes \<Rightarrow> u32 \<Rightarrow> int) \<Rightarrow> peer \<Rightarrow> array_error + post list" where
  "send_inform dial st =
     (if network st = [] then Inl OutOfBounds
      else Inr (concat (map (\<lambda>p.
        send_to_client dial
          (add_request_header (my_address st) (of_nat PEER_ADDR_LEN) @ peer_entry (last (network st)))
          (na_ip p) (na_port p)) (butlast (network st)))))"

section \<open>Handlers of the server\<close>

text \<open>The salt \<open>0123456789ABCDEF\<close>.\<close>

definition fixed_salt :: bytes where
  "fixed_salt = [48, 49, 50, 51, 52, 53, 54, 55, 56, 57, 65, 66, 67, 68, 69, 70]"

text \<open>
  The list that a new peer is sent: my own entry, and for each known peer its address, but the
  port of the last peer and my own signature and salt.
\<close>

definition register_list :: "peer \<Rightarrow> bytes" where
  "register_list st =
     peer_entry (my_address st) @
     concat (map (\<lambda>p. na_ip p @ store32 (htobe32 (na_port (last (network st)))) @
       na_signature (my_address st) @ na_salt (my_address st)) (network st))"

definition register_peer :: "(bytes \<Rightarrow> u32 \<Rightarrow> int) \<Rightarrow> peer_fd \<Rightarrow> request_header \<Rightarrow> peer \<Rightarrow> array_error + peer \<times> peer_fd \<times> post list" where
  "register_peer dial fd header st =
     rbind (is_unregistrered (network st) header) (\<lambda>unregistered.
       if unregistered then
         rbind (respond fd STATUS_OK (register_list st)) (\<lambda>fd.
         rbind (add_peer_to_network (network st) (rh_ip header) (rh_port header) (rh_signature header) fixed_salt) (\<lambda>(_, network').
           let st = st\<lparr>network := network'\<rparr> in
           rbind (send_inform dial st) (\<lambda>posts. Inr (st, fd, posts))))
       else rbind (respond fd STATUS_PEER_EXISTS []) (\<lambda>fd. Inr (st, fd, [])))"

text \<open>A NULL body is \<open>None\<close>. The length in the header is compared as it is.\<close>

definition handle_inform :: "peer_fd \<Rightarrow> request_header \<Rightarrow> bytes option \<Rightarrow> peer \<Rightarrow> array_error + peer \<times> peer_fd" where
  "handle_inform fd hdr body st =
     rbind (find_peer (network st) (rh_ip hdr) (rh_port hdr)) (\<lambda>idx.
       if idx < 0 then rbind (respond fd STATUS_PEER_MISSING []) (\<lambda>fd. Inr (st, fd))
       else rbind (validate_signature (network st) hdr) (\<lambda>valid.
         if \<not> valid then rbind (respond fd STATUS_BAD_PASSWORD []) (\<lambda>fd. Inr (st, fd))
         else case body of
           None \<Rightarrow> rbind (respond fd STATUS_MALFORMED []) (\<lambda>fd. Inr (st, fd))
         | Some body \<Rightarrow>
             if rh_length hdr \<noteq> of_nat PEER_ADDR_LEN
             then rbind (respond fd STATUS_MALFORMED []) (\<lambda>fd. Inr (st, fd))
             else if length body < PEER_ADDR_LEN then Inl OutOfBounds
             else let p = entry_struct body in
                  rbind (add_peer_to_network (network st) (na_ip p) (na_port p) (na_signature p) (na_salt p)) (\<lambda>(_, network').
                    Inr (st\<lparr>network := network'\<rparr>, fd))))"

section \<open>The server thread\<close>

text \<open>
  One connection: the process exits, the loop stops, or the next connection is accepted. \<open>env_junk\<close> is
  what the header on the stack holds before, \<open>env_body\<close> the array for the body; \<open>env_badf\<close> says whether
  a failed read left \<open>EBADF\<close>.
\<close>

datatype served = Exited | Stopped peer_fd | Served peer peer_fd "post list"

record server_env =
  env_fresh :: "nat \<Rightarrow> bytes"
  env_files :: "bytes \<Rightarrow> bytes option"
  env_dial :: "bytes \<Rightarrow> u32 \<Rightarrow> int"
  env_junk :: bytes
  env_body :: bytes
  env_badf :: bool

definition received_header :: "bytes \<Rightarrow> bytes \<Rightarrow> request_header" where
  "received_header junk got =
     (let raw = request_struct (overwrite junk got)
      in raw\<lparr>rh_port := be32toh (rh_port raw), rh_command := be32toh (rh_command raw)\<rparr>)"

definition dispatch :: "server_env \<Rightarrow> request_header \<Rightarrow> peer_fd \<Rightarrow> peer \<Rightarrow> array_error + served" where
  "dispatch env header fd st =
     (if rh_command header = COMMAND_REGISTER then
        rbind (register_peer (env_dial env) fd header st) (\<lambda>(st, fd, posts). Inr (Served st fd posts))
      else if rh_command header = COMMAND_INFORM then
        (let n = unat (be32toh (rh_length header));
             (r, got, fd) = fd_readn fd n;
             body = take n (overwrite (env_body env) got)
         in rbind (handle_inform fd header (Some body) st) (\<lambda>(st, fd). Inr (Served st fd [])))
      else if rh_command header = COMMAND_RETREIVE then
        rbind (retrive (env_fresh env) (env_files env) (env_body env) fd header) (\<lambda>fd. Inr (Served st fd []))
      else rbind (respond fd STATUS_MALFORMED []) (\<lambda>fd. Inr (Served st fd [])))"

definition serve :: "server_env \<Rightarrow> peer_fd \<Rightarrow> peer \<Rightarrow> array_error + served" where
  "serve env fd st =
     (let (r, got, fd) = fd_readn fd REQUEST_HEADER_LEN;
          header = received_header (env_junk env) got
      in if 0 \<notin> set (rh_ip header) then Inl OutOfBounds
         else case is_valid_ip (chars (c_bytes (rh_ip header))) of
           None \<Rightarrow> Inr Exited
         | Some valid \<Rightarrow>
             rbind (if \<not> valid \<or> \<not> is_valid_port (sint (rh_port header))
                    then respond fd STATUS_MALFORMED [] else Inr fd) (\<lambda>fd.
               if r = - 1 \<and> env_badf env then Inr (Stopped fd)
               else if r = 0 then Inr (Stopped fd)
               else dispatch env header fd st))"

text \<open>The loop, on the connections that are accepted one after the other.\<close>

fun server_thread :: "(server_env \<times> peer_fd) list \<Rightarrow> peer \<Rightarrow> array_error + served list" where
  "server_thread [] st = Inr []"
| "server_thread ((env, fd) # cs) st =
     rbind (serve env fd st) (\<lambda>s.
       case s of
         Served st' fd' posts \<Rightarrow> rbind (server_thread cs st') (\<lambda>ss. Inr (s # ss))
       | _ \<Rightarrow> Inr [s])"

section \<open>Commands of the client\<close>

text \<open>\<open>open_fd\<close> opens a connection to an address and a port given as text.\<close>

definition open_clientfd_nocheck :: "(string \<Rightarrow> string \<Rightarrow> int) \<Rightarrow> string \<Rightarrow> string \<Rightarrow> int" where
  "open_clientfd_nocheck open_fd ip port_str =
     (let p = atol port_str in
      if scan_int port_str = None \<or> p < 1 \<or> p > 65535 then - 1
      else open_fd (take 15 ip) (print_int p))"

text \<open>
  \<open>send_register\<close> with what the user enters; \<open>conn_of\<close> is the connection of a descriptor. The results
  of reading are ignored: short reads leave the structure and the buffer as they were.
\<close>

definition send_register :: "(string \<Rightarrow> string \<Rightarrow> int) \<Rightarrow> (int \<Rightarrow> peer_fd) \<Rightarrow> (nat \<Rightarrow> bytes) \<Rightarrow> bytes \<Rightarrow>
    string \<Rightarrow> string \<Rightarrow> peer \<Rightarrow> array_error + peer \<times> peer_fd option" where
  "send_register open_fd conn_of fresh junk peer_ip peer_port_str st =
     (let fd = open_clientfd_nocheck open_fd peer_ip peer_port_str in
      if fd < 0 then Inr (st, None)
      else
        let c = snd (fd_writen (conn_of fd) (request_message (my_address st) COMMAND_REGISTER 0));
            (r, got, c) = fd_readn c REPLY_HEADER_LEN;
            reply = reply_struct (overwrite junk got);
            status = be32toh (rp_status reply)
        in if status \<noteq> STATUS_PEER_EXISTS \<and> status \<noteq> STATUS_OK then Inr (st, Some c)
           else
             let len = unat (be32toh (rp_length reply));
                 (r, got, c) = (if len > 0 then fd_readn c len else (0, [], c));
                 payload = overwrite (fresh len) got
             in rbind (add_all (\<lambda>net e. add_peer_to_network net (na_ip e) (na_port e) (na_signature e) (na_salt e))
                   (network st) (map (\<lambda>i. entry_struct (drop (i * PEER_ADDR_LEN) payload)) [0..<len div PEER_ADDR_LEN]))
                  (\<lambda>network'. Inr (st\<lparr>network := network'\<rparr>, Some c)))"

definition PATH_LEN :: nat where "PATH_LEN = 128"

text \<open>
  A request for a file to a peer of the list: \<open>scanf\<close> takes up to 255 characters for a name, of
  which the array holds 127 and a NUL. The result is the number of bytes saved and the contents.
\<close>

definition retrieve_from :: "(bytes \<Rightarrow> string \<Rightarrow> int) \<Rightarrow> (int \<Rightarrow> peer_fd) \<Rightarrow> (nat \<Rightarrow> bytes option) \<Rightarrow> bool \<Rightarrow> bytes \<Rightarrow>
    bytes \<Rightarrow> peer \<Rightarrow> nat \<Rightarrow> array_error + (int \<times> bytes option) option" where
  "retrieve_from open_fd conn_of alloc can_write junk filename st idx =
     rbind (arr_get (network st) (int idx)) (\<lambda>p.
       let fd = open_fd (na_ip p) (print_int (uint (na_port p))) in
       if fd < 0 then Inr None
       else
         let body = filename @ [0];
             msg = request_message (my_address st) COMMAND_RETREIVE (of_nat (length body)) @ body;
             c = snd (fd_writen (conn_of fd) msg)
         in rbind (receive_file_blocks alloc can_write junk c) (\<lambda>(n, contents, c). Inr (Some (n, contents))))"

definition send_retrieve :: "(bytes \<Rightarrow> string \<Rightarrow> int) \<Rightarrow> (int \<Rightarrow> peer_fd) \<Rightarrow> (nat \<Rightarrow> bytes option) \<Rightarrow> bool \<Rightarrow> bytes \<Rightarrow>
    bytes \<Rightarrow> int \<Rightarrow> peer \<Rightarrow> array_error + (int \<times> bytes option) option" where
  "send_retrieve open_fd conn_of alloc can_write junk filename idx st =
     (if length (network st) = 0 then Inr None
      else if length filename \<ge> PATH_LEN then Inl OutOfBounds
      else if idx < 0 \<or> nat idx \<ge> length (network st) then Inr None
      else retrieve_from open_fd conn_of alloc can_write junk filename st (nat idx))"

definition send_random_retrieve :: "(bytes \<Rightarrow> string \<Rightarrow> int) \<Rightarrow> (int \<Rightarrow> peer_fd) \<Rightarrow> (nat \<Rightarrow> bytes option) \<Rightarrow> bool \<Rightarrow> bytes \<Rightarrow>
    bytes \<Rightarrow> nat \<Rightarrow> peer \<Rightarrow> array_error + (int \<times> bytes option) option" where
  "send_random_retrieve open_fd conn_of alloc can_write junk filename random st =
     (if length (network st) = 0 then Inr None
      else if length filename \<ge> PATH_LEN then Inl OutOfBounds
      else retrieve_from open_fd conn_of alloc can_write junk filename st (random mod length (network st)))"

text \<open>
  The menu: each entry is what \<open>scanf\<close> reads for the choice, nothing if it is not a number. The
  thread runs one command after the other until the fourth choice.
\<close>

datatype client_command = Register | RandomRetrieve | Retrieve | Quit | ListPeers

definition client_choice :: "int \<Rightarrow> client_command option" where
  "client_choice choice =
     (if choice = 1 then Some Register else if choice = 2 then Some RandomRetrieve
      else if choice = 3 then Some Retrieve else if choice = 4 then Some Quit
      else if choice = 5 then Some ListPeers else None)"

fun client_thread :: "int option list \<Rightarrow> client_command list" where
  "client_thread [] = []"
| "client_thread (None # cs) = client_thread cs"
| "client_thread (Some choice # cs) =
     (case client_choice choice of
        None \<Rightarrow> client_thread cs
      | Some Quit \<Rightarrow> [Quit]
      | Some cmd \<Rightarrow> cmd # client_thread cs)"

section \<open>Helpers that the threads do not call\<close>

definition recv_request_header :: "bytes \<Rightarrow> peer_fd \<Rightarrow> request_header option \<times> peer_fd" where
  "recv_request_header junk fd =
     (let (n, got, fd) = fd_readn fd REQUEST_HEADER_LEN in
      if n \<le> 0 then (None, fd)
      else let hdr = request_struct (overwrite junk got)
           in (Some (hdr\<lparr>rh_port := be32toh (rh_port hdr), rh_command := be32toh (rh_command hdr),
                         rh_length := be32toh (rh_length hdr)\<rparr>), fd))"

definition recv_body :: "(nat \<Rightarrow> bytes) \<Rightarrow> peer_fd \<Rightarrow> u32 \<Rightarrow> bytes option \<times> peer_fd" where
  "recv_body fresh fd len =
     (if len = 0 then (None, fd)
      else let (n, got, fd) = fd_readn fd (unat len) in
           if n \<le> 0 then (None, fd) else (Some (overwrite (fresh (unat len)) got), fd))"

fun is_equal :: "bytes \<Rightarrow> bytes \<Rightarrow> bool" where
  "is_equal (a # as) (b # bs) = (if a \<noteq> b then False else is_equal as bs)"
| "is_equal _ _ = True"

section \<open>The start of the program\<close>



section \<open>The invariant of a peer\<close>

definition wf_peer :: "peer \<Rightarrow> bool" where
  "wf_peer st \<longleftrightarrow> wf_address (my_address st) \<and> wf_network (network st)"

text \<open>The parts of a handler that only answer.\<close>

lemma respond_loop_total: "\<exists>fd'. respond_loop status data th nb i off fd = Inr fd'"
  by (induction status data th nb i off fd rule: respond_loop.induct, subst respond_loop.simps)
    (auto simp: Let_def split: prod.splits)

lemma respond_total: "\<exists>fd'. respond fd status data = Inr fd'"
  using respond_loop_total by (auto simp: respond_def)









section \<open>Properties\<close>


text \<open>A new peer that registers with one that knows nobody.\<close>

definition demo_peer :: peer where
  "demo_peer = \<lparr>my_address = demo_address\<lparr>na_port := 6000\<rparr>, network = []\<rparr>"

definition demo_env :: server_env where
  "demo_env = \<lparr>env_fresh = (\<lambda>n. replicate n 0), env_files = (\<lambda>p. None), env_dial = (\<lambda>ip port. 5),
     env_junk = replicate 60 0, env_body = [], env_badf = False\<rparr>"

lemma wf_demo_peer: "wf_peer demo_peer"
  using wf_demo_address by (simp add: wf_peer_def demo_peer_def wf_network_def wf_address_def)


text \<open>The peers in the list of a reply, and the client that enters them.\<close>

definition register_entries :: "peer \<Rightarrow> network_address list" where
  "register_entries st = my_address st # map (\<lambda>p. (my_address st)\<lparr>na_ip := na_ip p, na_port := na_port (last (network st))\<rparr>) (network st)"

lemma register_list_entries: "register_list st = concat (map peer_entry (register_entries st))"
  by (simp add: register_list_def register_entries_def peer_entry_def o_def)

lemma wf_register_entries: "wf_peer st \<Longrightarrow> list_all wf_address (register_entries st)"
  by (auto simp: register_entries_def wf_peer_def wf_network_def wf_address_def list_all_iff)

lemma one_block_reply:
  assumes "answers fd = []" "data \<noteq> []" "length data \<le> MAX_MSG_LEN"
  shows "respond fd STATUS_OK data = Inr (fd\<lparr>sent := sent fd @ block_header STATUS_OK data 1 0 @ data\<rparr>)"
proof -
  have "response_blocks (length data) = 1"
    using assms(2,3) by (cases "length data") (auto simp: response_blocks_def MAX_MSG_LEN_def div_nat_eqI)
  then show ?thesis
    using respond_sends [OF assms(1,2)] by (simp add: blocks_from_def block_message_def block_payload_def)
qed

lemma send_register_enters:
  assumes "open_clientfd_nocheck open_fd ip port = d" "0 \<le> d"
    "stream (incoming (conn_of d)) = (block_header STATUS_OK data 1 0 @ data, ok)" "data = concat (map peer_entry es)"
    "list_all wf_address es" "wf_peer cl" "length data < 2 ^ 32" "\<And>n. length (fresh n) = n"
  shows "\<exists>cl' c. send_register open_fd conn_of fresh jk ip port cl = Inr (cl', Some c) \<and> wf_peer cl' \<and>
    my_address cl' = my_address cl \<and>
    add_all (\<lambda>net e. add_peer_to_network net (na_ip e) (na_port e) (na_signature e) (na_salt e)) (network cl) es = Inr (network cl')"
proof -
  let ?c = "snd (fd_writen (conn_of d) (request_message (my_address cl) COMMAND_REGISTER 0))"
  have "incoming ?c = incoming (conn_of d)" by (simp add: fd_writen_def split: list.splits prod.splits)
  with assms(3) have s: "stream (incoming ?c) = (block_header STATUS_OK data 1 0 @ data, ok)" by simp
  from fd_readn_exact [OF s, of REPLY_HEADER_LEN] obtain c1 where
    c1: "fd_readn ?c REPLY_HEADER_LEN = (80, block_header STATUS_OK data 1 0, c1)" "stream (incoming c1) = (data, ok)"
    by (auto simp: block_header_decode(2) REPLY_HEADER_LEN_def)
  from fd_readn_exact [OF c1(2), of "length data"] obtain c2 where c2: "fd_readn c1 (length data) = (int (length data), data, c2)" by auto
  have rep: "reply_struct (overwrite jk (block_header STATUS_OK data 1 0)) =
      \<lparr>rp_length = htobe32 (of_nat (length data)), rp_status = htobe32 STATUS_OK,
        rp_this_block = htobe32 (of_nat 0), rp_block_count = htobe32 (of_nat 1),
        rp_block_hash = std_sha256 data, rp_total_hash = std_sha256 data\<rparr>"
    by (simp add: overwrite_def block_header_decode(1) block_payload_def)
  have len: "unat (of_nat (length data) :: u32) = length data" using assms(7) by (rule unat_of_nat32)
  have entries: "length data div PEER_ADDR_LEN = length es"
      "map (\<lambda>i. entry_struct (drop (i * PEER_ADDR_LEN) data)) [0..<length es] = es"
    using entry.length_entries [OF assms(5)] entry.dec_entries [OF assms(5), of "[]"] by (simp_all add: assms(4) PEER_ADDR_LEN_def)
  from known_peers.add_all_right [OF _ assms(5), of "network cl"] assms(6) obtain net where
    net: "add_all (\<lambda>net e. add_peer_to_network net (na_ip e) (na_port e) (na_signature e) (na_salt e)) (network cl) es = Inr net"
      "wf_network net" by (auto simp: wf_peer_def)
  have "send_register open_fd conn_of fresh jk ip port cl = Inr (cl\<lparr>network := net\<rparr>, Some (if data = [] then c1 else c2))"
    using assms(1,2,8) c1(1) c2 rep len entries net(1)
    by (auto simp: send_register_def Let_def overwrite_def)
  with net assms(6) show ?thesis by (auto simp: wf_peer_def)
qed

text \<open>
  C31: Registration works end to end as far as the peer that is asked is concerned: with at most 119
  peers in its list, what it answers to a new peer arrives in one block, and the new peer, however the
  answer is cut into packets, then has in its own list the other's address with its signature and
  salt. But each further peer is entered under the port of the last one of the list and with the
  signature and salt of the peer that was asked.
\<close>

theorem register_handshake:
  assumes "wf_peer st" "wf_peer cl" "length (network st) < 120" "answers fd = []" "sent fd = []"
    "respond fd STATUS_OK (register_list st) = Inr fd1" "open_clientfd_nocheck open_fd ip port = d" "0 \<le> d"
    "stream (incoming (conn_of d)) = (sent fd1, ok)" "\<And>n. length (fresh n) = n"
  shows "\<exists>cl' c. send_register open_fd conn_of fresh jk ip port cl = Inr (cl', Some c) \<and> wf_peer cl' \<and>
    net_map (network cl') (peer_key (my_address st)) = Some (na_signature (my_address st), na_salt (my_address st)) \<and>
    (\<forall>p \<in> set (network st). net_map (network cl') (c_bytes (na_ip p), na_port (last (network st))) =
       Some (na_signature (my_address st), na_salt (my_address st)))"
proof -
  note wf = wf_register_entries [OF assms(1)]
  have len: "length (register_list st) = 68 * (length (network st) + 1)"
    using entry.length_entries [OF wf] by (simp add: register_list_entries PEER_ADDR_LEN_def register_entries_def)
  then have ne: "register_list st \<noteq> []" by auto
  have "sent fd1 = block_header STATUS_OK (register_list st) 1 0 @ register_list st"
    using one_block_reply [OF assms(4) ne] len assms(3,5,6) by (auto simp: MAX_MSG_LEN_def)
  with assms(9) have s: "stream (incoming (conn_of d)) = (block_header STATUS_OK (register_list st) 1 0 @ register_list st, ok)" by simp
  have l: "length (register_list st) < 2 ^ 32" using len assms(3) by simp
  from send_register_enters [where conn_of = conn_of and fresh = fresh, OF assms(7,8) s register_list_entries wf assms(2) l assms(10)] obtain cl' c where
    c: "send_register open_fd conn_of fresh jk ip port cl = Inr (cl', Some c)" "wf_peer cl'"
      "add_all (\<lambda>net e. add_peer_to_network net (na_ip e) (na_port e) (na_signature e) (na_salt e)) (network cl) (register_entries st) =
        Inr (network cl')" by blast
  have same: "\<forall>e' \<in> set (register_entries st). (na_signature e', na_salt e') = (na_signature (my_address st), na_salt (my_address st))"
    by (auto simp: register_entries_def)
  have "net_map (network cl') (peer_key e) = Some (na_signature (my_address st), na_salt (my_address st))"
    if "e \<in> set (register_entries st)" for e
    using known_peers.add_all_knows [OF _ wf that, of "network cl"] same that c(3) assms(2) by (auto simp: wf_peer_def)
  note known = this
  have "net_map (network cl') (c_bytes (na_ip p), na_port (last (network st))) = Some (na_signature (my_address st), na_salt (my_address st))"
    if "p \<in> set (network st)" for p
    using known [of "(my_address st)\<lparr>na_ip := na_ip p, na_port := na_port (last (network st))\<rparr>"] that
    by (simp add: register_entries_def peer_key_def)
  with c(1,2) known [of "my_address st"] show ?thesis by (auto simp: register_entries_def)
qed

theorem register_handshake_witness:
  "\<exists>fd1 cl' c. respond (idle_fd []) STATUS_OK (register_list demo_peer) = Inr fd1 \<and>
     send_register (\<lambda>ip port. 5) (\<lambda>d. idle_fd [Data (sent fd1)]) (\<lambda>n. replicate n 0) [] ''1.2.3.4'' ''6000''
       \<lparr>my_address = demo_address, network = []\<rparr> = Inr (cl', Some c) \<and>
     net_map (network cl') (peer_key (my_address demo_peer)) = Some (na_signature demo_address, na_salt demo_address)"
proof -
  let ?cl = "\<lparr>my_address = demo_address, network = []\<rparr>"
  have cl: "wf_peer ?cl" using wf_demo_address by (simp add: wf_peer_def wf_network_def)
  have idle: "answers (idle_fd []) = []" "sent (idle_fd []) = []" by (simp_all add: idle_fd_def)
  obtain fd1 where fd1: "respond (idle_fd []) STATUS_OK (register_list demo_peer) = Inr fd1" using respond_total by blast
  have n: "length (network demo_peer) < 120" by (simp add: demo_peer_def)
  have "sint (word_of_int 6000 :: i32) = 6000" by simp
  then have o: "open_clientfd_nocheck (\<lambda>ip port. 5) ''1.2.3.4'' ''6000'' = 5"
    by (simp add: open_clientfd_nocheck_def scan_int_def atol_def atoi_def isspace_def isdigit_def digits_value_def digit_def)
  have "stream (incoming ((\<lambda>d. idle_fd [Data (sent fd1)]) (5 :: int))) = (sent fd1, True)" by (auto simp: idle_fd_def)
  from register_handshake [where conn_of = "\<lambda>d. idle_fd [Data (sent fd1)]" and fresh = "\<lambda>n. replicate n 0",
      OF wf_demo_peer cl n idle fd1 o _ this, of "[]"] fd1
  show ?thesis by (auto simp: demo_peer_def)
qed

text \<open>
  A connection can end the server. If a client connects and sends nothing, the server never
  goes on to the next connection: its loop stops, or the process exits; and any request whose
  address field starts with a NUL byte makes the process exit, because \<open>is_valid_ip\<close> takes the end of an
  empty string for an error of \<open>sscanf\<close>.
\<close>

theorem connection_ends_server:
  "(stream (incoming fd) = ([], True) \<longrightarrow> (case serve env fd st of Inr (Served st' fd' posts) \<Rightarrow> False | _ \<Rightarrow> True)) \<and>
   (hd (rh_ip (received_header (env_junk env) (fst (snd (fd_readn fd REQUEST_HEADER_LEN))))) = 0 \<and>
    rh_ip (received_header (env_junk env) (fst (snd (fd_readn fd REQUEST_HEADER_LEN)))) \<noteq> [] \<longrightarrow> serve env fd st = Inr Exited)"
proof (intro conjI impI)
  assume s: "stream (incoming fd) = ([], True)"
  from readn_loop_right [OF s order_refl, of REQUEST_HEADER_LEN "[]"] obtain c where
    r: "fd_readn fd REQUEST_HEADER_LEN = (0, [], fd\<lparr>incoming := c\<rparr>)"
    by (auto simp: fd_readn_def compsys_helper_readn_def REQUEST_HEADER_LEN_def)
  obtain fd2 where "respond (fd\<lparr>incoming := c\<rparr>) STATUS_MALFORMED [] = Inr fd2" using respond_total by blast
  with r show "case serve env fd st of Inr (Served st' fd' posts) \<Rightarrow> False | _ \<Rightarrow> True"
    by (auto simp: serve_def Let_def split: option.splits)
next
  let ?ip = "rh_ip (received_header (env_junk env) (fst (snd (fd_readn fd REQUEST_HEADER_LEN))))"
  assume "hd ?ip = 0 \<and> ?ip \<noteq> []"
  then obtain rest where ip: "?ip = 0 # rest" by (cases ?ip) auto
  then show "serve env fd st = Inr Exited"
    by (simp add: serve_def Let_def split_def c_bytes_def chars_def is_valid_ip_empty)
qed

theorem connection_ends_server_witness: "serve demo_env (idle_fd []) demo_peer = Inr Exited"
proof -
  have "fd_readn (idle_fd []) REQUEST_HEADER_LEN = (0, [], idle_fd [])"
    by (simp add: fd_readn_def compsys_helper_readn_def idle_fd_def REQUEST_HEADER_LEN_def readn_loop.simps)
  then have "rh_ip (received_header (env_junk demo_env) (fst (snd (fd_readn (idle_fd []) REQUEST_HEADER_LEN)))) = replicate 16 0"
    by (simp add: received_header_def request_struct_def overwrite_def demo_env_def Let_def)
  with connection_ends_server [of "idle_fd []" demo_env demo_peer] show ?thesis by simp
qed


end
