(* ===== verification/Spec2Isabelle.thy ===== *)
theory Spec2Isabelle
  imports File_Type Bench_Heap Radix Bench_Start Branch_Prediction Disassemble_Correct Sim_Main Eytzinger Random_Ids Coord_Query Histogram
    Fauxgrep Sha256_Vectors Peer_Readers Peer_Server
begin

text \<open>
  A verification development for the programs of the repository: the hand-ins of a course on
  computer systems, one directory each, all in C. Paths are relative to the repository's root.

  \<^bold>\<open>The programs and their theories\<close>

  \<^item> \<open>Opgave1/src\<close>, a classifier of files: \<open>File_Type\<close> models \<open>file.c\<close> beside a reference
    classification and the UTF-8 encoding of the Unicode standard.
  \<^item> \<open>Opgave2/src\<close>, queries on a file of places. \<open>Records\<close> models the reader
    (\<open>common/record.c\<close>): columns, header, the array that doubles. \<open>Id_Query\<close> has the loop of
    \<open>common/id_query.c\<close> and the naive, indexed and binary-search programs (\<open>Binsort/*.c\<close>), \<open>Eytzinger\<close>
    the layout of \<open>eytzinger/*.c\<close> with its program, \<open>Coord_Query\<close> the loop of \<open>common/coord_query.c\<close>, the
    naive search (\<open>naive/coord_query_naive.c\<close>) and the k-d tree (\<open>kdtree/coord_query_kdtree.c\<close>).
    The loops call an index through function pointers; the locales \<open>id_index\<close> and \<open>nearest_index\<close> are
    the contracts of such an index, interpreted for each of them. \<open>Random_Ids\<close> models the generator of
    queries (\<open>random_ids.c\<close>).
  \<^item> \<open>Opgave3/src\<close>, threads. \<open>Job_Queue\<close> models \<open>job_queue.c\<close> with one step per lock operation, per access
    to a shared field and per condition wait. \<open>Worker_Pool\<close> has the workers that take jobs from it;
    the locale \<open>job_channel\<close> is what they rely on, and the queues of the programs provide it. \<open>Histogram\<close>
    (\<open>histogram.h\<close>, \<open>fhistogram.c\<close>, \<open>fhistogram-mt.c\<close>) and \<open>Fauxgrep\<close> (\<open>fauxgrep.c\<close>, \<open>fauxgrep-mt.c\<close>,
    \<open>fibs.c\<close>) are the programs above it.
  \<^item> \<open>Opgave4/src\<close>, a peer-to-peer file service. \<open>Sha256\<close> models \<open>sha256.c\<close> beside the function of
    FIPS 180-4, \<open>Sha256_Vectors\<close> evaluates it on sample messages, \<open>Compsys_IO\<close> has the robust input
    and output of \<open>compsys_helpers.c\<close>, \<open>Common\<close> \<open>common.c\<close> and the byte order, and \<open>peer.c\<close> is in four
    parts: \<open>Peer_Wire\<close> (messages and the list of peers), \<open>Peer_Transfer\<close> (a file in blocks),
    \<open>Peer_Server\<close> (handlers, server loop, client commands, start; each handler runs from start to end) and
    \<open>Peer_Threads\<close>, in which the threads interleave on the list of peers, with one step per access to a
    shared variable, the lock, and the array that \<open>realloc\<close> moves; \<open>Peer_Lock\<close> has the invariant of the
    holder of the lock and \<open>Peer_Readers\<close> that of the readers without it. Locales: \<open>byte_reader\<close> for what the
    reading loops need, \<open>fixed_codec\<close> for messages of fixed width, \<open>peer_directory\<close> for the list.
  \<^item> \<open>Opgave5/src\<close>, a simulator for RISC-V. \<open>Memory\<close> models \<open>memory.c\<close> and refines it to a flat byte memory
    (locale \<open>byte_store\<close>), \<open>Simulate\<close> models \<open>simulate.c\<close>, \<open>Riscv_Spec\<close> is a specification of the instruction
    set written from its manual, \<open>Simulate_Correct\<close> relates the two, and \<open>Branch_Prediction\<close>
    relates the predictors to reference ones. \<open>Elf_Loader\<close> models \<open>read_elf.c\<close>, \<open>Disassemble\<close> the
    disassembler on its character buffer (\<open>disassemble.c\<close>), with \<open>Disassemble_Text\<close> and
    \<open>Disassemble_Correct\<close> about its text, and \<open>Sim_Main\<close> the program (\<open>main.c\<close>) that puts them together.
  \<^item> \<open>Opgave5/predictor-benchmarks\<close>, the programs that are run on the simulator. \<open>Bench_Lib\<close> models the text
    functions of their library (\<open>lib.c\<close>), \<open>Bench_Heap\<close> its allocator and \<open>Bench_Start\<close> how a program finds the
    arguments that the simulator put in memory, \<open>Benchmarks\<close> the programs \<open>fib.c\<close>
    and \<open>erat.c\<close>, \<open>Radix\<close> the radix tree of \<open>radix.c\<close> with its program. The locale \<open>min_store\<close> is what that
    program needs of the tree.

  \<open>Prelude\<close> and \<open>C_Lib\<close> hold what they share: integer types, results, words; lines, numbers as text,
  arrays, and the contract \<open>c_qsort\<close> of the library's sorting function.

  \<^bold>\<open>How code is modelled\<close>

  Functions keep the names of the source. A structure is a record, state is passed explicitly, loops are
  recursive functions with a termination proof. C integers are words where they can wrap around or
  their bits matter, and numbers where the source bounds them. An access outside an array, a trap or an
  \<open>exit\<close> is a value: \<open>Inl\<close> of an error. Memory that is not initialised, files, the answers of system
  calls, \<open>malloc\<close>, \<open>qsort\<close> and random numbers are arguments. Doubles are exact rationals.

  \<^bold>\<open>Bounds and fuel\<close>

  \<open>sim_loop\<close> has fuel, since a simulated program may run for ever: \<open>simulate_refines_isa_run\<close>
  relates runs of any number of steps, and more fuel never changes a run that has ended. So has the
  listing of a program, whose address wraps around: \<open>disassembly_lists_text\<close> shows how much is enough. Descriptors deliver
  finite lists of arrivals. The number of blocks in \<open>respond\<close> is exact below \<open>2 ^ 24\<close> bytes, where the
  single-precision division of the source is.

  \<^bold>\<open>What the lemmas show\<close>

  Refinement: the simulator implements the specification step by step and run by run, and the whole
  program runs it from the bytes of a file; the memory a flat
  memory; the job queue a bounded queue under every interleaving; the list of peers a map,
  and under every interleaving the one that the additions give one after the other; the radix
  tree a multiset that gives back its smallest numbers. Equivalence:
  the four identifier indexes, the threaded and the sequential programs, the hash and the standard, the
  predictors and their references, the disassembler and a reference printer. Round trips: messages, peer lists, files in blocks,
  numbers as text. Invariants and
  safety: locks, array bounds, the blocks of the allocator under every run of a client, the state of a
  peer under any input. Several theorems state where
  the code departs from what it means to do, each on all inputs it concerns or with a concrete run.

  \<^bold>\<open>Not modelled\<close>

  Timing output and the text of messages to the user; \<open>elf.h\<close>, the C library's header; the unlocked
  reads of \<open>validate_signature\<close> and \<open>send_inform\<close> as steps of a thread; the buffers for port numbers as
  text in \<open>peer.c\<close>; the system calls of \<open>lib.c\<close> for files, which are inline assembly and which the
  simulator does not answer; test scripts and test data.
\<close>

section \<open>Properties across components\<close>

text \<open>
  C19: What the simulator puts in memory is what a simulated program finds there: \<open>args_to_main\<close> of
  its library calls \<open>main\<close> with the number of the arguments, the separator included, and with a
  table whose entries are the addresses of the arguments as C strings, in their order.
\<close>

theorem program_receives_arguments:
  assumes "pre \<noteq> []" "separator \<notin> set (tl pre)" "length (args_block (separator # args)) < 2 ^ 32"
    and "\<forall>s \<in> set args. nul \<notin> set s"
  shows "\<exists>m'. pass_args_to_program m (pre @ separator # args) = Inr (m', length pre) \<and>
    main_argv (length (args_block (separator # args))) (flat m') = map (\<lambda>s. Some (string_bytes s)) (separator # args)"
  using assms by (rule main_argv_passed)

theorem program_receives_arguments_witness:
  "\<exists>m' k. pass_args_to_program memory_create [''sim'', ''fib.elf'', ''--'', ''10''] = Inr (m', 2) \<and>
    main_argv k (flat m') = [Some (string_bytes ''--''), Some (string_bytes ''10'')]"
proof -
  have "length (args_block [separator, ''10'']) < 2 ^ 32" "separator \<notin> set (tl [''sim'', ''fib.elf''])" "nul \<notin> set ''10''"
    by (simp_all add: args_block_def separator_def string_bytes_def word_bytes_def nul_def)
  with program_receives_arguments [of "[''sim'', ''fib.elf'']" "[''10'']" memory_create] show ?thesis
    by (auto simp: separator_def)
qed

text \<open>
  An empty file does not arrive: \<open>respond\<close> sends a header with zeros for the hashes, and
  \<open>receive_file_blocks\<close>, which compares them with the hash of no bytes, returns \<open>- 1\<close> and writes no file,
  whatever it allocates.
\<close>

theorem empty_file_not_received:
  assumes "answers fd = []" "sent fd = []" "respond fd STATUS_OK [] = Inr fd1" "stream (incoming rfd) = (sent fd1, ok)"
  shows "\<exists>rfd'. receive_file_blocks alloc can_write jk rfd = Inr (- 1, None, rfd')"
proof -
  let ?h = "add_response_header 0 STATUS_OK 0 1 None None"
  have len: "length ?h = REPLY_HEADER_LEN" and dec: "reply_struct (?h @ rest) =
      \<lparr>rp_length = htobe32 0, rp_status = htobe32 STATUS_OK, rp_this_block = htobe32 0, rp_block_count = htobe32 1,
       rp_block_hash = replicate 32 0, rp_total_hash = replicate 32 0\<rparr>" for rest
    using reply.enc_length [of "(0, STATUS_OK, 0, 1, None, None)"] reply.dec_enc [of "(0, STATUS_OK, 0, 1, None, None)" rest]
    by (simp_all add: hash_field_def SHA256_HASH_SIZE_def)
  have "stream (incoming rfd) = (?h, ok)" using assms by (auto simp: respond_def fd_writen_def)
  from fd_readn_exact [OF this, of REPLY_HEADER_LEN] len obtain c where
    c: "fd_readn rfd REPLY_HEADER_LEN = (80, ?h, rfd\<lparr>incoming := c\<rparr>)" by (auto simp: REPLY_HEADER_LEN_def)
  show ?thesis
    using c std_sha256_empty
    by (auto simp: receive_file_blocks_def Let_def overwrite_def dec receive_payload_def store_at_def load_at_def split: option.splits)
qed

theorem empty_file_not_received_witness:
  "\<exists>fd1 rfd'. respond (idle_fd []) STATUS_OK [] = Inr fd1 \<and>
     receive_file_blocks zero_alloc True [] (idle_fd [Data (sent fd1)]) = Inr (- 1, None, rfd')"
proof -
  have idle: "answers (idle_fd []) = []" "sent (idle_fd []) = []" by (simp_all add: idle_fd_def)
  obtain fd1 where fd1: "respond (idle_fd []) STATUS_OK [] = Inr fd1" using respond_total by blast
  have "stream (incoming (idle_fd [Data (sent fd1)])) = (sent fd1, True)" by (auto simp: idle_fd_def)
  from empty_file_not_received [OF idle fd1 this] fd1 show ?thesis by blast
qed

end
